(* ===== verification/Prelude.thy ===== *)
theory Prelude
  imports Main "HOL-Library.Word" "HOL-Library.Char_ord" "HOL-Library.List_Lexorder"
begin

text \<open>
  Shared vocabulary of the development: the machine types of the C++ sources, the byte view
  of \<^verbatim>\<open>std::string\<close>, and the facts on lists, words and association lists that several
  components use.

  Conventions. A \<^verbatim>\<open>std::string\<close> is a \<^typ>\<open>string\<close> (one \<^typ>\<open>char\<close> per byte);
  \<^verbatim>\<open>operator<\<close> on strings compares unsigned bytes lexicographically, which is the order
  that \<^verbatim>\<open>Char_ord\<close> and \<^verbatim>\<open>List_Lexorder\<close> give to \<^typ>\<open>string\<close>. A
  \<^verbatim>\<open>std::vector<uint8_t>\<close> is a list of 8-bit words. A \<^verbatim>\<open>size_t\<close> that only counts
  elements of a container held in memory is a \<^typ>\<open>nat\<close>; where the source casts it to a
  narrower type the cast is written out.
\<close>

unbundle bit_operations_syntax

type_synonym byte = "8 word"
type_synonym bytes = "byte list"
type_synonym u32 = "32 word"
type_synonym u64 = "64 word"
type_synonym key = string

text \<open>The facts that rewrite decoders applied to encoded data.\<close>

named_theorems codec_simps

subsection \<open>Casts\<close>

text \<open>\<^verbatim>\<open>static_cast<uint32_t>(n)\<close> and \<^verbatim>\<open>static_cast<int>(n)\<close> of a
  \<^verbatim>\<open>size_t\<close>.\<close>

definition to_u32 :: "nat \<Rightarrow> u32" where
  "to_u32 n = word_of_nat n"

definition to_u64 :: "nat \<Rightarrow> u64" where
  "to_u64 n = word_of_nat n"

definition to_int32 :: "nat \<Rightarrow> int" where
  "to_int32 n = sint (word_of_nat n :: 32 word)"

lemma unat_to_u32 [simp]: "n < 2 ^ 32 \<Longrightarrow> unat (to_u32 n) = n"
  by (simp add: to_u32_def unsigned_of_nat take_bit_nat_eq_self)

lemma unat_to_u64 [simp]: "n < 2 ^ 64 \<Longrightarrow> unat (to_u64 n) = n"
  by (simp add: to_u64_def unsigned_of_nat take_bit_nat_eq_self)

lemma to_u32_unat [simp]: "to_u32 (unat w) = w"
  by (simp add: to_u32_def)

lemma to_int32_small [simp]: "n < 2 ^ 31 \<Longrightarrow> to_int32 n = int n"
  by (simp add: to_int32_def sint_uint unsigned_of_nat signed_take_bit_int_eq_self
      take_bit_nat_eq_self)

lemma unat_plus_1_u64: "Suc (unat n) < 2 ^ 64 \<Longrightarrow> unat (n + 1 :: u64) = Suc (unat n)"
  by (simp add: unat_word_ariths)

lemma u64_less_plus_1: "n < - 1 \<Longrightarrow> n < n + (1 :: u64)"
  by (metis inc_less_eq_self_iff_eq linorder_not_less order_less_irrefl)

subsection \<open>Strings as bytes\<close>

definition string_bytes :: "string \<Rightarrow> bytes" where
  "string_bytes s = map (\<lambda>c. word_of_nat (of_char c)) s"

definition bytes_string :: "bytes \<Rightarrow> string" where
  "bytes_string bs = map (\<lambda>b. char_of (unat b)) bs"

lemma length_string_bytes [simp]: "length (string_bytes s) = length s"
  by (simp add: string_bytes_def)

lemma length_bytes_string [simp]: "length (bytes_string bs) = length bs"
  by (simp add: bytes_string_def)

lemma unat_of_char_byte [simp]: "unat (word_of_nat (of_char c) :: byte) = of_char c"
  by (simp add: unsigned_of_nat take_bit_nat_eq_self)

lemma bytes_string_string_bytes [simp]: "bytes_string (string_bytes s) = s"
  by (simp add: bytes_string_def string_bytes_def comp_def)

lemma string_bytes_inject [simp]: "string_bytes s = string_bytes t \<longleftrightarrow> s = t"
  by (metis bytes_string_string_bytes)

subsection \<open>Lists\<close>

lemma drop_prefix: "n = length xs \<Longrightarrow> drop n (xs @ ys) = ys"
  by simp

lemma take_prefix: "n = length xs \<Longrightarrow> take n (xs @ ys) = xs"
  by simp

lemma map_of_sorted_Some_iff:
  assumes "distinct (map fst xs)"
  shows "map_of xs k = Some v \<longleftrightarrow> (k, v) \<in> set xs"
  using assms by (rule map_of_eq_Some_iff)

lemma last_Cons_append: "ys \<noteq> [] \<Longrightarrow> last (x # xs @ ys) = last ys"
  by simp

subsection \<open>Bisection\<close>

text \<open>The middle of a range of indices, and what a comparison there says of a sorted list on one side of it.\<close>

lemma bisect_mid:
  fixes lo hi :: int
  assumes "0 \<le> lo" and "lo \<le> hi" and "hi < int n"
  shows "lo \<le> lo + (hi - lo) div 2" and "lo + (hi - lo) div 2 \<le> hi"
    and "\<not> (lo + (hi - lo) div 2 < 0 \<or> lo + (hi - lo) div 2 \<ge> int n)" and "nat (lo + (hi - lo) div 2) < n"
  using assms by auto

lemma sorted_below_mid:
  assumes "sorted_wrt (<) (map f xs)" and "nat m < length xs" and "f (xs ! nat m) < (k :: 'k :: linorder)"
  shows "\<forall>i < length xs. int i < m + 1 \<longrightarrow> f (xs ! i) < k"
proof (intro allI impI)
  fix i assume "i < length xs" "int i < m + 1"
  then have "i = nat m \<or> i < nat m" by linarith
  then have "i = nat m \<or> f (xs ! i) < f (xs ! nat m)" using assms(1,2) by (auto simp: sorted_wrt_iff_nth_less)
  with assms(3) show "f (xs ! i) < k" by auto
qed

lemma sorted_above_mid:
  assumes "sorted_wrt (<) (map f xs)" and "0 \<le> m"
  shows "(k :: 'k :: linorder) \<le> f (xs ! nat m) \<Longrightarrow> \<forall>i < length xs. m - 1 < int i \<longrightarrow> k \<le> f (xs ! i)"
    and "k < f (xs ! nat m) \<Longrightarrow> \<forall>i < length xs. m - 1 < int i \<longrightarrow> k < f (xs ! i)"
proof -
  have "i = nat m \<or> f (xs ! nat m) < f (xs ! i)" if i: "i < length xs" "m - 1 < int i" for i
  proof -
    have "i = nat m \<or> nat m < i" using i(2) assms(2) by linarith
    with i(1) assms(1) show ?thesis by (auto simp: sorted_wrt_iff_nth_less)
  qed
  then show "k \<le> f (xs ! nat m) \<Longrightarrow> \<forall>i < length xs. m - 1 < int i \<longrightarrow> k \<le> f (xs ! i)"
    and "k < f (xs ! nat m) \<Longrightarrow> \<forall>i < length xs. m - 1 < int i \<longrightarrow> k < f (xs ! i)"
    by (metis less_imp_le order_trans less_trans)+
qed

end
