(* ===== verification/Status.thy ===== *)
theory Status
  imports Prelude
begin

text \<open>
  The error vocabulary of \<^verbatim>\<open>src/common/error\<close>: \<^verbatim>\<open>StatusCode\<close>, \<^verbatim>\<open>Status\<close>,
  \<^verbatim>\<open>ErrorOr<T>\<close> and the propagation macros. A C++ function that returns
  \<^verbatim>\<open>ErrorOr<T>\<close> becomes a HOL function into \<open>'a ErrorOr\<close>; an operation that
  can also throw or run into undefined behaviour returns an \<^typ>\<open>'a option\<close> around that,
  with \<^const>\<open>None\<close> for the run that does not return.
\<close>

subsection \<open>Status codes\<close>

datatype StatusCode =
    kOk
  | kUnknown | kInvalidArgument | kDeadlineExceeded | kNotFound | kAlreadyExists
  | kPermissionDenied | kResourceExhausted | kFailedPrecondition | kAborted | kOutOfRange
  | kUnimplemented | kInternal | kUnavailable | kDataLoss | kUnauthenticated
  | kStorageIoError | kStorageCorruption | kStorageFull | kStorageNotFound
  | kRaftNotLeader | kRaftLogCompacted | kRaftElectionInProgress | kRaftTimeout
  | kRaftInvalidTerm
  | kVectorDimensionMismatch | kVectorNotFound | kVectorIndexFull
  | kNetworkTimeout | kNetworkUnavailable | kRouterShardNotFound

fun StatusCode_value :: "StatusCode \<Rightarrow> int" where
  "StatusCode_value kOk = 0"
| "StatusCode_value kUnknown = 1"
| "StatusCode_value kInvalidArgument = 2"
| "StatusCode_value kDeadlineExceeded = 3"
| "StatusCode_value kNotFound = 4"
| "StatusCode_value kAlreadyExists = 5"
| "StatusCode_value kPermissionDenied = 6"
| "StatusCode_value kResourceExhausted = 7"
| "StatusCode_value kFailedPrecondition = 8"
| "StatusCode_value kAborted = 9"
| "StatusCode_value kOutOfRange = 10"
| "StatusCode_value kUnimplemented = 11"
| "StatusCode_value kInternal = 12"
| "StatusCode_value kUnavailable = 13"
| "StatusCode_value kDataLoss = 14"
| "StatusCode_value kUnauthenticated = 15"
| "StatusCode_value kStorageIoError = 100"
| "StatusCode_value kStorageCorruption = 101"
| "StatusCode_value kStorageFull = 102"
| "StatusCode_value kStorageNotFound = 103"
| "StatusCode_value kRaftNotLeader = 200"
| "StatusCode_value kRaftLogCompacted = 201"
| "StatusCode_value kRaftElectionInProgress = 202"
| "StatusCode_value kRaftTimeout = 203"
| "StatusCode_value kRaftInvalidTerm = 204"
| "StatusCode_value kVectorDimensionMismatch = 300"
| "StatusCode_value kVectorNotFound = 301"
| "StatusCode_value kVectorIndexFull = 302"
| "StatusCode_value kNetworkTimeout = 400"
| "StatusCode_value kNetworkUnavailable = 401"
| "StatusCode_value kRouterShardNotFound = 402"

fun StatusCodeToString :: "StatusCode \<Rightarrow> string" where
  "StatusCodeToString kOk = ''OK''"
| "StatusCodeToString kUnknown = ''Unknown''"
| "StatusCodeToString kInvalidArgument = ''InvalidArgument''"
| "StatusCodeToString kDeadlineExceeded = ''DeadlineExceeded''"
| "StatusCodeToString kNotFound = ''NotFound''"
| "StatusCodeToString kAlreadyExists = ''AlreadyExists''"
| "StatusCodeToString kPermissionDenied = ''PermissionDenied''"
| "StatusCodeToString kResourceExhausted = ''ResourceExhausted''"
| "StatusCodeToString kFailedPrecondition = ''FailedPrecondition''"
| "StatusCodeToString kAborted = ''Aborted''"
| "StatusCodeToString kOutOfRange = ''OutOfRange''"
| "StatusCodeToString kUnimplemented = ''Unimplemented''"
| "StatusCodeToString kInternal = ''Internal''"
| "StatusCodeToString kUnavailable = ''Unavailable''"
| "StatusCodeToString kDataLoss = ''DataLoss''"
| "StatusCodeToString kUnauthenticated = ''Unauthenticated''"
| "StatusCodeToString kStorageIoError = ''StorageIoError''"
| "StatusCodeToString kStorageCorruption = ''StorageCorruption''"
| "StatusCodeToString kStorageFull = ''StorageFull''"
| "StatusCodeToString kStorageNotFound = ''StorageNotFound''"
| "StatusCodeToString kRaftNotLeader = ''RaftNotLeader''"
| "StatusCodeToString kRaftLogCompacted = ''RaftLogCompacted''"
| "StatusCodeToString kRaftElectionInProgress = ''RaftElectionInProgress''"
| "StatusCodeToString kRaftTimeout = ''RaftTimeout''"
| "StatusCodeToString kRaftInvalidTerm = ''RaftInvalidTerm''"
| "StatusCodeToString kVectorDimensionMismatch = ''VectorDimensionMismatch''"
| "StatusCodeToString kVectorNotFound = ''VectorNotFound''"
| "StatusCodeToString kVectorIndexFull = ''VectorIndexFull''"
| "StatusCodeToString kNetworkTimeout = ''NetworkTimeout''"
| "StatusCodeToString kNetworkUnavailable = ''NetworkUnavailable''"
| "StatusCodeToString kRouterShardNotFound = ''RouterShardNotFound''"

subsection \<open>Status\<close>

record Status =
  st_code :: StatusCode
  st_message :: string

definition mk_Status :: "StatusCode \<Rightarrow> string \<Rightarrow> Status" where
  "mk_Status c m = \<lparr>st_code = c, st_message = m\<rparr>"

definition Status_Ok :: Status where
  "Status_Ok = \<lparr>st_code = kOk, st_message = []\<rparr>"

definition Status_IsOk :: "Status \<Rightarrow> bool" where
  "Status_IsOk s \<longleftrightarrow> st_code s = kOk"

definition Status_ToString :: "Status \<Rightarrow> string" where
  "Status_ToString s =
     (if Status_IsOk s then ''OK'' else StatusCodeToString (st_code s) @ '': '' @ st_message s)"

lemma Status_IsOk_simps [simp]:
  "Status_IsOk Status_Ok"
  "Status_IsOk (mk_Status c m) \<longleftrightarrow> c = kOk"
  by (simp_all add: Status_IsOk_def Status_Ok_def mk_Status_def)

lemma mk_Status_sel [simp]: "st_code (mk_Status c m) = c" "st_message (mk_Status c m) = m"
  by (simp_all add: mk_Status_def)

lemma Status_Ok_neq_mk [simp]:
  "c \<noteq> kOk \<Longrightarrow> Status_Ok \<noteq> mk_Status c m"
  "c \<noteq> kOk \<Longrightarrow> mk_Status c m \<noteq> Status_Ok"
  by (simp_all add: Status_Ok_def mk_Status_def)

subsection \<open>ErrorOr\<close>

text \<open>The variant holds a value or a status. Building one from an OK status throws, and so
  does reading the value of one that holds a status: \<^const>\<open>None\<close>.\<close>

datatype 'a ErrorOr = Value 'a | Error Status

definition ErrorOr_of_Status :: "Status \<Rightarrow> 'a ErrorOr option" where
  "ErrorOr_of_Status s = (if Status_IsOk s then None else Some (Error s))"

fun ErrorOr_IsOk :: "'a ErrorOr \<Rightarrow> bool" where
  "ErrorOr_IsOk (Value _) = True"
| "ErrorOr_IsOk (Error _) = False"

definition ErrorOr_status :: "'a ErrorOr \<Rightarrow> Status" where
  "ErrorOr_status r = (case r of Value _ \<Rightarrow> Status_Ok | Error s \<Rightarrow> s)"

fun ErrorOr_value :: "'a ErrorOr \<Rightarrow> 'a option" where
  "ErrorOr_value (Value v) = Some v"
| "ErrorOr_value (Error _) = None"

text \<open>\<^verbatim>\<open>ASSIGN_OR_RETURN(lhs, rexpr)\<close> followed by the rest of the function body.\<close>

fun assign_or_return :: "'a ErrorOr \<Rightarrow> ('a \<Rightarrow> 'b ErrorOr) \<Rightarrow> 'b ErrorOr" where
  "assign_or_return (Value v) k = k v"
| "assign_or_return (Error s) k = Error s"

lemma assign_or_return_cong [fundef_cong]:
  "r = r' \<Longrightarrow> (\<And>v. r' = Value v \<Longrightarrow> k v = k' v) \<Longrightarrow> assign_or_return r k = assign_or_return r' k'"
  by (cases r') auto

lemma assign_or_return_Value_iff:
  "assign_or_return r k = Value w \<longleftrightarrow> (\<exists>v. r = Value v \<and> k v = Value w)"
  by (cases r) auto

lemma assign_or_return_Error_iff:
  "assign_or_return r k = Error s \<longleftrightarrow> r = Error s \<or> (\<exists>v. r = Value v \<and> k v = Error s)"
  by (cases r) auto

lemma assign_or_return_assoc:
  "assign_or_return (assign_or_return r k) l = assign_or_return r (\<lambda>v. assign_or_return (k v) l)"
  by (cases r) auto

lemma ErrorOr_IsOk_iff: "ErrorOr_IsOk r \<longleftrightarrow> (\<exists>v. r = Value v)"
  by (cases r) auto

text \<open>The class invariant of \<^verbatim>\<open>ErrorOr\<close>: the variant never holds an OK status.\<close>

definition ErrorOr_wf :: "'a ErrorOr \<Rightarrow> bool" where
  "ErrorOr_wf r \<longleftrightarrow> (case r of Value _ \<Rightarrow> True | Error s \<Rightarrow> \<not> Status_IsOk s)"

lemma ErrorOr_wf_simps [simp]:
  "ErrorOr_wf (Value v)"
  "ErrorOr_wf (Error s) \<longleftrightarrow> \<not> Status_IsOk s"
  by (simp_all add: ErrorOr_wf_def)

lemma ErrorOr_wf_constructed: "ErrorOr_of_Status s = Some r \<Longrightarrow> ErrorOr_wf r"
  by (auto simp: ErrorOr_of_Status_def split: if_splits)

lemma ErrorOr_wf_assign_or_return:
  "ErrorOr_wf r \<Longrightarrow> (\<And>v. r = Value v \<Longrightarrow> ErrorOr_wf (k v)) \<Longrightarrow> ErrorOr_wf (assign_or_return r k)"
  by (cases r) auto

lemma ErrorOr_status_IsOk: "ErrorOr_wf r \<Longrightarrow> Status_IsOk (ErrorOr_status r) \<longleftrightarrow> ErrorOr_IsOk r"
  by (cases r) (auto simp: ErrorOr_status_def)

lemma StatusCodeToString_inject: "StatusCodeToString c = StatusCodeToString d \<longleftrightarrow> c = d"
  by (cases c; cases d; simp)

end
