(* ===== verification/Binary_Serializer.thy ===== *)
theory Binary_Serializer
  imports Status
begin

text \<open>
  \<^verbatim>\<open>src/common/serialization/binary_serializer.{h,cpp}\<close>. A writer appends to a byte
  buffer; a reader takes the buffer and an offset and returns the value with the advanced
  offset. \<^verbatim>\<open>memcpy\<close> copies the native representation, which is little-endian on the
  supported targets. A \<^verbatim>\<open>float\<close> is only ever copied, so it is its 32-bit pattern.
\<close>

type_synonym float32 = u32

subsection \<open>Native representation of integers\<close>

text \<open>The \<open>n\<close> low bytes of a word, least significant first, and back.\<close>

fun le_bytes :: "nat \<Rightarrow> 'a::len word \<Rightarrow> bytes" where
  "le_bytes 0 w = []"
| "le_bytes (Suc n) w = ucast w # le_bytes n (drop_bit 8 w)"

fun le_word :: "bytes \<Rightarrow> 'a::len word" where
  "le_word [] = 0"
| "le_word (b # bs) = ucast b OR push_bit 8 (le_word bs)"

lemma length_le_bytes [simp]: "length (le_bytes n w) = n"
  by (induction n arbitrary: w) auto

lemma le_word_le_bytes: "le_word (le_bytes n w) = take_bit (8 * n) w"
proof (induction n arbitrary: w)
  case (Suc n)
  have "le_word (le_bytes (Suc n) w) = ucast (ucast w :: byte) OR push_bit 8 (take_bit (8 * n) (drop_bit 8 w))"
    by (simp add: Suc.IH)
  also have "\<dots> = take_bit (8 * Suc n) w"
    by (rule bit_word_eqI) (auto simp: bit_simps)
  finally show ?case .
qed simp

lemma le_word_le_bytes_32 [simp]: "le_word (le_bytes 4 w) = (w :: u32)"
  by (simp add: le_word_le_bytes take_bit_word_eq_self)

lemma le_word_le_bytes_64 [simp]: "le_word (le_bytes 8 w) = (w :: u64)"
  by (simp add: le_word_le_bytes take_bit_word_eq_self)

lemma le_bytes_le_word: "length bs = n \<Longrightarrow> 8 * n \<le> LENGTH('a) \<Longrightarrow> le_bytes n (le_word bs :: 'a::len word) = bs"
proof (induction bs arbitrary: n)
  case (Cons b bs)
  then obtain m where n: "n = Suc m" by (cases n) auto
  have low: "ucast (ucast b OR push_bit 8 (le_word bs) :: 'a word) = b"
    using Cons.prems n by (intro bit_word_eqI) (auto simp: bit_simps)
  have high: "drop_bit 8 (ucast b OR push_bit 8 (le_word bs) :: 'a word) = take_bit (LENGTH('a) - 8) (le_word bs)"
    by (intro bit_word_eqI) (auto simp: bit_simps dest: bit_imp_le_length)
  have cut: "le_bytes k (take_bit j w) = le_bytes k w" if "8 * k \<le> j" for k j and w :: "'a word"
    using that
  proof (induction k arbitrary: j w)
    case (Suc k)
    have "ucast (take_bit j w) = (ucast w :: byte)"
      using Suc.prems by (intro bit_word_eqI) (auto simp: bit_simps)
    moreover have "drop_bit 8 (take_bit j w) = take_bit (j - 8) (drop_bit 8 w)"
      using Suc.prems by (simp add: drop_bit_take_bit)
    ultimately show ?case using Suc.prems Suc.IH [of "j - 8" "drop_bit 8 w"] by simp
  qed simp
  have "le_bytes n (le_word (b # bs) :: 'a word) = b # le_bytes m (take_bit (LENGTH('a) - 8) (le_word bs :: 'a word))"
    by (simp only: n le_bytes.simps le_word.simps low high)
  with Cons n show ?case by (simp add: cut)
qed simp

subsection \<open>Writers\<close>

definition WriteUint32 :: "bytes \<Rightarrow> u32 \<Rightarrow> bytes" where
  "WriteUint32 buffer v = buffer @ le_bytes 4 v"

definition WriteUint64 :: "bytes \<Rightarrow> u64 \<Rightarrow> bytes" where
  "WriteUint64 buffer v = buffer @ le_bytes 8 v"

definition WriteFloat :: "bytes \<Rightarrow> float32 \<Rightarrow> bytes" where
  "WriteFloat buffer v = buffer @ le_bytes 4 v"

definition WriteString :: "bytes \<Rightarrow> string \<Rightarrow> bytes" where
  "WriteString buffer s = WriteUint32 buffer (to_u32 (length s)) @ string_bytes s"

definition WriteFloatVector :: "bytes \<Rightarrow> float32 list \<Rightarrow> bytes" where
  "WriteFloatVector buffer v =
     WriteUint32 buffer (to_u32 (length v)) @ concat (map (le_bytes 4) v)"

subsection \<open>Readers\<close>

text \<open>\<^verbatim>\<open>CHECK_BOUNDS\<close>. The sum cannot wrap: an offset never exceeds the size of a vector
  in memory and the largest request is \<open>2^34\<close> bytes.\<close>

definition overflow_status :: Status where
  "overflow_status =
     mk_Status kStorageCorruption ''BinarySerializer: Buffer overflow/underflow detected''"

definition CHECK_BOUNDS :: "bytes \<Rightarrow> nat \<Rightarrow> nat \<Rightarrow> 'a ErrorOr \<Rightarrow> 'a ErrorOr" where
  "CHECK_BOUNDS buffer offset required rest =
     (if offset + required > length buffer then Error overflow_status else rest)"

definition ReadUint32 :: "bytes \<Rightarrow> nat \<Rightarrow> (u32 \<times> nat) ErrorOr" where
  "ReadUint32 buffer offset =
     CHECK_BOUNDS buffer offset 4 (Value (le_word (take 4 (drop offset buffer)), offset + 4))"

definition ReadUint64 :: "bytes \<Rightarrow> nat \<Rightarrow> (u64 \<times> nat) ErrorOr" where
  "ReadUint64 buffer offset =
     CHECK_BOUNDS buffer offset 8 (Value (le_word (take 8 (drop offset buffer)), offset + 8))"

definition ReadFloat :: "bytes \<Rightarrow> nat \<Rightarrow> (float32 \<times> nat) ErrorOr" where
  "ReadFloat buffer offset =
     CHECK_BOUNDS buffer offset 4 (Value (le_word (take 4 (drop offset buffer)), offset + 4))"

definition ReadString :: "bytes \<Rightarrow> nat \<Rightarrow> (string \<times> nat) ErrorOr" where
  "ReadString buffer offset =
     assign_or_return (ReadUint32 buffer offset) (\<lambda>(len, offset).
       CHECK_BOUNDS buffer offset (unat len)
         (Value (bytes_string (take (unat len) (drop offset buffer)), offset + unat len)))"

text \<open>\<^verbatim>\<open>memcpy\<close> into a vector of \<open>n\<close> floats.\<close>

fun floats_of :: "nat \<Rightarrow> bytes \<Rightarrow> float32 list" where
  "floats_of 0 bs = []"
| "floats_of (Suc n) bs = le_word (take 4 bs) # floats_of n (drop 4 bs)"

definition ReadFloatVector :: "bytes \<Rightarrow> nat \<Rightarrow> (float32 list \<times> nat) ErrorOr" where
  "ReadFloatVector buffer offset =
     assign_or_return (ReadUint32 buffer offset) (\<lambda>(len, offset).
       let bytes = unat len * 4 in
       CHECK_BOUNDS buffer offset bytes
         (Value (floats_of (unat len) (drop offset buffer), offset + bytes)))"

subsection \<open>What a writer appends, a reader returns\<close>

text \<open>Every rule is stated for a value in the middle of a buffer, so that the decoders of the
  storage formats are rewritten field by field: \<open>codec_simps\<close>.\<close>

lemma CHECK_BOUNDS_ok [codec_simps]:
  "offset + required \<le> length buffer \<Longrightarrow> CHECK_BOUNDS buffer offset required r = r"
  by (simp add: CHECK_BOUNDS_def)

lemma CHECK_BOUNDS_fail:
  "offset + required > length buffer \<Longrightarrow> CHECK_BOUNDS buffer offset required r = Error overflow_status"
  by (simp add: CHECK_BOUNDS_def)

lemma ReadUint32_middle:
  "offset = length pre \<Longrightarrow> ReadUint32 (pre @ le_bytes 4 v @ post) offset = Value (v, offset + 4)"
  by (simp add: ReadUint32_def CHECK_BOUNDS_def)

lemma ReadUint64_middle:
  "offset = length pre \<Longrightarrow> ReadUint64 (pre @ le_bytes 8 v @ post) offset = Value (v, offset + 8)"
  by (simp add: ReadUint64_def CHECK_BOUNDS_def)

lemma ReadFloat_middle:
  "offset = length pre \<Longrightarrow> ReadFloat (pre @ le_bytes 4 v @ post) offset = Value (v, offset + 4)"
  by (simp add: ReadFloat_def CHECK_BOUNDS_def)

lemma ReadString_middle:
  assumes "offset = length pre" and "length s < 2 ^ 32"
  shows "ReadString (pre @ le_bytes 4 (to_u32 (length s)) @ string_bytes s @ post) offset
       = Value (s, offset + 4 + length s)"
  using assms ReadUint32_middle [of offset pre "to_u32 (length s)" "string_bytes s @ post"]
  by (simp add: ReadString_def CHECK_BOUNDS_def)

lemma floats_of_concat:
  "floats_of (length v) (concat (map (le_bytes 4) v) @ post) = v"
  by (induction v) auto

lemma ReadFloatVector_middle:
  assumes "offset = length pre" and "length v < 2 ^ 32"
  shows "ReadFloatVector (pre @ le_bytes 4 (to_u32 (length v)) @ concat (map (le_bytes 4) v) @ post) offset
       = Value (v, offset + 4 + 4 * length v)"
proof -
  have len: "length (concat (map (le_bytes 4) v)) = 4 * length v"
    by (induction v) auto
  show ?thesis
    using assms ReadUint32_middle [of offset pre "to_u32 (length v)" "concat (map (le_bytes 4) v) @ post"]
    by (simp add: ReadFloatVector_def CHECK_BOUNDS_def len floats_of_concat)
qed

text \<open>No reader looks past the buffer: what it returns ends inside it.\<close>

lemma ReadUint32_bounds: "ReadUint32 buffer offset = Value (v, o') \<Longrightarrow> o' = offset + 4 \<and> o' \<le> length buffer"
  by (auto simp: ReadUint32_def CHECK_BOUNDS_def split: if_splits)

lemma ReadUint64_bounds: "ReadUint64 buffer offset = Value (v, o') \<Longrightarrow> o' = offset + 8 \<and> o' \<le> length buffer"
  by (auto simp: ReadUint64_def CHECK_BOUNDS_def split: if_splits)

lemma ReadString_bounds:
  "ReadString buffer offset = Value (s, o') \<Longrightarrow> o' = offset + 4 + length s \<and> o' \<le> length buffer"
  by (auto simp: ReadString_def CHECK_BOUNDS_def assign_or_return_Value_iff split: if_splits
      dest!: ReadUint32_bounds)

subsection \<open>The interface of a field format\<close>

text \<open>
  The storage formats (block entries, index entries, catalogue entries) are sequences of items
  behind a count, and every reader of such a sequence is the same loop: read one item, advance
  the offset, stop at the first error. \<open>read_items\<close> is that loop. An item format is the
  pair of an encoder and a decoder with one law; what follows from it for sequences is proved
  once.
\<close>

fun read_items :: "(bytes \<Rightarrow> nat \<Rightarrow> ('a \<times> nat) ErrorOr) \<Rightarrow> nat \<Rightarrow> bytes \<Rightarrow> nat
    \<Rightarrow> ('a list \<times> nat) ErrorOr" where
  "read_items dec 0 buffer offset = Value ([], offset)"
| "read_items dec (Suc n) buffer offset =
     assign_or_return (dec buffer offset) (\<lambda>(a, offset).
       assign_or_return (read_items dec n buffer offset) (\<lambda>(as, offset). Value (a # as, offset)))"

locale field_codec =
  fixes enc :: "'a \<Rightarrow> bytes"
    and dec :: "bytes \<Rightarrow> nat \<Rightarrow> ('a \<times> nat) ErrorOr"
    and ok :: "'a \<Rightarrow> bool"
  assumes dec_enc: "ok a \<Longrightarrow> offset = length pre \<Longrightarrow>
      dec (pre @ enc a @ post) offset = Value (a, offset + length (enc a))"
begin

lemma read_items_enc:
  assumes "\<forall>a \<in> set as. ok a" and "offset = length pre"
  shows "read_items dec (length as) (pre @ concat (map enc as) @ post) offset
       = Value (as, offset + length (concat (map enc as)))"
  using assms
proof (induction as arbitrary: pre offset)
  case (Cons a as)
  have step: "dec (pre @ enc a @ concat (map enc as) @ post) offset = Value (a, offset + length (enc a))"
    using Cons.prems by (intro dec_enc) simp_all
  have "read_items dec (length as) ((pre @ enc a) @ concat (map enc as) @ post) (offset + length (enc a))
      = Value (as, offset + length (enc a) + length (concat (map enc as)))"
    using Cons.prems by (intro Cons.IH) simp_all
  with step show ?case by simp
qed simp

lemma dec_enc_only: "ok a \<Longrightarrow> dec (enc a) 0 = Value (a, length (enc a))"
  using dec_enc [of a 0 "[]" "[]"] by simp

lemma enc_inject:
  assumes "ok a" "ok b" "enc a = enc b"
  shows "a = b"
proof -
  have "Value (a, length (enc a)) = Value (b, length (enc b))"
    unfolding dec_enc_only [OF assms(1), symmetric] dec_enc_only [OF assms(2), symmetric]
    by (simp add: assms(3))
  then show ?thesis by simp
qed

end

interpretation uint32: field_codec "le_bytes 4" ReadUint32 "\<lambda>_. True"
  by unfold_locales (simp add: ReadUint32_middle)

interpretation uint64: field_codec "le_bytes 8" ReadUint64 "\<lambda>_. True"
  by unfold_locales (simp add: ReadUint64_middle)

definition string_field :: "string \<Rightarrow> bytes" where
  "string_field s = le_bytes 4 (to_u32 (length s)) @ string_bytes s"

lemma length_string_field [simp]: "length (string_field s) = 4 + length s"
  by (simp add: string_field_def)

interpretation lpstring: field_codec string_field ReadString "\<lambda>s. length s < 2 ^ 32"
  by unfold_locales (simp add: string_field_def ReadString_middle)

lemma Write_fields:
  "WriteUint32 buffer v = buffer @ le_bytes 4 v"
  "WriteUint64 buffer w = buffer @ le_bytes 8 w"
  "WriteString buffer s = buffer @ string_field s"
  by (simp_all add: WriteUint32_def WriteUint64_def WriteString_def string_field_def)

lemma length_read_items: "read_items dec n buffer offset = Value (as, o') \<Longrightarrow> length as = n"
proof (induction n arbitrary: offset as o')
  case (Suc n)
  then obtain a off1 as' where "read_items dec n buffer off1 = Value (as', o')" and "as = a # as'"
    by (auto simp: assign_or_return_Value_iff)
  with Suc.IH show ?case by auto
qed simp

text \<open>
  A reader that succeeds on the first \<open>n\<close> bytes of a buffer reads the same from the whole buffer and stops
  inside these bytes: a cut buffer is never taken for a different complete one. The law passes from the
  fields to sequences of items.
\<close>

locale prefix_reader =
  fixes dec :: "bytes \<Rightarrow> nat \<Rightarrow> ('a \<times> nat) ErrorOr"
  assumes dec_take: "dec (take n buffer) offset = Value (a, o') \<Longrightarrow> offset \<le> n \<Longrightarrow>
      dec buffer offset = Value (a, o') \<and> o' \<le> n"
begin

lemma read_items_take:
  "read_items dec m (take n buffer) offset = Value (as, o') \<Longrightarrow> offset \<le> n \<Longrightarrow>
   read_items dec m buffer offset = Value (as, o') \<and> o' \<le> n"
proof (induction m arbitrary: offset as)
  case (Suc m)
  from Suc.prems(1) obtain a off1 as' where "dec (take n buffer) offset = Value (a, off1)"
    and rest: "read_items dec m (take n buffer) off1 = Value (as', o')" and as: "as = a # as'"
    by (auto simp: assign_or_return_Value_iff)
  then have first: "dec buffer offset = Value (a, off1)" "off1 \<le> n" using dec_take Suc.prems(2) by blast+
  from Suc.IH [OF rest first(2)] show ?case by (simp add: first(1) as)
qed simp

end

lemma ReadUint_take:
  "ReadUint32 (take n buffer) offset = Value (a, o') \<Longrightarrow> ReadUint32 buffer offset = Value (a, o') \<and> o' \<le> n"
  "ReadUint64 (take n buffer) offset = Value (b, o') \<Longrightarrow> ReadUint64 buffer offset = Value (b, o') \<and> o' \<le> n"
  by (auto simp: ReadUint32_def ReadUint64_def CHECK_BOUNDS_def drop_take min_def split: if_splits)

lemma ReadString_take:
  assumes "ReadString (take n buffer) offset = Value (s, o')"
  shows "ReadString buffer offset = Value (s, o') \<and> o' \<le> n"
proof -
  obtain len off1 where len: "ReadUint32 (take n buffer) offset = Value (len, off1)"
    and rest: "CHECK_BOUNDS (take n buffer) off1 (unat len)
      (Value (bytes_string (take (unat len) (drop off1 (take n buffer))), off1 + unat len)) = Value (s, o')"
    using assms by (auto simp: ReadString_def assign_or_return_Value_iff)
  have "ReadUint32 buffer offset = Value (len, off1)" using ReadUint_take(1) [OF len] by simp
  moreover have "off1 + unat len \<le> n" "off1 + unat len \<le> length buffer" "o' = off1 + unat len"
    "s = bytes_string (take (unat len) (drop off1 buffer))"
    using rest by (auto simp: CHECK_BOUNDS_def drop_take min_def split: if_splits)
  ultimately show ?thesis by (simp add: ReadString_def CHECK_BOUNDS_def)
qed

interpretation uint32_prefix: prefix_reader ReadUint32
  by unfold_locales (rule ReadUint_take)

interpretation uint64_prefix: prefix_reader ReadUint64
  by unfold_locales (rule ReadUint_take)

interpretation lpstring_prefix: prefix_reader ReadString
  by unfold_locales (rule ReadString_take)

end
