(* ===== verification/Files.thy ===== *)
theory Files
  imports Status
begin

text \<open>
  What the storage code uses of \<^verbatim>\<open><fstream>\<close> and \<^verbatim>\<open><filesystem>\<close>: files are byte
  sequences by path, an output stream buffers what is written until its buffer is full or it is
  flushed, and the environment decides which files can be opened and how large a file may grow.
  An operation takes the environment \<^typ>\<open>bool\<close>-valued permissions and the disk limit as an
  argument of type \<open>io\<close>, so every theorem speaks about every environment and a sequence of
  operations may meet a different one each time. Directories, allocation failure and exceptions
  thrown by \<^verbatim>\<open>std::filesystem\<close> are not modelled.
\<close>

type_synonym path = string
type_synonym fs = "path \<rightharpoonup> bytes"

record io =
  can_open :: "path \<Rightarrow> bool"
  can_create :: "path \<Rightarrow> bool"
  can_rename :: "path \<Rightarrow> path \<Rightarrow> bool"
  disk_limit :: "path \<Rightarrow> nat option"
  buffer_size :: nat

text \<open>The environment in which nothing fails.\<close>

definition io_fine :: "io \<Rightarrow> bool" where
  "io_fine io \<longleftrightarrow> (\<forall>p. can_open io p) \<and> (\<forall>p. can_create io p) \<and> (\<forall>p q. can_rename io p q)
     \<and> (\<forall>p. disk_limit io p = None)"

definition io_ideal :: io where
  "io_ideal = \<lparr>can_open = (\<lambda>_. True), can_create = (\<lambda>_. True), can_rename = (\<lambda>_ _. True),
     disk_limit = (\<lambda>_. None), buffer_size = 8191\<rparr>"

lemma io_fine_ideal [simp]: "io_fine io_ideal"
  by (simp add: io_fine_def io_ideal_def)

lemma io_fineD [simp]:
  assumes "io_fine io"
  shows "can_open io p" "can_create io p" "can_rename io p q" "disk_limit io p = None"
  using assms by (simp_all add: io_fine_def)

definition file_exists :: "fs \<Rightarrow> path \<Rightarrow> bool" where
  "file_exists fs p \<longleftrightarrow> fs p \<noteq> None"

definition content :: "fs \<Rightarrow> path \<Rightarrow> bytes" where
  "content fs p = (case fs p of None \<Rightarrow> [] | Some bs \<Rightarrow> bs)"

lemma content_simps [simp]:
  "content (fs(p \<mapsto> bs)) p = bs"
  "p \<noteq> q \<Longrightarrow> content (fs(p \<mapsto> bs)) q = content fs q"
  "p \<noteq> q \<Longrightarrow> content (fs(p := x)) q = content fs q"
  "fs p = Some bs \<Longrightarrow> content fs p = bs"
  by (simp_all add: content_def)

text \<open>\<^verbatim>\<open>std::ifstream(path)\<close>: the bytes the stream will deliver, when it opens.\<close>

definition open_read :: "io \<Rightarrow> fs \<Rightarrow> path \<Rightarrow> bytes option" where
  "open_read io fs p = (if can_open io p then fs p else None)"

lemma open_read_fine [simp]: "io_fine io \<Longrightarrow> open_read io fs p = fs p"
  by (simp add: open_read_def)

subsection \<open>Output streams\<close>

record ofstream =
  os_path :: path
  os_buf :: bytes
  os_good :: bool

text \<open>\<^verbatim>\<open>std::ofstream(path, app)\<close> creates a missing file and keeps an existing one;
  \<^verbatim>\<open>trunc\<close> empties it. \<^const>\<open>None\<close>: the stream is not open.\<close>

definition open_app :: "io \<Rightarrow> fs \<Rightarrow> path \<Rightarrow> (fs \<times> ofstream) option" where
  "open_app io fs p =
     (if can_create io p
      then Some (fs(p \<mapsto> content fs p), \<lparr>os_path = p, os_buf = [], os_good = True\<rparr>)
      else None)"

definition open_trunc :: "io \<Rightarrow> fs \<Rightarrow> path \<Rightarrow> (fs \<times> ofstream) option" where
  "open_trunc io fs p =
     (if can_create io p
      then Some (fs(p \<mapsto> []), \<lparr>os_path = p, os_buf = [], os_good = True\<rparr>)
      else None)"

text \<open>How many of \<open>n\<close> bytes offered at file size \<open>len\<close> reach the disk.\<close>

definition accepted :: "io \<Rightarrow> path \<Rightarrow> nat \<Rightarrow> nat \<Rightarrow> nat" where
  "accepted io p len n = (case disk_limit io p of None \<Rightarrow> n | Some m \<Rightarrow> min n (m - len))"

text \<open>Hand the buffered bytes to the disk. A short write leaves the accepted prefix in the file
  and the stream bad.\<close>

definition os_push :: "io \<Rightarrow> fs \<Rightarrow> ofstream \<Rightarrow> fs \<times> ofstream" where
  "os_push io fs os =
     (let p = os_path os; old = content fs p;
          n = accepted io p (length old) (length (os_buf os))
      in (fs(p \<mapsto> old @ take n (os_buf os)),
          os\<lparr>os_buf := [], os_good := (n = length (os_buf os))\<rparr>))"

text \<open>\<^verbatim>\<open>ostream::write\<close>, \<^verbatim>\<open>flush\<close> and \<^verbatim>\<open>close\<close>. On a bad stream they do nothing.\<close>

definition os_write :: "io \<Rightarrow> fs \<Rightarrow> ofstream \<Rightarrow> bytes \<Rightarrow> fs \<times> ofstream" where
  "os_write io fs os bs =
     (if \<not> os_good os then (fs, os)
      else let os' = os\<lparr>os_buf := os_buf os @ bs\<rparr> in
           if length (os_buf os') < buffer_size io then (fs, os') else os_push io fs os')"

definition os_flush :: "io \<Rightarrow> fs \<Rightarrow> ofstream \<Rightarrow> fs \<times> ofstream" where
  "os_flush io fs os = (if \<not> os_good os then (fs, os) else os_push io fs os)"

lemma accepted_le: "accepted io p len n \<le> n"
  by (simp add: accepted_def split: option.split)

lemma accepted_unlimited [simp]: "disk_limit io p = None \<Longrightarrow> accepted io p len n = n"
  by (simp add: accepted_def)

text \<open>What a stream still owes the file, and the file as it will be once it is paid.\<close>

definition os_view :: "fs \<Rightarrow> ofstream \<Rightarrow> bytes" where
  "os_view fs os = content fs (os_path os) @ os_buf os"

lemma os_path_push [simp]: "os_path (snd (os_push io fs os)) = os_path os"
  by (simp add: os_push_def Let_def)

lemma os_path_write [simp]: "os_path (snd (os_write io fs os bs)) = os_path os"
  by (simp add: os_write_def Let_def)

lemma os_path_flush [simp]: "os_path (snd (os_flush io fs os)) = os_path os"
  by (simp add: os_flush_def)

lemma os_push_other: "p \<noteq> os_path os \<Longrightarrow> fst (os_push io fs os) p = fs p"
  by (simp add: os_push_def Let_def)

lemma os_write_other: "p \<noteq> os_path os \<Longrightarrow> fst (os_write io fs os bs) p = fs p"
  by (simp add: os_write_def Let_def os_push_other)

lemma os_flush_other: "p \<noteq> os_path os \<Longrightarrow> fst (os_flush io fs os) p = fs p"
  by (simp add: os_flush_def os_push_other)

lemma os_push_fine:
  "disk_limit io (os_path os) = None \<Longrightarrow>
   os_push io fs os = (fs(os_path os \<mapsto> os_view fs os), os\<lparr>os_buf := [], os_good := True\<rparr>)"
  by (simp add: os_push_def Let_def os_view_def)

lemma os_flush_fine:
  "disk_limit io (os_path os) = None \<Longrightarrow> os_good os \<Longrightarrow>
   os_flush io fs os = (fs(os_path os \<mapsto> os_view fs os), os\<lparr>os_buf := [], os_good := True\<rparr>)"
  by (simp add: os_flush_def os_push_fine)

lemma os_write_fine:
  assumes "disk_limit io (os_path os) = None" and "os_good os"
  shows "os_good (snd (os_write io fs os bs))"
    and "os_view (fst (os_write io fs os bs)) (snd (os_write io fs os bs)) = os_view fs os @ bs"
  using assms by (simp_all add: os_write_def Let_def os_push_fine os_view_def)

text \<open>Whatever the disk does, the file grows by a prefix of the bytes offered.\<close>

lemma os_push_prefix:
  "\<exists>n \<le> length (os_buf os). content (fst (os_push io fs os)) (os_path os)
     = content fs (os_path os) @ take n (os_buf os)
   \<and> (os_good (snd (os_push io fs os)) \<longleftrightarrow> n = length (os_buf os))"
  by (rule exI [of _ "accepted io (os_path os) (length (content fs (os_path os))) (length (os_buf os))"])
     (simp add: os_push_def Let_def accepted_le)

subsection \<open>Power loss\<close>

text \<open>
  A flush hands the bytes to the operating system; only a sync forces them to the disk. A \<open>disk\<close> is a file
  system with the paths of the files whose bytes were never synced. The death of the process keeps the
  file system. A power loss keeps the directory and the synced files, and of every other file some
  beginning.
\<close>

type_synonym disk = "fs \<times> path list"

definition power_loss :: "disk \<Rightarrow> fs \<Rightarrow> bool" where
  "power_loss = (\<lambda>(fs, unsynced) fs'.
     \<forall>p. if p \<in> set unsynced then \<exists>n. fs' p = map_option (take n) (fs p) else fs' p = fs p)"

text \<open>A renamed file brings the state of its bytes along.\<close>

definition rename_unsynced :: "path \<Rightarrow> path \<Rightarrow> path list \<Rightarrow> path list" where
  "rename_unsynced src dst unsynced =
     (if src \<in> set unsynced then dst # removeAll src unsynced else removeAll dst unsynced)"

lemma power_lossD:
  assumes "power_loss (fs, unsynced) fs'"
  shows "\<exists>n. fs' p = map_option (take n) (fs p) \<and> (p \<notin> set unsynced \<longrightarrow> fs' p = fs p)"
proof (cases "p \<in> set unsynced")
  case True then show ?thesis using assms by (auto simp: power_loss_def)
next
  case False
  then have "fs' p = fs p" using assms by (auto simp: power_loss_def)
  then show ?thesis by (intro exI [of _ "length (content fs p)"]) (cases "fs p"; simp add: content_def)
qed

lemma power_loss_cut:
  assumes "p \<in> set unsynced" "fs p = Some bs"
  shows "power_loss (fs, unsynced) (fs(p \<mapsto> take n bs))"
proof -
  have "\<exists>m. fs q = map_option (take m) (fs q)" for q
    by (cases "fs q") (auto intro: exI [of _ "length (content fs q)"] simp: content_def)
  then show ?thesis using assms by (auto simp: power_loss_def)
qed

end
