(* ===== verification/Crc32.thy ===== *)
theory Crc32
  imports Prelude
begin

text \<open>
  The checksum of \<^verbatim>\<open>src/storage/wal/wal.cpp\<close> (lines 26 to 50): the lookup table that
  \<^verbatim>\<open>InitCRC32Table\<close> fills and the byte-wise loop of \<^verbatim>\<open>ComputeCRC32\<close>. The table is
  a constant here: every entry is written before the first lookup.

  The lemmas give the bit-serial definition of the checksum as a reference, show that the table
  loop computes it, and that a change of a single byte always changes the checksum.
\<close>

definition crc32_bit :: "u32 \<Rightarrow> u32" where
  "crc32_bit crc = drop_bit 1 crc XOR (if crc AND 1 \<noteq> 0 then 0xEDB88320 else 0)"

definition crc32_table :: "u32 list" where
  "crc32_table = map (\<lambda>i. (crc32_bit ^^ 8) (word_of_nat i)) [0..<256]"

definition crc32_update :: "u32 \<Rightarrow> byte \<Rightarrow> u32" where
  "crc32_update crc b = drop_bit 8 crc XOR crc32_table ! unat ((crc XOR ucast b) AND 0xFF)"

definition ComputeCRC32 :: "bytes \<Rightarrow> u32" where
  "ComputeCRC32 data = foldl crc32_update 0xFFFFFFFF data XOR 0xFFFFFFFF"

subsection \<open>Reference: the bit-serial checksum\<close>

definition crc32_serial :: "bytes \<Rightarrow> u32" where
  "crc32_serial data =
     foldl (\<lambda>crc b. (crc32_bit ^^ 8) (crc XOR ucast b)) 0xFFFFFFFF data XOR 0xFFFFFFFF"

lemma and_one_neq_zero_iff: "(w :: u32) AND 1 \<noteq> 0 \<longleftrightarrow> bit w 0"
  by (simp add: and_one_eq bit_0 odd_iff_mod_2_eq_one)

lemma crc32_bit_xor: "crc32_bit (x XOR y) = crc32_bit x XOR crc32_bit y"
  unfolding crc32_bit_def and_one_neq_zero_iff
  by (rule bit_word_eqI) (auto simp: bit_simps)

lemma crc32_bits_xor: "(crc32_bit ^^ n) (x XOR y) = (crc32_bit ^^ n) x XOR (crc32_bit ^^ n) y"
  by (induction n) (simp_all add: crc32_bit_xor)

lemma crc32_bits_high: "(crc32_bit ^^ n) (push_bit n x) = take_bit (32 - n) x" if "n \<le> 32"
  using that
proof (induction n arbitrary: x)
  case 0
  then show ?case by (simp add: take_bit_word_eq_self)
next
  case (Suc n)
  have "\<not> bit (push_bit (Suc n) x) 0"
    by (simp only: bit_push_bit_iff) simp
  moreover have "drop_bit 1 (push_bit (Suc n) x) = push_bit n (take_bit (31 - n) x)"
    using Suc.prems by (intro bit_word_eqI) (auto simp: bit_simps simp del: push_bit_Suc)
  ultimately have "crc32_bit (push_bit (Suc n) x) = push_bit n (take_bit (31 - n) x)"
    unfolding crc32_bit_def and_one_neq_zero_iff by simp
  with Suc.prems show ?case
    by (simp add: funpow_Suc_right Suc.IH del: funpow.simps push_bit_Suc)
qed

text \<open>One table step is eight bit-serial steps.\<close>

lemma crc32_update_serial: "crc32_update crc b = (crc32_bit ^^ 8) (crc XOR ucast b)"
proof -
  let ?x = "crc XOR ucast b"
  have split: "?x = push_bit 8 (drop_bit 8 crc) XOR (?x AND 0xFF)"
  proof (rule bit_word_eqI)
    fix n assume "n < LENGTH(32)"
    have mask: "(0xFF :: u32) = mask 8" by (simp add: mask_eq_exp_minus_1)
    show "bit ?x n = bit (push_bit 8 (drop_bit 8 crc) XOR (?x AND 0xFF)) n"
      unfolding mask using \<open>n < LENGTH(32)\<close> bit_imp_le_length [of b n] by (auto simp: bit_simps)
  qed
  have low: "unat (?x AND 0xFF) < 256"
  proof -
    have "?x AND 0xFF \<le> 0xFF" by (rule word_and_le1)
    then show ?thesis by (simp add: word_le_nat_alt)
  qed
  have "(crc32_bit ^^ 8) ?x = (crc32_bit ^^ 8) (push_bit 8 (drop_bit 8 crc)) XOR (crc32_bit ^^ 8) (?x AND 0xFF)"
    by (subst split) (rule crc32_bits_xor)
  also have "(crc32_bit ^^ 8) (push_bit 8 (drop_bit 8 crc)) = drop_bit 8 crc"
    by (simp add: crc32_bits_high take_bit_drop_bit take_bit_word_eq_self)
  also have "(crc32_bit ^^ 8) (?x AND 0xFF) = crc32_table ! unat (?x AND 0xFF)"
    using low by (simp add: crc32_table_def)
  finally show ?thesis by (simp add: crc32_update_def)
qed

text \<open>Rules that evaluate the checksum of a concrete byte list.\<close>

lemma crc32_update_unrolled:
  "crc32_update crc b = crc32_bit (crc32_bit (crc32_bit (crc32_bit
     (crc32_bit (crc32_bit (crc32_bit (crc32_bit (crc XOR ucast b))))))))"
  by (simp add: crc32_update_serial numeral_eq_Suc)

lemmas crc32_eval = ComputeCRC32_def crc32_update_unrolled crc32_bit_def

text \<open>The check value of the IEEE CRC-32: the checksum of the ASCII digits 1 to 9.\<close>

lemma ComputeCRC32_check_value: "ComputeCRC32 (string_bytes ''123456789'') = 0xCBF43926"
  by (simp add: string_bytes_def crc32_eval)

lemma ComputeCRC32_serial: "ComputeCRC32 data = crc32_serial data"
  by (simp add: ComputeCRC32_def crc32_serial_def crc32_update_serial [abs_def])

subsection \<open>Error detection\<close>

lemma xor_left_cancel: "(z XOR x = z XOR y) = (x = (y :: 'a::len word))"
  by (metis xor.assoc xor_self_eq xor.left_neutral)

lemma xor_right_cancel: "(x XOR z = y XOR z) = (x = (y :: 'a::len word))"
  by (metis xor.assoc xor_self_eq xor.right_neutral)

text \<open>The register step loses nothing: the top bit of the result tells whether the polynomial
  was added.\<close>

lemma crc32_bit_inject: "crc32_bit x = crc32_bit y \<longleftrightarrow> x = y"
proof
  assume eq: "crc32_bit x = crc32_bit y"
  have top: "bit (crc32_bit w) 31 = bit w 0" for w
    unfolding crc32_bit_def and_one_neq_zero_iff
    using bit_imp_le_length [of w 32] by (auto simp: bit_simps)
  from eq top [of x] top [of y] have b0: "bit x 0 = bit y 0" by simp
  with eq have "drop_bit 1 x = drop_bit 1 y"
    unfolding crc32_bit_def and_one_neq_zero_iff by (simp only: xor_right_cancel)
  then have "bit (drop_bit 1 x) n = bit (drop_bit 1 y) n" for n
    by simp
  then have "bit x (Suc n) = bit y (Suc n)" for n
    by (simp add: bit_simps)
  with b0 have "bit x n = bit y n" for n
    by (cases n) auto
  then show "x = y" by (intro bit_word_eqI) simp
qed simp

lemma crc32_bits_inject: "(crc32_bit ^^ n) x = (crc32_bit ^^ n) y \<longleftrightarrow> x = y"
  by (induction n) (simp_all add: crc32_bit_inject)

lemma crc32_update_inject_crc: "crc32_update c b = crc32_update d b \<longleftrightarrow> c = d"
  by (simp add: crc32_update_serial crc32_bits_inject xor_right_cancel)

lemma ucast_byte_inject:
  assumes "8 \<le> LENGTH('a :: len)"
  shows "(ucast a :: 'a word) = ucast b \<longleftrightarrow> a = (b :: byte)"
proof
  assume eq: "(ucast a :: 'a word) = ucast b"
  have "bit a n = bit b n" if "n < 8" for n
    using arg_cong [OF eq, of "\<lambda>w. bit w n"] that assms by (simp add: bit_simps)
  then show "a = b" by (intro bit_word_eqI) simp
qed simp

lemma crc32_update_inject_byte: "crc32_update c a = crc32_update c b \<longleftrightarrow> a = b"
  by (simp add: crc32_update_serial crc32_bits_inject xor_left_cancel ucast_byte_inject)

lemma foldl_crc32_inject: "foldl crc32_update c bs = foldl crc32_update d bs \<longleftrightarrow> c = d"
  by (induction bs arbitrary: c d) (simp_all add: crc32_update_inject_crc)

lemma ComputeCRC32_single_byte:
  "ComputeCRC32 (pre @ a # post) = ComputeCRC32 (pre @ b # post) \<longleftrightarrow> a = b"
  by (simp add: ComputeCRC32_def xor_right_cancel foldl_crc32_inject crc32_update_inject_byte)

end
