(* ===== verification/Wal.thy ===== *)
theory Wal
  imports Binary_Serializer Files Crc32
begin

text \<open>
  The write-ahead log, \<^verbatim>\<open>src/storage/wal\<close>. A record is a payload length, the CRC-32 of
  the payload and the payload. \<^verbatim>\<open>Open\<close> scans an existing file for the next sequence
  number, \<^verbatim>\<open>Append\<close> stamps, writes and flushes one entry, \<^verbatim>\<open>ReadAll\<close> returns the
  entries up to the first record that is cut off, fails its checksum or does not parse.
\<close>

subsection \<open>Entries\<close>

text \<open>\<^verbatim>\<open>WALEntryType\<close> has \<^verbatim>\<open>uint8_t\<close> as its underlying type and is read by a cast,
  so every byte is a value of it.\<close>

definition kPut :: byte where "kPut = 0x01"
definition kDelete :: byte where "kDelete = 0x02"

record WALEntry =
  we_seq :: u64
  we_type :: byte
  we_key :: string
  we_value :: bytes

definition kWALHeaderSize :: nat where "kWALHeaderSize = 8"

definition PayloadSize :: "WALEntry \<Rightarrow> nat" where
  "PayloadSize e = 1 + 8 + 4 + length (we_key e)
     + (if we_type e = kPut then 4 + length (we_value e) else 0)"

definition WriteRawBytes :: "bytes \<Rightarrow> bytes \<Rightarrow> bytes" where
  "WriteRawBytes buf data = buf @ data"

definition SerializePayload :: "WALEntry \<Rightarrow> bytes" where
  "SerializePayload e =
     (let payload = [we_type e];
          payload = WriteUint64 payload (we_seq e);
          payload = WriteUint32 payload (to_u32 (length (we_key e)));
          payload = WriteRawBytes payload (string_bytes (we_key e))
      in if we_type e = kPut
         then WriteRawBytes (WriteUint32 payload (to_u32 (length (we_value e)))) (we_value e)
         else payload)"

definition SerializeEntry :: "WALEntry \<Rightarrow> bytes" where
  "SerializeEntry e =
     (let payload = SerializePayload e;
          payload_len = to_u32 (length payload);
          crc = ComputeCRC32 payload
      in WriteUint32 (WriteUint32 [] payload_len) crc @ payload)"

definition DeserializeEntry :: "bytes \<Rightarrow> WALEntry ErrorOr" where
  "DeserializeEntry payload =
     (if length payload < 13
      then Error (mk_Status kStorageCorruption ''WAL payload too small'')
      else
        let ty = payload ! 0 in
        assign_or_return (ReadUint64 payload 1) (\<lambda>(seq, offset).
        assign_or_return (ReadUint32 payload offset) (\<lambda>(key_len, offset).
        if offset + unat key_len > length payload
        then Error (mk_Status kStorageCorruption ''WAL key extends past payload'')
        else
          let k = bytes_string (take (unat key_len) (drop offset payload));
              offset = offset + unat key_len in
          if ty = kPut
          then assign_or_return (ReadUint32 payload offset) (\<lambda>(val_len, offset).
                 if offset + unat val_len > length payload
                 then Error (mk_Status kStorageCorruption ''WAL value extends past payload'')
                 else Value \<lparr>we_seq = seq, we_type = ty, we_key = k,
                             we_value = take (unat val_len) (drop offset payload)\<rparr>)
          else Value \<lparr>we_seq = seq, we_type = ty, we_key = k, we_value = []\<rparr>)))"

subsection \<open>Reading a log file\<close>

text \<open>One turn of the reading loops of \<^verbatim>\<open>Open\<close> and \<^verbatim>\<open>ReadAll\<close>; \<^const>\<open>None\<close> is
  \<^verbatim>\<open>break\<close>. Only \<^verbatim>\<open>ReadAll\<close> rejects a length above 64 MB: \<open>limited\<close>.\<close>

definition max_payload :: nat where "max_payload = 64 * 1024 * 1024"

definition WAL_next :: "bool \<Rightarrow> bytes \<Rightarrow> (WALEntry \<times> bytes) option" where
  "WAL_next limited input =
     (let header_buf = take kWALHeaderSize input; input = drop kWALHeaderSize input in
      if length header_buf < kWALHeaderSize then None else
      case ReadUint32 header_buf 0 of Error _ \<Rightarrow> None | Value (payload_len, hdr_offset) \<Rightarrow>
      case ReadUint32 header_buf hdr_offset of Error _ \<Rightarrow> None | Value (expected_crc, _) \<Rightarrow>
      if limited \<and> unat payload_len > max_payload then None else
      let payload = take (unat payload_len) input; input = drop (unat payload_len) input in
      if length payload < unat payload_len then None else
      if ComputeCRC32 payload \<noteq> expected_crc then None else
      case DeserializeEntry payload of Error _ \<Rightarrow> None | Value e \<Rightarrow> Some (e, input))"

lemma WAL_next_shorter: "WAL_next limited input = Some (e, rest) \<Longrightarrow> length rest < length input"
  by (auto simp: WAL_next_def Let_def kWALHeaderSize_def split: if_splits ErrorOr.splits prod.splits)

function WAL_scan :: "bool \<Rightarrow> bytes \<Rightarrow> WALEntry list" where
  "WAL_scan limited input =
     (case WAL_next limited input of None \<Rightarrow> [] | Some (e, rest) \<Rightarrow> e # WAL_scan limited rest)"
  by pat_completeness auto
termination
  by (relation "measure (\<lambda>(_, input). length input)") (auto dest: WAL_next_shorter)

declare WAL_scan.simps [simp del]

text \<open>The loop of \<^verbatim>\<open>Open\<close> keeps one more than the largest sequence number seen.\<close>

function WAL_open_loop :: "bytes \<Rightarrow> u64 \<Rightarrow> u64" where
  "WAL_open_loop input next_seq =
     (case WAL_next False input of None \<Rightarrow> next_seq
      | Some (e, rest) \<Rightarrow>
          WAL_open_loop rest (if we_seq e \<ge> next_seq then we_seq e + 1 else next_seq))"
  by pat_completeness auto
termination
  by (relation "measure (\<lambda>(input, _). length input)") (auto dest: WAL_next_shorter)

declare WAL_open_loop.simps [simp del]

subsection \<open>The log object\<close>

record WAL =
  wal_path :: path
  wal_file :: ofstream
  wal_next_seq :: u64

definition WAL_Open :: "io \<Rightarrow> fs \<Rightarrow> path \<Rightarrow> fs \<times> WAL ErrorOr" where
  "WAL_Open io fs p =
     (if file_exists fs p \<and> open_read io fs p = None
      then (fs, Error (mk_Status kStorageIoError (''Cannot open existing WAL: '' @ p)))
      else
        let next_seq = (case fs p of None \<Rightarrow> 1 | Some input \<Rightarrow> WAL_open_loop input 1) in
        case open_app io fs p of
          None \<Rightarrow> (fs, Error (mk_Status kStorageIoError (''Cannot open WAL for writing: '' @ p)))
        | Some (fs, file) \<Rightarrow>
            (fs, Value \<lparr>wal_path = p, wal_file = file, wal_next_seq = next_seq\<rparr>))"

definition WAL_Append :: "io \<Rightarrow> fs \<Rightarrow> WAL \<Rightarrow> WALEntry \<Rightarrow> (fs \<times> WAL) \<times> u64 ErrorOr" where
  "WAL_Append io fs wal e =
     (let stamped = e\<lparr>we_seq := wal_next_seq wal\<rparr>;
          wal = wal\<lparr>wal_next_seq := wal_next_seq wal + 1\<rparr>;
          (fs, file) = os_write io fs (wal_file wal) (SerializeEntry stamped)
      in if \<not> os_good file
         then ((fs, wal\<lparr>wal_file := file\<rparr>), Error (mk_Status kStorageIoError ''WAL write failed''))
         else let (fs, file) = os_flush io fs file
              in ((fs, wal\<lparr>wal_file := file\<rparr>), Value (we_seq stamped)))"

definition WAL_ReadAll :: "io \<Rightarrow> fs \<Rightarrow> WAL \<Rightarrow> WALEntry list ErrorOr" where
  "WAL_ReadAll io fs wal =
     (case open_read io fs (wal_path wal) of
        None \<Rightarrow> Error (mk_Status kStorageIoError (''Cannot open WAL for reading: '' @ wal_path wal))
      | Some input \<Rightarrow> Value (WAL_scan True input))"

definition WAL_Sync :: "io \<Rightarrow> fs \<Rightarrow> WAL \<Rightarrow> (fs \<times> WAL) \<times> Status" where
  "WAL_Sync io fs wal =
     (let (fs, file) = os_flush io fs (wal_file wal)
      in ((fs, wal\<lparr>wal_file := file\<rparr>),
          if \<not> os_good file then mk_Status kStorageIoError ''WAL sync failed'' else Status_Ok))"

definition WAL_current_sequence_number :: "WAL \<Rightarrow> u64" where
  "WAL_current_sequence_number wal = wal_next_seq wal - 1"

definition WAL_destroy :: "io \<Rightarrow> fs \<Rightarrow> WAL \<Rightarrow> fs" where
  "WAL_destroy io fs wal = fst (os_flush io fs (wal_file wal))"

subsection \<open>The interface of an append-only record format\<close>

text \<open>What the log promises to recovery: a whole record is read back, a record cut off by a crash
  is not, and the scan is the repetition of one read. Everything about whole log files follows.\<close>

locale record_log =
  fixes encode :: "'e \<Rightarrow> bytes"
    and next_record :: "bytes \<Rightarrow> ('e \<times> bytes) option"
    and scan :: "bytes \<Rightarrow> 'e list"
    and ok :: "'e \<Rightarrow> bool"
  assumes next_empty: "next_record [] = None"
    and next_encode: "ok e \<Longrightarrow> next_record (encode e @ rest) = Some (e, rest)"
    and next_torn: "ok e \<Longrightarrow> n < length (encode e) \<Longrightarrow> next_record (take n (encode e)) = None"
    and scan_next: "scan input =
      (case next_record input of None \<Rightarrow> [] | Some (e, rest) \<Rightarrow> e # scan rest)"
begin

lemma scan_stop: "next_record input = None \<Longrightarrow> scan input = []"
  by (simp add: scan_next [of input])

lemma scan_Cons: "ok e \<Longrightarrow> scan (encode e @ rest) = e # scan rest"
  by (simp add: scan_next [of "encode e @ rest"] next_encode)

lemma scan_encoded:
  "\<forall>e \<in> set es. ok e \<Longrightarrow> scan (concat (map encode es) @ rest) = es @ scan rest"
  by (induction es) (simp_all add: scan_Cons)

lemma scan_all: "\<forall>e \<in> set es. ok e \<Longrightarrow> scan (concat (map encode es)) = es"
  using scan_encoded [of es "[]"] by (simp add: scan_stop next_empty)

lemma scan_torn:
  assumes "\<forall>e \<in> set es. ok e" and "ok e" and "n < length (encode e)"
  shows "scan (concat (map encode es) @ take n (encode e)) = es"
  using assms by (simp add: scan_encoded scan_stop next_torn)

text \<open>Cut a log anywhere: what is read is exactly the records that lie wholly before the cut.\<close>

lemma scan_cut:
  assumes "\<forall>e \<in> set es. ok e" and "k \<le> length (concat (map encode es))"
  shows "\<exists>j \<le> length es. scan (take k (concat (map encode es))) = take j es
     \<and> length (concat (map encode (take j es))) \<le> k
     \<and> (j < length es \<longrightarrow> k < length (concat (map encode (take (Suc j) es))))"
  using assms
proof (induction es arbitrary: k)
  case Nil
  then show ?case by (simp add: scan_stop next_empty)
next
  case (Cons e es)
  show ?case
  proof (cases "k < length (encode e)")
    case True
    with Cons.prems show ?thesis
      by (intro exI [of _ 0]) (simp add: scan_stop next_torn)
  next
    case False
    define k' where "k' = k - length (encode e)"
    with False have k: "k = length (encode e) + k'" by simp
    with Cons.prems have "k' \<le> length (concat (map encode es))" by simp
    with Cons obtain j where j: "j \<le> length es" "scan (take k' (concat (map encode es))) = take j es"
        "length (concat (map encode (take j es))) \<le> k'"
        "j < length es \<longrightarrow> k' < length (concat (map encode (take (Suc j) es)))"
      by auto
    with Cons.prems show ?thesis
      by (intro exI [of _ "Suc j"]) (simp add: k scan_Cons)
  qed
qed

end

subsection \<open>Round trip of one record\<close>

text \<open>The entries a log can hold: a value only on a put, and a payload whose length fits the
  length field (and, for \<^verbatim>\<open>ReadAll\<close>, the sanity limit).\<close>

definition entry_ok :: "bool \<Rightarrow> WALEntry \<Rightarrow> bool" where
  "entry_ok limited e \<longleftrightarrow> (we_type e = kPut \<or> we_value e = []) \<and> PayloadSize e < 2 ^ 32
     \<and> (limited \<longrightarrow> PayloadSize e \<le> max_payload)"

lemma SerializePayload_fields:
  "SerializePayload e = [we_type e] @ le_bytes 8 (we_seq e) @ string_field (we_key e)
     @ (if we_type e = kPut then le_bytes 4 (to_u32 (length (we_value e))) @ we_value e else [])"
  by (simp add: SerializePayload_def Let_def Write_fields WriteRawBytes_def string_field_def)

lemma length_SerializePayload [simp]: "length (SerializePayload e) = PayloadSize e"
  by (simp add: SerializePayload_fields PayloadSize_def)

lemma SerializeEntry_fields:
  "SerializeEntry e = (le_bytes 4 (to_u32 (PayloadSize e)) @ le_bytes 4 (ComputeCRC32 (SerializePayload e)))
     @ SerializePayload e"
  by (simp add: SerializeEntry_def Let_def Write_fields)

lemma length_SerializeEntry [simp]: "length (SerializeEntry e) = kWALHeaderSize + PayloadSize e"
  by (simp add: SerializeEntry_fields kWALHeaderSize_def)

lemma DeserializeEntry_SerializePayload:
  assumes "entry_ok limited e"
  shows "DeserializeEntry (SerializePayload e) = Value e"
proof -
  let ?val = "if we_type e = kPut then le_bytes 4 (to_u32 (length (we_value e))) @ we_value e else []"
  let ?p = "[we_type e] @ le_bytes 8 (we_seq e) @ string_field (we_key e) @ ?val"
  have klen: "length (we_key e) < 2 ^ 32"
    and vlen: "we_type e = kPut \<Longrightarrow> length (we_value e) < 2 ^ 32"
    using assms by (auto simp: entry_ok_def PayloadSize_def)
  have seq: "ReadUint64 ?p 1 = Value (we_seq e, 9)"
    using ReadUint64_middle [of 1 "[we_type e]" "we_seq e"] by simp
  have klf: "ReadUint32 ?p 9 = Value (to_u32 (length (we_key e)), 13)"
    using ReadUint32_middle [of 9 "[we_type e] @ le_bytes 8 (we_seq e)" "to_u32 (length (we_key e))"]
    by (simp add: string_field_def)
  have drop_key: "drop 13 ?p = string_bytes (we_key e) @ ?val"
    by (simp add: string_field_def numeral_eq_Suc)
  have vlf: "we_type e = kPut \<Longrightarrow> ReadUint32 ?p (13 + length (we_key e))
      = Value (to_u32 (length (we_value e)), 17 + length (we_key e))"
    using ReadUint32_middle [of "13 + length (we_key e)"
        "[we_type e] @ le_bytes 8 (we_seq e) @ string_field (we_key e)"
        "to_u32 (length (we_value e))" "we_value e"]
    by simp
  have drop_val: "we_type e = kPut \<Longrightarrow> drop (17 + length (we_key e)) ?p = we_value e"
    using drop_prefix [of "17 + length (we_key e)" "[we_type e] @ le_bytes 8 (we_seq e)
        @ string_field (we_key e) @ le_bytes 4 (to_u32 (length (we_value e)))" "we_value e"]
    by simp
  have plen: "length ?p = PayloadSize e" and "?p ! 0 = we_type e"
    by (simp_all add: PayloadSize_def)
  with assms klen vlen seq klf drop_key vlf drop_val show ?thesis
    unfolding SerializePayload_fields
    by (auto simp: DeserializeEntry_def Let_def entry_ok_def PayloadSize_def simp del: append.simps)
qed

subsection \<open>Reading one record\<close>

lemma WAL_next_record:
  assumes "length payload < 2 ^ 32"
  shows "WAL_next limited ((le_bytes 4 (to_u32 (length payload)) @ le_bytes 4 crc) @ payload @ rest) =
    (if limited \<and> length payload > max_payload \<or> ComputeCRC32 payload \<noteq> crc then None
     else case DeserializeEntry payload of Error _ \<Rightarrow> None | Value e \<Rightarrow> Some (e, rest))"
proof -
  let ?hdr = "le_bytes 4 (to_u32 (length payload)) @ le_bytes 4 crc"
  have "ReadUint32 ?hdr 0 = Value (to_u32 (length payload), 4)"
    using ReadUint32_middle [of 0 "[]" "to_u32 (length payload)" "le_bytes 4 crc"] by simp
  moreover have "ReadUint32 ?hdr 4 = Value (crc, 8)"
    using ReadUint32_middle [of 4 "le_bytes 4 (to_u32 (length payload))" crc "[]"] by simp
  moreover have "take kWALHeaderSize (?hdr @ payload @ rest) = ?hdr"
    and "drop kWALHeaderSize (?hdr @ payload @ rest) = payload @ rest"
    by (simp_all add: kWALHeaderSize_def)
  moreover have "length ?hdr = kWALHeaderSize" by (simp add: kWALHeaderSize_def)
  ultimately show ?thesis
    using assms by (simp add: WAL_next_def Let_def del: append_assoc)
qed

lemma WAL_next_SerializeEntry:
  assumes "entry_ok limited e"
  shows "WAL_next limited (SerializeEntry e @ rest) = Some (e, rest)"
  using assms WAL_next_record [of "SerializePayload e" limited "ComputeCRC32 (SerializePayload e)" rest]
  by (auto simp: SerializeEntry_fields DeserializeEntry_SerializePayload [OF assms] entry_ok_def)

lemma WAL_next_gap:
  assumes "PayloadSize e < 2 ^ 32" and "8 \<le> n" and "n + length tail_bytes < length (SerializeEntry e)"
  shows "WAL_next limited (take n (SerializeEntry e) @ tail_bytes) = None"
proof -
  define m where "m = n - 8"
  let ?hdr = "le_bytes 4 (to_u32 (PayloadSize e)) @ le_bytes 4 (ComputeCRC32 (SerializePayload e))"
  have "take n (SerializeEntry e) @ tail_bytes = ?hdr @ take m (SerializePayload e) @ tail_bytes"
    using assms by (simp add: SerializeEntry_fields m_def)
  moreover have "ReadUint32 ?hdr 0 = Value (to_u32 (PayloadSize e), 4)"
    using ReadUint32_middle [of 0 "[]" "to_u32 (PayloadSize e)"] by simp
  moreover have "m + length tail_bytes < PayloadSize e" using assms by (simp add: m_def kWALHeaderSize_def)
  ultimately show ?thesis
    using assms by (simp add: WAL_next_def Let_def kWALHeaderSize_def split: ErrorOr.split)
qed

lemma WAL_next_torn:
  assumes "PayloadSize e < 2 ^ 32" and "n < length (SerializeEntry e)"
  shows "WAL_next limited (take n (SerializeEntry e)) = None"
proof (cases "n < 8")
  case True
  then show ?thesis using assms by (simp add: WAL_next_def kWALHeaderSize_def)
next
  case False
  with assms WAL_next_gap [of e n "[]" limited] show ?thesis by simp
qed

lemma WAL_next_oversized:
  "max_payload < PayloadSize e \<Longrightarrow> PayloadSize e < 2 ^ 32 \<Longrightarrow> WAL_next True (SerializeEntry e @ rest) = None"
  using WAL_next_record [of "SerializePayload e" True "ComputeCRC32 (SerializePayload e)" rest]
  by (simp add: SerializeEntry_fields)

text \<open>A record with one changed byte outside its length field is not accepted.\<close>

lemma WAL_next_corrupt:
  assumes e: "PayloadSize e < 2 ^ 32" and i: "4 \<le> i" "i < length (SerializeEntry e)"
    and b: "b \<noteq> SerializeEntry e ! i"
  shows "WAL_next limited ((SerializeEntry e)[i := b] @ rest) = None"
proof -
  let ?len = "le_bytes 4 (to_u32 (PayloadSize e))" and ?p = "SerializePayload e"
  let ?crc = "le_bytes 4 (ComputeCRC32 ?p)"
  show ?thesis
  proof (cases "i < 8")
    case True
    define c where "c = ?crc[i - 4 := b]"
    have i4: "i - 4 < 4" using True by simp
    then have upd: "(SerializeEntry e)[i := b] = (?len @ c) @ ?p"
      using True i(1) by (simp add: SerializeEntry_fields c_def list_update_append)
    have "c ! (i - 4) = b" and "?crc ! (i - 4) \<noteq> b"
      using True i4 i b by (auto simp: c_def SerializeEntry_fields nth_append)
    then have "c \<noteq> ?crc" by auto
    moreover have cw: "c = le_bytes 4 (le_word c :: u32)"
      by (simp add: le_bytes_le_word c_def)
    ultimately have "ComputeCRC32 ?p \<noteq> le_word c" by metis
    with WAL_next_record [of ?p limited "le_word c" rest] e cw show ?thesis
      by (simp add: upd)
  next
    case False
    define j where "j = i - 8"
    have i4: "\<not> i - 4 < 4" using False by arith
    have j: "j < length ?p" using i False by (simp add: j_def kWALHeaderSize_def)
    have upd: "(SerializeEntry e)[i := b] = (?len @ ?crc) @ ?p[j := b]"
      using False i4 by (simp add: SerializeEntry_fields list_update_append j_def)
    have "?p ! j \<noteq> b"
      using False i4 b by (simp add: SerializeEntry_fields nth_append j_def)
    then have "ComputeCRC32 (?p[j := b]) \<noteq> ComputeCRC32 ?p"
      using ComputeCRC32_single_byte [of "take j ?p" b "drop (Suc j) ?p" "?p ! j"]
      by (metis id_take_nth_drop [OF j] upd_conv_take_nth_drop [OF j])
    with WAL_next_record [of "?p[j := b]" limited "ComputeCRC32 ?p" rest] e show ?thesis
      by (simp add: upd)
  qed
qed

lemma WAL_next_Nil [simp]: "WAL_next limited [] = None"
  by (simp add: WAL_next_def kWALHeaderSize_def)

lemma record_log_WAL: "record_log SerializeEntry (WAL_next limited) (WAL_scan limited) (entry_ok limited)"
  by unfold_locales
     (simp_all add: WAL_next_SerializeEntry WAL_next_torn entry_ok_def WAL_scan.simps [of limited])

interpretation recovery_log: record_log SerializeEntry "WAL_next True" "WAL_scan True" "entry_ok True"
  by (rule record_log_WAL)

interpretation open_log: record_log SerializeEntry "WAL_next False" "WAL_scan False" "entry_ok False"
  by (rule record_log_WAL)

subsection \<open>Opening and appending\<close>

text \<open>A log object between two calls: the stream is good and owes nothing to the file.\<close>

definition WAL_wf :: "WAL \<Rightarrow> bool" where
  "WAL_wf wal \<longleftrightarrow> os_path (wal_file wal) = wal_path wal \<and> os_good (wal_file wal) \<and> os_buf (wal_file wal) = []"

definition bump_seq :: "u64 \<Rightarrow> WALEntry \<Rightarrow> u64" where
  "bump_seq n e = (if we_seq e \<ge> n then we_seq e + 1 else n)"

lemma WAL_open_loop_scan: "WAL_open_loop input n = foldl bump_seq n (WAL_scan False input)"
proof (induction input n rule: WAL_open_loop.induct)
  case (1 input n)
  show ?case
  proof (cases "WAL_next False input")
    case None
    then show ?thesis by (simp add: WAL_open_loop.simps [of input n] WAL_scan.simps [of False input])
  next
    case (Some er)
    then obtain e rest where er: "WAL_next False input = Some (e, rest)" by (cases er) auto
    with 1 show ?thesis
      by (simp add: WAL_open_loop.simps [of input n] WAL_scan.simps [of False input] bump_seq_def)
  qed
qed

lemma bump_seq_above:
  assumes "\<forall>e \<in> set es. we_seq e < - 1"
  shows "n \<le> foldl bump_seq n es \<and> (\<forall>e \<in> set es. we_seq e < foldl bump_seq n es)"
  using assms
proof (induction es arbitrary: n)
  case (Cons e es)
  have "we_seq e < we_seq e + 1" using Cons.prems by (simp add: u64_less_plus_1)
  then have "n \<le> bump_seq n e" and "we_seq e < bump_seq n e"
    by (auto simp: bump_seq_def)
  moreover have "bump_seq n e \<le> foldl bump_seq (bump_seq n e) es"
    and "\<forall>e' \<in> set es. we_seq e' < foldl bump_seq (bump_seq n e) es"
    using Cons.IH [of "bump_seq n e"] Cons.prems by auto
  ultimately show ?case by auto
qed simp

lemma WAL_Open_fine:
  assumes "io_fine io"
  shows "WAL_Open io fs p = (fs(p \<mapsto> content fs p),
    Value \<lparr>wal_path = p, wal_file = \<lparr>os_path = p, os_buf = [], os_good = True\<rparr>,
           wal_next_seq = foldl bump_seq 1 (WAL_scan False (content fs p))\<rparr>)"
  using assms
  by (auto simp: WAL_Open_def file_exists_def open_app_def content_def WAL_open_loop_scan
      WAL_scan.simps [of False "[]"] split: option.splits)

lemma WAL_Append_fine:
  assumes "disk_limit io (wal_path wal) = None" and "WAL_wf wal"
  shows "WAL_Append io fs wal e =
    ((fs(wal_path wal \<mapsto> content fs (wal_path wal) @ SerializeEntry (e\<lparr>we_seq := wal_next_seq wal\<rparr>)),
      wal\<lparr>wal_next_seq := wal_next_seq wal + 1\<rparr>), Value (wal_next_seq wal))"
  using assms
  by (cases wal, cases "wal_file wal")
     (auto simp: WAL_Append_def WAL_wf_def os_write_def os_flush_def os_push_fine os_view_def Let_def)

text \<open>A run of appends, stopping at the first error as the callers do.\<close>

fun WAL_append_all :: "io \<Rightarrow> fs \<Rightarrow> WAL \<Rightarrow> WALEntry list \<Rightarrow> (fs \<times> WAL) \<times> u64 list ErrorOr" where
  "WAL_append_all io fs wal [] = ((fs, wal), Value [])"
| "WAL_append_all io fs wal (e # es) =
     (case WAL_Append io fs wal e of
        (s, Error st) \<Rightarrow> (s, Error st)
      | ((fs, wal), Value n) \<Rightarrow>
          (case WAL_append_all io fs wal es of
             (s, Error st) \<Rightarrow> (s, Error st)
           | (s, Value ns) \<Rightarrow> (s, Value (n # ns))))"

fun stamp :: "u64 \<Rightarrow> WALEntry list \<Rightarrow> WALEntry list" where
  "stamp n [] = []"
| "stamp n (e # es) = e\<lparr>we_seq := n\<rparr> # stamp (n + 1) es"

lemma length_stamp [simp]: "length (stamp n es) = length es"
  by (induction es arbitrary: n) auto

lemma WAL_append_all_fine:
  assumes "disk_limit io (wal_path wal) = None" and "WAL_wf wal" and "fs (wal_path wal) \<noteq> None"
  shows "WAL_append_all io fs wal es =
    ((fs(wal_path wal \<mapsto> content fs (wal_path wal)
        @ concat (map SerializeEntry (stamp (wal_next_seq wal) es))),
      wal\<lparr>wal_next_seq := wal_next_seq wal + of_nat (length es)\<rparr>),
     Value (map we_seq (stamp (wal_next_seq wal) es)))"
  using assms
proof (induction es arbitrary: fs wal)
  case Nil
  then show ?case by (auto simp: content_def)
next
  case (Cons e es)
  let ?fs = "fs(wal_path wal \<mapsto> content fs (wal_path wal) @ SerializeEntry (e\<lparr>we_seq := wal_next_seq wal\<rparr>))"
  let ?wal = "wal\<lparr>wal_next_seq := wal_next_seq wal + 1\<rparr>"
  have wf: "WAL_wf ?wal" using Cons.prems by (simp add: WAL_wf_def)
  have IH: "WAL_append_all io ?fs ?wal es =
    ((?fs(wal_path ?wal \<mapsto> content ?fs (wal_path ?wal)
        @ concat (map SerializeEntry (stamp (wal_next_seq ?wal) es))),
      ?wal\<lparr>wal_next_seq := wal_next_seq ?wal + of_nat (length es)\<rparr>),
     Value (map we_seq (stamp (wal_next_seq ?wal) es)))"
    by (rule Cons.IH) (use Cons.prems wf in simp_all)
  show ?case
    using Cons.prems by (simp add: WAL_Append_fine IH add.assoc fun_eq_iff)
qed

lemma entry_ok_restamp [simp]: "entry_ok limited (e\<lparr>we_seq := n\<rparr>) = entry_ok limited e"
  by (simp add: entry_ok_def PayloadSize_def)

lemma entry_ok_stamp: "\<forall>e \<in> set es. entry_ok limited e \<Longrightarrow> \<forall>e \<in> set (stamp n es). entry_ok limited e"
  by (induction es arbitrary: n) simp_all

lemma stamp_seqs:
  assumes "unat n + length es < 2 ^ 64"
  shows "map (unat \<circ> we_seq) (stamp n es) = [unat n ..< unat n + length es]"
  using assms
proof (induction es arbitrary: n)
  case (Cons e es)
  then have "unat (n + 1) = Suc (unat n)"
    by (intro unat_plus_1_u64) simp
  with Cons.prems Cons.IH [of "n + 1"] show ?case
    by (simp add: upt_conv_Cons del: upt_Suc)
qed simp

subsection \<open>Properties\<close>

text \<open>C4. Appending to a log and reading it back: on a working disk, a log file that holds the
  records of \<open>old\<close> is opened, the entries \<open>es\<close> are appended, and \<^verbatim>\<open>ReadAll\<close>
  returns the old entries followed by the new ones, stamped with consecutive sequence numbers that
  are larger than every sequence number already in the file.\<close>

theorem WAL_append_ReadAll:
  assumes io: "io_fine io"
    and log: "fs p = Some (concat (map SerializeEntry old))"
    and old: "\<forall>e \<in> set old. entry_ok True e \<and> we_seq e < - 1"
    and new: "\<forall>e \<in> set es. entry_ok True e"
    and opened: "WAL_Open io fs p = (fs1, Value wal)"
    and appended: "WAL_append_all io fs1 wal es = ((fs2, wal2), r)"
  shows "r = Value (map we_seq (stamp (wal_next_seq wal) es))
    \<and> WAL_ReadAll io fs2 wal2 = Value (old @ stamp (wal_next_seq wal) es)
    \<and> (\<forall>e \<in> set old. we_seq e < wal_next_seq wal)"
proof -
  have scan: "WAL_scan False (concat (map SerializeEntry old)) = old"
    using old by (intro open_log.scan_all) (auto simp: entry_ok_def)
  have wal: "wal = \<lparr>wal_path = p, wal_file = \<lparr>os_path = p, os_buf = [], os_good = True\<rparr>,
      wal_next_seq = foldl bump_seq 1 old\<rparr>" and fs1: "fs1 = fs"
    using opened log scan by (auto simp: WAL_Open_fine [OF io] content_def)
  have wf: "WAL_wf wal" by (simp add: wal WAL_wf_def)
  have app: "fs2 p = Some (concat (map SerializeEntry (old @ stamp (wal_next_seq wal) es)))"
      "wal_path wal2 = p" "r = Value (map we_seq (stamp (wal_next_seq wal) es))"
    using appended log io by (auto simp: fs1 wal WAL_append_all_fine WAL_wf_def)
  have "\<forall>e \<in> set (old @ stamp (wal_next_seq wal) es). entry_ok True e"
    using old entry_ok_stamp [OF new] by auto
  from recovery_log.scan_all [OF this] app io
  have "WAL_ReadAll io fs2 wal2 = Value (old @ stamp (wal_next_seq wal) es)"
    by (simp add: WAL_ReadAll_def)
  moreover have "\<forall>e \<in> set old. we_seq e < wal_next_seq wal"
    using bump_seq_above [of old 1] old by (simp add: wal)
  ultimately show ?thesis using app(3) by simp
qed

theorem WAL_append_ReadAll_witness:
  "\<exists>fs2 wal2. WAL_ReadAll io_ideal fs2 wal2
     = Value (stamp 1 [\<lparr>we_seq = 0, we_type = kPut, we_key = ''a'', we_value = [7]\<rparr>])"
proof -
  let ?es = "[\<lparr>we_seq = 0, we_type = kPut, we_key = ''a'', we_value = [7]\<rparr>]"
  have ok: "\<forall>e \<in> set ?es. entry_ok True e"
    by (simp add: entry_ok_def PayloadSize_def max_payload_def)
  obtain fs1 wal where opened: "WAL_Open io_ideal [''w'' \<mapsto> []] ''w'' = (fs1, Value wal)"
    and seq: "wal_next_seq wal = 1"
    by (simp add: WAL_Open_fine WAL_scan.simps)
  obtain fs2 wal2 r where "WAL_append_all io_ideal fs1 wal ?es = ((fs2, wal2), r)"
    by (metis surj_pair)
  from WAL_append_ReadAll [of io_ideal "[''w'' \<mapsto> []]" "''w''" "[]", OF _ _ _ ok opened this] seq
  show ?thesis by auto
qed

text \<open>C12. Crash safety of the log: cut the file at any byte, as a crash during a write does.
  \<^verbatim>\<open>ReadAll\<close> then returns exactly the entries whose records lie wholly before the cut.\<close>

theorem WAL_crash_cut:
  assumes "\<forall>e \<in> set es. entry_ok True e" and "can_open io (wal_path wal)"
    and "k \<le> length (concat (map SerializeEntry es))"
    and "fs (wal_path wal) = Some (take k (concat (map SerializeEntry es)))"
  shows "\<exists>j \<le> length es. WAL_ReadAll io fs wal = Value (take j es)
     \<and> length (concat (map SerializeEntry (take j es))) \<le> k
     \<and> (j < length es \<longrightarrow> k < length (concat (map SerializeEntry (take (Suc j) es))))"
  using recovery_log.scan_cut [OF assms(1,3)] assms(2,4)
  by (auto simp: WAL_ReadAll_def open_read_def)

theorem WAL_crash_cut_witness:
  "WAL_ReadAll io_ideal
     [''w'' \<mapsto> take 21 (SerializeEntry \<lparr>we_seq = 1, we_type = kDelete, we_key = ''k'', we_value = []\<rparr>)]
     \<lparr>wal_path = ''w'', wal_file = \<lparr>os_path = ''w'', os_buf = [], os_good = True\<rparr>, wal_next_seq = 2\<rparr>
   = Value []"
proof -
  let ?e = "\<lparr>we_seq = 1, we_type = kDelete, we_key = ''k'', we_value = []\<rparr>"
  let ?w = "\<lparr>wal_path = ''w'', wal_file = \<lparr>os_path = ''w'', os_buf = [], os_good = True\<rparr>, wal_next_seq = 2\<rparr>"
  have size: "length (SerializeEntry ?e) = 22"
    by (simp add: kWALHeaderSize_def PayloadSize_def kPut_def kDelete_def)
  have "\<exists>j \<le> length [?e]. WAL_ReadAll io_ideal [''w'' \<mapsto> take 21 (SerializeEntry ?e)] ?w = Value (take j [?e])
     \<and> length (concat (map SerializeEntry (take j [?e]))) \<le> 21
     \<and> (j < length [?e] \<longrightarrow> 21 < length (concat (map SerializeEntry (take (Suc j) [?e]))))"
    using size
    by (intro WAL_crash_cut)
       (simp_all add: entry_ok_def PayloadSize_def max_payload_def io_ideal_def kPut_def kDelete_def)
  then obtain j where "j \<le> 1"
      "WAL_ReadAll io_ideal [''w'' \<mapsto> take 21 (SerializeEntry ?e)] ?w = Value (take j [?e])"
      "length (concat (map SerializeEntry (take j [?e]))) \<le> 21"
    by auto
  with size show ?thesis by (cases j) simp_all
qed

text \<open>C13. Corruption is noticed: if one byte of a record outside its length field is changed,
  \<^verbatim>\<open>ReadAll\<close> returns the entries before that record and nothing else.\<close>

theorem WAL_corruption_detected:
  assumes "\<forall>e \<in> set es. entry_ok True e" and "PayloadSize e < 2 ^ 32"
    and "4 \<le> i" and "i < length (SerializeEntry e)" and "b \<noteq> SerializeEntry e ! i"
    and "can_open io (wal_path wal)"
    and "fs (wal_path wal) = Some (concat (map SerializeEntry es) @ (SerializeEntry e)[i := b] @ rest)"
  shows "WAL_ReadAll io fs wal = Value es"
proof -
  have "WAL_scan True ((SerializeEntry e)[i := b] @ rest) = []"
    using assms(2-5) by (intro recovery_log.scan_stop WAL_next_corrupt)
  with recovery_log.scan_encoded [OF assms(1)] assms(6,7) show ?thesis
    by (simp add: WAL_ReadAll_def open_read_def)
qed

theorem WAL_corruption_detected_witness:
  "WAL_ReadAll io_ideal
     [''w'' \<mapsto> (SerializeEntry \<lparr>we_seq = 1, we_type = kDelete, we_key = ''k'', we_value = []\<rparr>)[8 := 1]]
     \<lparr>wal_path = ''w'', wal_file = \<lparr>os_path = ''w'', os_buf = [], os_good = True\<rparr>, wal_next_seq = 2\<rparr>
   = Value []"
  by (rule WAL_corruption_detected [where e = "\<lparr>we_seq = 1, we_type = kDelete, we_key = ''k'', we_value = []\<rparr>"
        and i = 8 and b = 1 and rest = "[]"])
     (simp_all add: PayloadSize_def kWALHeaderSize_def kPut_def kDelete_def io_ideal_def
        SerializeEntry_fields SerializePayload_fields nth_append)

text \<open>C37. The log does not repair itself: after a crash that left at least the 8 header bytes of a cut-off
  record at the end of the file, \<^verbatim>\<open>Open\<close> appends behind it. As long as all the appended bytes fit
  strictly into the gap that the cut-off record announces, every one of these appends is acknowledged
  and none is returned by \<^verbatim>\<open>ReadAll\<close>.\<close>

theorem WAL_append_after_torn_record_lost:
  assumes io: "io_fine io" and es: "\<forall>e \<in> set es. entry_ok True e" and e: "PayloadSize e < 2 ^ 32"
    and n: "8 \<le> n"
    and log: "fs p = Some (concat (map SerializeEntry es) @ take n (SerializeEntry e))"
    and opened: "WAL_Open io fs p = (fs1, Value wal)"
    and gap: "n + length (concat (map SerializeEntry (stamp (wal_next_seq wal) new))) < length (SerializeEntry e)"
    and appended: "WAL_append_all io fs1 wal new = ((fs2, wal2), r)"
  shows "r = Value (map we_seq (stamp (wal_next_seq wal) new)) \<and> WAL_ReadAll io fs2 wal2 = Value es"
proof -
  let ?bytes = "concat (map SerializeEntry (stamp (wal_next_seq wal) new))"
  have wal: "wal_path wal = p" "WAL_wf wal" and fs1: "fs1 = fs"
    using opened log by (auto simp: WAL_Open_fine [OF io] content_def WAL_wf_def)
  have app: "fs2 p = Some (concat (map SerializeEntry es) @ take n (SerializeEntry e) @ ?bytes)"
      "wal_path wal2 = p" "r = Value (map we_seq (stamp (wal_next_seq wal) new))"
    using appended log io wal by (auto simp: fs1 WAL_append_all_fine)
  have "WAL_next True (take n (SerializeEntry e) @ ?bytes) = None"
    using WAL_next_gap [OF e n gap] .
  with recovery_log.scan_encoded [OF es] app io recovery_log.scan_stop show ?thesis
    by (simp add: WAL_ReadAll_def)
qed

theorem WAL_append_after_torn_record_lost_witness:
  "\<exists>fs2 wal2. WAL_append_all io_ideal
      [''w'' \<mapsto> take 8 (SerializeEntry \<lparr>we_seq = 1, we_type = kPut, we_key = ''k'', we_value = replicate 100 0\<rparr>)]
      \<lparr>wal_path = ''w'', wal_file = \<lparr>os_path = ''w'', os_buf = [], os_good = True\<rparr>, wal_next_seq = 1\<rparr>
      [\<lparr>we_seq = 0, we_type = kDelete, we_key = ''k'', we_value = []\<rparr>] = ((fs2, wal2), Value [1])
    \<and> WAL_ReadAll io_ideal fs2 wal2 = Value []"
proof -
  let ?e = "\<lparr>we_seq = 1, we_type = kPut, we_key = ''k'', we_value = replicate 100 0\<rparr>"
  let ?d = "\<lparr>we_seq = 0, we_type = kDelete, we_key = ''k'', we_value = []\<rparr>"
  let ?fs = "[''w'' \<mapsto> take 8 (SerializeEntry ?e)]"
  let ?w = "\<lparr>wal_path = ''w'', wal_file = \<lparr>os_path = ''w'', os_buf = [], os_good = True\<rparr>, wal_next_seq = 1\<rparr>"
  have size: "PayloadSize ?e = 118" "length (SerializeEntry ?e) = 126"
    by (simp_all add: kWALHeaderSize_def PayloadSize_def)
  have "WAL_scan False (take 8 (SerializeEntry ?e)) = []"
    using size by (intro open_log.scan_stop WAL_next_torn) simp_all
  then have opened: "WAL_Open io_ideal ?fs ''w'' = (?fs, Value ?w)"
    by (simp add: WAL_Open_fine)
  obtain fs2 wal2 r where app: "WAL_append_all io_ideal ?fs ?w [?d] = ((fs2, wal2), r)"
    by (metis surj_pair)
  have "r = Value (map we_seq (stamp (wal_next_seq ?w) [?d])) \<and> WAL_ReadAll io_ideal fs2 wal2 = Value []"
    by (rule WAL_append_after_torn_record_lost [OF _ _ _ _ _ opened _ app, where es = "[]" and e = ?e and n = 8])
       (simp_all add: size kWALHeaderSize_def PayloadSize_def kPut_def kDelete_def)
  with app show ?thesis by auto
qed

text \<open>C38. \<^verbatim>\<open>Append\<close> acknowledges a payload above 64 MB, and \<^verbatim>\<open>Open\<close> counts its record, but
  \<^verbatim>\<open>ReadAll\<close> rejects it: the entry and everything appended after it, all acknowledged, are not
  recovered.\<close>

theorem WAL_oversized_entry_unreadable:
  assumes es: "\<forall>e \<in> set es. entry_ok True e"
    and big: "max_payload < PayloadSize e" "PayloadSize e < 2 ^ 32" "we_type e = kPut"
    and io: "io_fine io" and wal: "WAL_wf wal"
    and log: "fs (wal_path wal) = Some (concat (map SerializeEntry es))"
    and appended: "WAL_append_all io fs wal (e # later) = ((fs2, wal2), r)"
  shows "r = Value (map we_seq (stamp (wal_next_seq wal) (e # later)))
    \<and> WAL_next False (SerializeEntry (e\<lparr>we_seq := wal_next_seq wal\<rparr>) @ rest) = Some (e\<lparr>we_seq := wal_next_seq wal\<rparr>, rest)
    \<and> WAL_ReadAll io fs2 wal2 = Value es"
proof -
  let ?e = "e\<lparr>we_seq := wal_next_seq wal\<rparr>"
  have size: "PayloadSize ?e = PayloadSize e" by (simp add: PayloadSize_def)
  have "entry_ok False ?e" using big size by (simp add: entry_ok_def)
  then have opened: "WAL_next False (SerializeEntry ?e @ rest) = Some (?e, rest)" by (simp add: WAL_next_SerializeEntry)
  define tail where "tail = concat (map SerializeEntry (stamp (wal_next_seq wal + 1) later))"
  have "stamp (wal_next_seq wal) (e # later) = ?e # stamp (wal_next_seq wal + 1) later" by simp
  then have "fs2 (wal_path wal2) = Some (concat (map SerializeEntry es) @ SerializeEntry ?e @ tail)"
      "r = Value (map we_seq (stamp (wal_next_seq wal) (e # later)))"
    using appended WAL_append_all_fine [of io wal fs "e # later"] io wal log by (auto simp: content_def tail_def)
  moreover have "WAL_scan True (SerializeEntry ?e @ tail) = []"
    using big size by (intro recovery_log.scan_stop WAL_next_oversized) simp_all
  ultimately show ?thesis
    using opened recovery_log.scan_encoded [OF es] io by (simp add: WAL_ReadAll_def)
qed

theorem WAL_oversized_entry_unreadable_witness:
  "\<exists>fs2 wal2. WAL_append_all io_ideal [''w'' \<mapsto> []]
      \<lparr>wal_path = ''w'', wal_file = \<lparr>os_path = ''w'', os_buf = [], os_good = True\<rparr>, wal_next_seq = 1\<rparr>
      [\<lparr>we_seq = 0, we_type = kPut, we_key = [], we_value = replicate max_payload 0\<rparr>] = ((fs2, wal2), Value [1])
    \<and> WAL_ReadAll io_ideal fs2 wal2 = Value []"
proof -
  let ?e = "\<lparr>we_seq = 0, we_type = kPut, we_key = [], we_value = replicate max_payload (0 :: byte)\<rparr>"
  let ?wal = "\<lparr>wal_path = ''w'', wal_file = \<lparr>os_path = ''w'', os_buf = [], os_good = True\<rparr>, wal_next_seq = 1\<rparr>"
  have big: "max_payload < PayloadSize ?e" "PayloadSize ?e < 2 ^ 32"
    by (simp_all add: PayloadSize_def max_payload_def)
  obtain fs2 wal2 r where a: "WAL_append_all io_ideal [''w'' \<mapsto> []] ?wal [?e] = ((fs2, wal2), r)" by (metis prod.collapse)
  have "r = Value [1] \<and> WAL_ReadAll io_ideal fs2 wal2 = Value []"
    using WAL_oversized_entry_unreadable [OF _ big _ io_fine_ideal _ _ a, of "[]"] by (simp add: WAL_wf_def)
  with a show ?thesis by blast
qed

text \<open>C39. \<^verbatim>\<open>Append\<close> checks the stream before it flushes and not after: on a full disk an entry
  smaller than the stream buffer is acknowledged although no byte of it reaches the file. Only the
  next append reports the error.\<close>

theorem WAL_Append_acknowledges_failed_flush:
  assumes "WAL_wf wal" and "length (SerializeEntry (e\<lparr>we_seq := wal_next_seq wal\<rparr>)) < buffer_size io"
    and "disk_limit io (wal_path wal) = Some (length (content fs (wal_path wal)))"
    and "WAL_Append io fs wal e = ((fs', wal'), r)"
  shows "r = Value (wal_next_seq wal) \<and> content fs' (wal_path wal) = content fs (wal_path wal)
    \<and> snd (WAL_Append io fs' wal' e') = Error (mk_Status kStorageIoError ''WAL write failed'')"
  using assms
  by (auto simp: WAL_Append_def WAL_wf_def os_write_def os_flush_def os_push_def accepted_def Let_def
      kWALHeaderSize_def split: if_splits)

theorem WAL_Append_acknowledges_failed_flush_witness:
  "\<exists>fs' wal'. WAL_Append (io_ideal\<lparr>disk_limit := \<lambda>_. Some 0\<rparr>) [''w'' \<mapsto> []]
      \<lparr>wal_path = ''w'', wal_file = \<lparr>os_path = ''w'', os_buf = [], os_good = True\<rparr>, wal_next_seq = 1\<rparr>
      \<lparr>we_seq = 0, we_type = kDelete, we_key = ''k'', we_value = []\<rparr> = ((fs', wal'), Value 1)
    \<and> content fs' ''w'' = []"
proof -
  let ?io = "io_ideal\<lparr>disk_limit := \<lambda>_. Some 0\<rparr>"
  let ?d = "\<lparr>we_seq = 0, we_type = kDelete, we_key = ''k'', we_value = []\<rparr>"
  let ?w = "\<lparr>wal_path = ''w'', wal_file = \<lparr>os_path = ''w'', os_buf = [], os_good = True\<rparr>, wal_next_seq = 1\<rparr>"
  obtain fs' wal' r where app: "WAL_Append ?io [''w'' \<mapsto> []] ?w ?d = ((fs', wal'), r)"
    by (metis surj_pair)
  from WAL_Append_acknowledges_failed_flush [OF _ _ _ app, of ?d]
  have "r = Value 1 \<and> content fs' ''w'' = []"
    by (simp add: WAL_wf_def io_ideal_def kWALHeaderSize_def PayloadSize_def kPut_def kDelete_def)
  with app show ?thesis by blast
qed

end
