(* ===== verification/Ordered_Table.thy ===== *)
theory Ordered_Table
  imports Prelude "HOL-Library.Monad_Syntax"
begin

text \<open>
  The interface between the in-memory tables and their users (write path, recovery, flush): a
  table enumerates its entries in strictly increasing key order, a lookup agrees with the
  enumeration, and an update replaces or adds exactly one entry. The locale \<open>ordered_table\<close>
  states these laws once and derives what a whole sequence of updates does.
\<close>

definition ordered_put :: "key \<Rightarrow> 'v \<Rightarrow> (key \<times> 'v) list \<Rightarrow> (key \<times> 'v) list" where
  "ordered_put k v es = filter (\<lambda>e. fst e < k) es @ (k, v) # filter (\<lambda>e. k < fst e) es"

primrec run_ops :: "('t \<Rightarrow> 'o \<Rightarrow> 't option) \<Rightarrow> 't \<Rightarrow> 'o list \<Rightarrow> 't option" where
  "run_ops upd t [] = Some t"
| "run_ops upd t (x # xs) = do { t \<leftarrow> upd t x; run_ops upd t xs }"

text \<open>What the last of a sequence of updates says about a key.\<close>

definition last_write :: "('o \<Rightarrow> key) \<Rightarrow> ('o \<Rightarrow> 'v) \<Rightarrow> 'o list \<Rightarrow> key \<Rightarrow> 'v option" where
  "last_write kf vf xs k = map_option vf (find (\<lambda>x. kf x = k) (rev xs))"

lemma last_write_simps [simp]:
  "last_write kf vf [] k = None"
  "last_write kf vf (xs @ [x]) k = (if kf x = k then Some (vf x) else last_write kf vf xs k)"
  by (simp_all add: last_write_def)

lemma sorted_ordered_put:
  assumes "sorted_wrt (<) (map fst es)"
  shows "sorted_wrt (<) (map fst (ordered_put k v es))"
proof -
  have "sorted_wrt (\<lambda>a b. fst a < fst b) (filter P es)" for P
    using assms by (intro sorted_wrt_filter) (simp add: sorted_wrt_map)
  then show ?thesis
    by (auto simp: ordered_put_def sorted_wrt_append sorted_wrt_map intro: less_trans)
qed

lemma map_of_filter_fst: "map_of (filter (\<lambda>e. P (fst e)) es) k = (if P k then map_of es k else None)"
  by (induction es) auto

lemma map_of_ordered_put: "map_of (ordered_put k v es) = (map_of es)(k \<mapsto> v)"
proof
  fix k'
  show "map_of (ordered_put k v es) k' = ((map_of es)(k \<mapsto> v)) k'"
    using map_of_filter_fst [of "\<lambda>x. x < k" es k'] map_of_filter_fst [of "\<lambda>x. k < x" es k']
    by (cases k' k rule: linorder_cases) (auto simp: ordered_put_def map_add_def split: option.splits)
qed

lemma run_ops_append: "run_ops upd t (xs @ ys) = do { t \<leftarrow> run_ops upd t xs; run_ops upd t ys }"
  by (induction xs arbitrary: t) (simp_all add: Option.bind_assoc)

locale ordered_table =
  fixes invar :: "'t \<Rightarrow> bool"
    and entries :: "'t \<Rightarrow> (key \<times> 'v) list option"
    and get :: "'t \<Rightarrow> key \<Rightarrow> 'v option option"
    and upd :: "'t \<Rightarrow> 'o \<Rightarrow> 't option"
    and op_key :: "'o \<Rightarrow> key"
    and op_value :: "'o \<Rightarrow> 'v"
  assumes entries_sorted: "invar t \<Longrightarrow> \<exists>es. entries t = Some es \<and> sorted_wrt (<) (map fst es)"
    and get_entries: "invar t \<Longrightarrow> entries t = Some es \<Longrightarrow> get t k = Some (map_of es k)"
    and upd_entries: "invar t \<Longrightarrow> entries t = Some es \<Longrightarrow>
      \<exists>t'. upd t x = Some t' \<and> invar t' \<and> entries t' = Some (ordered_put (op_key x) (op_value x) es)"
begin

lemma get_upd:
  assumes "invar t" "upd t x = Some t'"
  shows "invar t' \<and> get t' k = (if k = op_key x then Some (Some (op_value x)) else get t k)"
proof -
  obtain es where es: "entries t = Some es" "sorted_wrt (<) (map fst es)"
    using entries_sorted [OF assms(1)] by auto
  from upd_entries [OF assms(1) es(1), of x] assms(2)
  have t': "invar t'" "entries t' = Some (ordered_put (op_key x) (op_value x) es)" by auto
  then show ?thesis
    using es assms(1) by (simp add: get_entries [OF t'] get_entries [OF assms(1) es(1)] map_of_ordered_put)
qed

lemma run_ops_ok:
  assumes "invar t" "entries t = Some es"
  shows "\<exists>t'. run_ops upd t xs = Some t' \<and> invar t'
     \<and> entries t' = Some (fold (\<lambda>x. ordered_put (op_key x) (op_value x)) xs es)"
  using assms
proof (induction xs arbitrary: t es)
  case (Cons x xs)
  obtain t' where "upd t x = Some t'" "invar t'" "entries t' = Some (ordered_put (op_key x) (op_value x) es)"
    using upd_entries [OF Cons.prems] by auto
  with Cons.IH show ?case by simp
qed simp

lemma get_run_ops:
  assumes "invar t" "run_ops upd t xs = Some t'"
  shows "invar t' \<and> get t' k = (case last_write op_key op_value xs k of Some v \<Rightarrow> Some (Some v) | None \<Rightarrow> get t k)"
  using assms(2)
proof (induction xs arbitrary: t' rule: rev_induct)
  case Nil
  with assms(1) show ?case by simp
next
  case (snoc x xs)
  then obtain t1 where "run_ops upd t xs = Some t1" "upd t1 x = Some t'"
    by (auto simp: run_ops_append split: bind_splits)
  with snoc.IH get_upd [of t1 x t' k] show ?case by auto
qed

lemma run_ops_summary:
  assumes "invar t"
  shows "\<exists>t' es. run_ops upd t xs = Some t' \<and> invar t' \<and> entries t' = Some es
     \<and> sorted_wrt (<) (map fst es) \<and> (\<forall>k. get t' k = Some (map_of es k))
     \<and> (\<forall>k. get t' k = (case last_write op_key op_value xs k of Some v \<Rightarrow> Some (Some v) | None \<Rightarrow> get t k))"
proof -
  obtain es where "entries t = Some es" using entries_sorted [OF assms] by auto
  from run_ops_ok [OF assms this] obtain t' where t': "run_ops upd t xs = Some t'" "invar t'" by auto
  obtain es' where "entries t' = Some es'" "sorted_wrt (<) (map fst es')" using entries_sorted [OF t'(2)] by auto
  with t' get_entries [OF t'(2)] get_run_ops [OF assms t'(1)] show ?thesis by blast
qed

end

end
