(* ===== verification/Skip_List.thy ===== *)
theory Skip_List
  imports Ordered_Table
begin

text \<open>
  \<^verbatim>\<open>src/storage/memtable/skip_list.{h,cpp}\<close>: the pointer structure itself. Nodes live in an
  explicit store from addresses to node records, a null pointer is \<^const>\<open>None\<close>, and every
  dereference is checked: an operation returns \<^const>\<open>None\<close> where the C++ code would follow a
  dangling pointer, index past the end of a \<^verbatim>\<open>forward\<close> vector or loop forever.

  The pseudo-random generator is the sequence of its outputs, \<open>mt\<close>, an argument of the two
  writing operations; the list keeps how many outputs it has consumed. Every theorem holds for
  every sequence. Each operation runs under the list's lock and is one step here.
\<close>

subsection \<open>Nodes\<close>

record SkipListValue =
  is_tombstone :: bool
  slv_data :: bytes

type_synonym addr = nat

record SkipListNode =
  nd_key :: key
  nd_value :: SkipListValue
  nd_forward :: "addr option list"

type_synonym heap = "addr \<rightharpoonup> SkipListNode"

record SkipList =
  sl_heap :: heap
  sl_head :: addr
  sl_max_height :: nat
  sl_rnd :: nat
  sl_memory_usage :: nat
  sl_fresh :: addr

definition kMaxHeight :: nat where "kMaxHeight = 12"

text \<open>Object sizes of the x86-64 ABI with libstdc++, which the memory accounting uses.\<close>

definition sizeof_SkipList :: nat where "sizeof_SkipList = 5080"
definition sizeof_SkipListNode :: nat where "sizeof_SkipListNode = 88"
definition sizeof_pointer :: nat where "sizeof_pointer = 8"

definition new_node :: "key \<Rightarrow> SkipListValue \<Rightarrow> nat \<Rightarrow> SkipListNode" where
  "new_node k v height = \<lparr>nd_key = k, nd_value = v, nd_forward = replicate height None\<rparr>"

definition SkipList_new :: SkipList where
  "SkipList_new =
     \<lparr>sl_heap = [0 \<mapsto> new_node [] \<lparr>is_tombstone = False, slv_data = []\<rparr> kMaxHeight],
      sl_head = 0, sl_max_height = 1, sl_rnd = 0,
      sl_memory_usage = sizeof_SkipList + sizeof_SkipListNode + kMaxHeight * sizeof_pointer,
      sl_fresh = 1\<rparr>"

subsection \<open>Access to the store\<close>

definition read_fwd :: "heap \<Rightarrow> addr \<Rightarrow> nat \<Rightarrow> addr option option" where
  "read_fwd h a i = (case h a of None \<Rightarrow> None
     | Some n \<Rightarrow> if i < length (nd_forward n) then Some (nd_forward n ! i) else None)"

definition write_fwd :: "heap \<Rightarrow> addr \<Rightarrow> nat \<Rightarrow> addr option \<Rightarrow> heap option" where
  "write_fwd h a i p = (case h a of None \<Rightarrow> None
     | Some n \<Rightarrow> if i < length (nd_forward n)
                then Some (h(a \<mapsto> n\<lparr>nd_forward := (nd_forward n)[i := p]\<rparr>)) else None)"

subsection \<open>Search\<close>

text \<open>The inner loop: move right on level \<open>i\<close> while the next key is smaller.\<close>

partial_function (option) advance :: "heap \<Rightarrow> key \<Rightarrow> nat \<Rightarrow> addr \<Rightarrow> addr option" where
  "advance h k i cur =
     (case read_fwd h cur i of
        None \<Rightarrow> None
      | Some None \<Rightarrow> Some cur
      | Some (Some nxt) \<Rightarrow>
          (case h nxt of
             None \<Rightarrow> None
           | Some n \<Rightarrow> if nd_key n < k then advance h k i nxt else Some cur))"

text \<open>The outer loop, from level \<open>n - 1\<close> down to 0, recording the last node of each level.\<close>

fun descend :: "heap \<Rightarrow> key \<Rightarrow> nat \<Rightarrow> addr \<Rightarrow> addr option list \<Rightarrow> (addr \<times> addr option list) option" where
  "descend h k 0 cur update = Some (cur, update)"
| "descend h k (Suc i) cur update =
     do { cur \<leftarrow> advance h k i cur; descend h k i cur (update[i := Some cur]) }"

definition find_path :: "SkipList \<Rightarrow> key \<Rightarrow> (addr \<times> addr option list) option" where
  "find_path sl k = descend (sl_heap sl) k (sl_max_height sl) (sl_head sl) (replicate kMaxHeight None)"

subsection \<open>Insertion of a node\<close>

function RandomHeight_loop :: "(nat \<Rightarrow> u32) \<Rightarrow> nat \<Rightarrow> nat \<Rightarrow> nat \<times> nat" where
  "RandomHeight_loop mt height rnd =
     (if height < kMaxHeight
      then if mt rnd mod 4 = 0 then RandomHeight_loop mt (height + 1) (rnd + 1)
           else (height, rnd + 1)
      else (height, rnd))"
  by pat_completeness auto
termination
  by (relation "measure (\<lambda>(_, height, _). kMaxHeight - height)") auto

declare RandomHeight_loop.simps [simp del]

definition RandomHeight :: "(nat \<Rightarrow> u32) \<Rightarrow> nat \<Rightarrow> nat \<times> nat" where
  "RandomHeight mt rnd = RandomHeight_loop mt 1 rnd"

text \<open>\<^verbatim>\<open>for (i = max_height_; i < height; i++) update[i] = head_\<close>\<close>

definition raise_update :: "addr \<Rightarrow> nat \<Rightarrow> nat \<Rightarrow> addr option list \<Rightarrow> addr option list" where
  "raise_update head low height update = fold (\<lambda>i u. u[i := Some head]) [low ..< height] update"

fun link_levels :: "addr \<Rightarrow> addr option list \<Rightarrow> nat list \<Rightarrow> heap \<Rightarrow> heap option" where
  "link_levels nn update [] h = Some h"
| "link_levels nn update (i # is) h =
     do { u \<leftarrow> update ! i;
          nxt \<leftarrow> read_fwd h u i;
          h \<leftarrow> write_fwd h nn i nxt;
          h \<leftarrow> write_fwd h u i (Some nn);
          link_levels nn update is h }"

text \<open>The common tail of \<^verbatim>\<open>Put\<close> and \<^verbatim>\<open>Delete\<close> for an absent key. A tombstone has no
  data, so its data adds nothing to the memory accounting.\<close>

definition insert_node ::
  "(nat \<Rightarrow> u32) \<Rightarrow> SkipList \<Rightarrow> addr option list \<Rightarrow> key \<Rightarrow> SkipListValue \<Rightarrow> SkipList option" where
  "insert_node mt sl update k v =
     (let (height, rnd) = RandomHeight mt (sl_rnd sl);
          update = (if height > sl_max_height sl
                    then raise_update (sl_head sl) (sl_max_height sl) height update else update);
          max_height = (if height > sl_max_height sl then height else sl_max_height sl);
          nn = sl_fresh sl
      in do { h \<leftarrow> link_levels nn update [0 ..< height] ((sl_heap sl)(nn \<mapsto> new_node k v height));
              Some (sl\<lparr>sl_heap := h, sl_max_height := max_height, sl_rnd := rnd,
                       sl_memory_usage := sl_memory_usage sl + sizeof_SkipListNode + length k
                          + length (slv_data v) + height * sizeof_pointer,
                       sl_fresh := nn + 1\<rparr>) })"

subsection \<open>The operations\<close>

definition SkipList_Put :: "(nat \<Rightarrow> u32) \<Rightarrow> SkipList \<Rightarrow> key \<Rightarrow> bytes \<Rightarrow> SkipList option" where
  "SkipList_Put mt sl k v =
     do { (cur, update) \<leftarrow> find_path sl k;
          nxt \<leftarrow> read_fwd (sl_heap sl) cur 0;
          (case nxt of
             None \<Rightarrow> insert_node mt sl update k \<lparr>is_tombstone = False, slv_data = v\<rparr>
           | Some a \<Rightarrow>
               do { n \<leftarrow> sl_heap sl a;
                    if nd_key n = k
                    then Some (sl\<lparr>sl_heap := (sl_heap sl)(a \<mapsto>
                                   n\<lparr>nd_value := \<lparr>is_tombstone = False, slv_data = v\<rparr>\<rparr>),
                                  sl_memory_usage := sl_memory_usage sl
                                   - length (slv_data (nd_value n)) + length v\<rparr>)
                    else insert_node mt sl update k \<lparr>is_tombstone = False, slv_data = v\<rparr> }) }"

definition SkipList_Delete :: "(nat \<Rightarrow> u32) \<Rightarrow> SkipList \<Rightarrow> key \<Rightarrow> SkipList option" where
  "SkipList_Delete mt sl k =
     do { (cur, update) \<leftarrow> find_path sl k;
          nxt \<leftarrow> read_fwd (sl_heap sl) cur 0;
          (case nxt of
             None \<Rightarrow> insert_node mt sl update k \<lparr>is_tombstone = True, slv_data = []\<rparr>
           | Some a \<Rightarrow>
               do { n \<leftarrow> sl_heap sl a;
                    if nd_key n = k
                    then if \<not> is_tombstone (nd_value n)
                         then Some (sl\<lparr>sl_heap := (sl_heap sl)(a \<mapsto>
                                        n\<lparr>nd_value := \<lparr>is_tombstone = True, slv_data = []\<rparr>\<rparr>),
                                       sl_memory_usage := sl_memory_usage sl
                                        - length (slv_data (nd_value n))\<rparr>)
                         else Some sl
                    else insert_node mt sl update k \<lparr>is_tombstone = True, slv_data = []\<rparr> }) }"

text \<open>\<^verbatim>\<open>Get\<close>: the outer option is a fault, the inner one the \<^verbatim>\<open>bool\<close> with
  \<^verbatim>\<open>out_value\<close>.\<close>

fun descend_get :: "heap \<Rightarrow> key \<Rightarrow> nat \<Rightarrow> addr \<Rightarrow> addr option" where
  "descend_get h k 0 cur = Some cur"
| "descend_get h k (Suc i) cur = do { cur \<leftarrow> advance h k i cur; descend_get h k i cur }"

definition SkipList_Get :: "SkipList \<Rightarrow> key \<Rightarrow> SkipListValue option option" where
  "SkipList_Get sl k =
     do { cur \<leftarrow> descend_get (sl_heap sl) k (sl_max_height sl) (sl_head sl);
          nxt \<leftarrow> read_fwd (sl_heap sl) cur 0;
          (case nxt of
             None \<Rightarrow> Some None
           | Some a \<Rightarrow> do { n \<leftarrow> sl_heap sl a;
                           Some (if nd_key n = k then Some (nd_value n) else None) }) }"

definition SkipList_ApproximateMemoryUsage :: "SkipList \<Rightarrow> nat" where
  "SkipList_ApproximateMemoryUsage sl = sl_memory_usage sl"

definition SkipList_IsEmpty :: "SkipList \<Rightarrow> bool option" where
  "SkipList_IsEmpty sl = do { p \<leftarrow> read_fwd (sl_heap sl) (sl_head sl) 0; Some (p = None) }"

text \<open>An iterator is the current node pointer.\<close>

definition SkipList_Begin :: "SkipList \<Rightarrow> addr option option" where
  "SkipList_Begin sl = read_fwd (sl_heap sl) (sl_head sl) 0"

definition Iterator_Valid :: "addr option \<Rightarrow> bool" where
  "Iterator_Valid it \<longleftrightarrow> it \<noteq> None"

definition Iterator_Next :: "heap \<Rightarrow> addr option \<Rightarrow> addr option option" where
  "Iterator_Next h it = do { a \<leftarrow> it; read_fwd h a 0 }"

definition Iterator_Key :: "heap \<Rightarrow> addr option \<Rightarrow> key option" where
  "Iterator_Key h it = do { a \<leftarrow> it; n \<leftarrow> h a; Some (nd_key n) }"

definition Iterator_Value :: "heap \<Rightarrow> addr option \<Rightarrow> SkipListValue option" where
  "Iterator_Value h it = do { a \<leftarrow> it; n \<leftarrow> h a; Some (nd_value n) }"

text \<open>\<^verbatim>\<open>for (; iter.Valid(); iter.Next())\<close> collecting key and value, as the writer of
  sorted tables does.\<close>

partial_function (option) Iterator_drain ::
  "heap \<Rightarrow> addr option \<Rightarrow> (key \<times> SkipListValue) list option" where
  "Iterator_drain h it =
     (if \<not> Iterator_Valid it then Some []
      else do { k \<leftarrow> Iterator_Key h it;
                v \<leftarrow> Iterator_Value h it;
                it \<leftarrow> Iterator_Next h it;
                rest \<leftarrow> Iterator_drain h it;
                Some ((k, v) # rest) })"

definition SkipList_entries :: "SkipList \<Rightarrow> (key \<times> SkipListValue) list option" where
  "SkipList_entries sl = do { it \<leftarrow> SkipList_Begin sl; Iterator_drain (sl_heap sl) it }"

text \<open>The destructor: walk level 0 from the head and free every node.\<close>

partial_function (option) destroy_loop :: "heap \<Rightarrow> addr option \<Rightarrow> heap option" where
  "destroy_loop h current =
     (case current of
        None \<Rightarrow> Some h
      | Some a \<Rightarrow> do { nxt \<leftarrow> read_fwd h a 0; destroy_loop (h(a := None)) nxt })"

definition SkipList_destroy :: "SkipList \<Rightarrow> heap option" where
  "SkipList_destroy sl = destroy_loop (sl_heap sl) (Some (sl_head sl))"

text \<open>The two writing operations as one step, for sequences of writes.\<close>

datatype table_op = Put_op key bytes | Delete_op key

primrec op_key :: "table_op \<Rightarrow> key" where
  "op_key (Put_op k v) = k"
| "op_key (Delete_op k) = k"

primrec op_value :: "table_op \<Rightarrow> SkipListValue" where
  "op_value (Put_op k v) = \<lparr>is_tombstone = False, slv_data = v\<rparr>"
| "op_value (Delete_op k) = \<lparr>is_tombstone = True, slv_data = []\<rparr>"

primrec SkipList_apply :: "(nat \<Rightarrow> u32) \<Rightarrow> SkipList \<Rightarrow> table_op \<Rightarrow> SkipList option" where
  "SkipList_apply mt sl (Put_op k v) = SkipList_Put mt sl k v"
| "SkipList_apply mt sl (Delete_op k) = SkipList_Delete mt sl k"

subsection \<open>Chains of forward pointers\<close>

primrec chain :: "heap \<Rightarrow> nat \<Rightarrow> addr option \<Rightarrow> addr list \<Rightarrow> bool" where
  "chain h i p [] \<longleftrightarrow> p = None"
| "chain h i p (a # as) \<longleftrightarrow> p = Some a \<and> (\<exists>q. read_fwd h a i = Some q \<and> chain h i q as)"

definition hgt :: "heap \<Rightarrow> addr \<Rightarrow> nat" where
  "hgt h a = (case h a of None \<Rightarrow> 0 | Some n \<Rightarrow> length (nd_forward n))"

definition nkey :: "heap \<Rightarrow> addr \<Rightarrow> key" where
  "nkey h a = (case h a of None \<Rightarrow> [] | Some n \<Rightarrow> nd_key n)"

definition nval :: "heap \<Rightarrow> addr \<Rightarrow> SkipListValue" where
  "nval h a = (case h a of None \<Rightarrow> \<lparr>is_tombstone = False, slv_data = []\<rparr> | Some n \<Rightarrow> nd_value n)"

lemma read_fwd_Some_iff: "(\<exists>q. read_fwd h a i = Some q) \<longleftrightarrow> i < hgt h a"
  by (auto simp: read_fwd_def hgt_def split: option.splits)

lemma chain_cong:
  "(\<And>a. a \<in> set as \<Longrightarrow> read_fwd h' a i = read_fwd h a i) \<Longrightarrow> chain h' i p as = chain h i p as"
  by (induction as arbitrary: p) auto

lemma chain_suffix:
  "chain h i p (xs @ a # ys) \<Longrightarrow> \<exists>q. read_fwd h a i = Some q \<and> chain h i q ys"
  by (induction xs arbitrary: p) auto

text \<open>Walking a level stops at the last node whose key is smaller.\<close>

lemma advance_chain:
  assumes "read_fwd h cur i = Some q" and "chain h i q as" and "set as \<subseteq> dom h"
  shows "advance h k i cur = Some (last (cur # takeWhile (\<lambda>a. nkey h a < k) as))"
  using assms
proof (induction as arbitrary: cur q)
  case Nil
  then show ?case by (simp add: advance.simps [of h k i cur])
next
  case (Cons a as)
  from Cons.prems obtain q' n where "q = Some a" "read_fwd h a i = Some q'" "chain h i q' as" "h a = Some n"
    by auto
  with Cons show ?case
    by (simp add: advance.simps [of h k i cur] nkey_def)
qed

lemma takeWhile_filter_sorted:
  assumes "sorted_wrt (\<lambda>a b. f a < f b) xs"
  shows "takeWhile (\<lambda>a. f a < (k :: 'b::linorder)) xs = filter (\<lambda>a. f a < k) xs"
  using assms
proof (induction xs)
  case (Cons x xs)
  have "filter (\<lambda>a. f a < k) xs = []" if "\<not> f x < k"
    using Cons.prems that by (fastforce simp: filter_empty_conv)
  with Cons show ?case by simp
qed simp

lemma dropWhile_filter_sorted:
  assumes "sorted_wrt (\<lambda>a b. f a < f b) xs"
  shows "dropWhile (\<lambda>a. f a < (k :: 'b::linorder)) xs = filter (\<lambda>a. \<not> f a < k) xs"
  using assms
proof (induction xs)
  case (Cons x xs)
  have "filter (\<lambda>a. \<not> f a < k) xs = xs" if "\<not> f x < k"
    using Cons.prems that by (fastforce simp: filter_id_conv)
  with Cons show ?case by simp
qed simp

subsection \<open>The representation invariant\<close>

text \<open>\<open>sl_rep sl ns\<close>: the nodes of the list in order are \<open>ns\<close>; keys increase strictly;
  level \<open>i\<close> links exactly the nodes taller than \<open>i\<close>; nothing else is allocated.\<close>

definition sl_links :: "heap \<Rightarrow> addr \<Rightarrow> addr list \<Rightarrow> bool" where
  "sl_links h head ns \<longleftrightarrow>
     (\<forall>i < kMaxHeight. \<exists>q. read_fwd h head i = Some q \<and> chain h i q (filter (\<lambda>a. i < hgt h a) ns))"

definition sl_rep :: "SkipList \<Rightarrow> addr list \<Rightarrow> bool" where
  "sl_rep sl ns \<longleftrightarrow>
     distinct (sl_head sl # ns) \<and> dom (sl_heap sl) = set (sl_head sl # ns)
   \<and> (\<forall>a \<in> dom (sl_heap sl). a < sl_fresh sl)
   \<and> hgt (sl_heap sl) (sl_head sl) = kMaxHeight
   \<and> 1 \<le> sl_max_height sl \<and> sl_max_height sl \<le> kMaxHeight
   \<and> (\<forall>a \<in> set ns. 1 \<le> hgt (sl_heap sl) a \<and> hgt (sl_heap sl) a \<le> sl_max_height sl)
   \<and> sorted_wrt (\<lambda>a b. nkey (sl_heap sl) a < nkey (sl_heap sl) b) ns
   \<and> sl_links (sl_heap sl) (sl_head sl) ns"

text \<open>The memory the nodes account for.\<close>

definition node_cost :: "heap \<Rightarrow> addr \<Rightarrow> nat" where
  "node_cost h a = sizeof_SkipListNode + length (nkey h a) + length (slv_data (nval h a))
     + hgt h a * sizeof_pointer"

definition sl_accounted :: "SkipList \<Rightarrow> addr list \<Rightarrow> bool" where
  "sl_accounted sl ns \<longleftrightarrow> sl_memory_usage sl =
     sizeof_SkipList + sizeof_SkipListNode + kMaxHeight * sizeof_pointer
     + sum_list (map (node_cost (sl_heap sl)) ns)"

text \<open>The predecessor of \<open>k\<close> on level \<open>i\<close>: the node an insertion links behind.\<close>

definition pred_at :: "heap \<Rightarrow> addr \<Rightarrow> addr list \<Rightarrow> key \<Rightarrow> nat \<Rightarrow> addr" where
  "pred_at h head ns k i = last (head # filter (\<lambda>a. i < hgt h a) (filter (\<lambda>a. nkey h a < k) ns))"

definition on_level :: "heap \<Rightarrow> addr \<Rightarrow> addr list \<Rightarrow> key \<Rightarrow> nat \<Rightarrow> addr \<Rightarrow> bool" where
  "on_level h head ns k i a \<longleftrightarrow> a = head \<or> (a \<in> set ns \<and> nkey h a < k \<and> i < hgt h a)"

lemma on_level_pred_at: "on_level h head ns k i (pred_at h head ns k i)"
proof -
  let ?xs = "filter (\<lambda>a. i < hgt h a) (filter (\<lambda>a. nkey h a < k) ns)"
  have "last (head # ?xs) \<in> set (head # ?xs)" by (rule last_in_set) simp
  then show ?thesis by (auto simp: on_level_def pred_at_def)
qed

lemma on_level_mono: "on_level h head ns k (Suc i) a \<Longrightarrow> on_level h head ns k i a"
  by (auto simp: on_level_def)

text \<open>Everything the level walk needs from the invariant.\<close>

lemma advance_level:
  assumes sorted: "sorted_wrt (\<lambda>a b. nkey h a < nkey h b) ns" and links: "sl_links h head ns"
    and dom: "set ns \<subseteq> dom h" and i: "i < kMaxHeight" and cur: "on_level h head ns k i cur"
  shows "advance h k i cur = Some (pred_at h head ns k i)"
proof -
  let ?L = "filter (\<lambda>a. i < hgt h a) ns" and ?P = "\<lambda>a. nkey h a < k"
  obtain q where q: "read_fwd h head i = Some q" "chain h i q ?L"
    using links i by (auto simp: sl_links_def)
  have srt: "sorted_wrt (\<lambda>a b. nkey h a < nkey h b) ?L"
    using sorted by (rule sorted_wrt_filter)
  have pred: "pred_at h head ns k i = last (head # takeWhile ?P ?L)"
    by (simp add: pred_at_def takeWhile_filter_sorted [OF srt] conj_commute)
  show ?thesis
  proof (cases "cur = head")
    case True
    moreover have "set ?L \<subseteq> dom h" using dom by auto
    ultimately show ?thesis using advance_chain [OF q, of k] by (simp add: pred)
  next
    case False
    with cur have "cur \<in> set ?L" and lt: "?P cur" by (auto simp: on_level_def)
    then obtain xs ys where L: "?L = xs @ cur # ys" by (meson split_list)
    with q obtain q' where q': "read_fwd h cur i = Some q'" "chain h i q' ys"
      using chain_suffix by metis
    have "\<forall>a \<in> set xs. ?P a"
      using srt lt by (auto simp: L sorted_wrt_append intro: less_trans)
    then have "takeWhile ?P ?L = xs @ cur # takeWhile ?P ys"
      using lt by (simp add: L)
    moreover have "set ys \<subseteq> dom h"
      using dom L by (metis (no_types, lifting) filter_is_subset set_append set_subset_Cons subset_trans sup.bounded_iff)
    ultimately show ?thesis
      using advance_chain [OF q', of k] by (simp add: pred)
  qed
qed

lemma descend_levels:
  assumes sorted: "sorted_wrt (\<lambda>a b. nkey h a < nkey h b) ns" and links: "sl_links h head ns"
    and dom: "set ns \<subseteq> dom h" and n: "n \<le> kMaxHeight" "length update = kMaxHeight"
    and cur: "0 < n \<Longrightarrow> on_level h head ns k (n - 1) cur"
  shows "\<exists>update'. descend h k n cur update
       = Some (if n = 0 then cur else pred_at h head ns k 0, update')
     \<and> length update' = kMaxHeight
     \<and> (\<forall>i < kMaxHeight. update' ! i = (if i < n then Some (pred_at h head ns k i) else update ! i))"
  using n cur
proof (induction n arbitrary: cur update)
  case (Suc n)
  let ?c = "pred_at h head ns k n"
  have adv: "advance h k n cur = Some ?c"
    using Suc.prems by (intro advance_level [OF sorted links dom]) simp_all
  have "on_level h head ns k (n - 1) ?c" if "0 < n"
    using on_level_pred_at [of h head ns k n] that by (cases n) (auto dest: on_level_mono)
  with Suc.IH [of "update[n := Some ?c]" ?c] Suc.prems
  obtain update' where "descend h k n ?c (update[n := Some ?c])
       = Some (if n = 0 then ?c else pred_at h head ns k 0, update')"
     "length update' = kMaxHeight"
     "\<forall>i < kMaxHeight. update' ! i = (if i < n then Some (pred_at h head ns k i) else update[n := Some ?c] ! i)"
    by auto
  with adv Suc.prems show ?case
    by (intro exI [of _ update']) (auto simp: nth_list_update less_Suc_eq)
qed simp

lemma descend_get_descend: "descend_get h k n cur = map_option fst (descend h k n cur update)"
  by (induction n arbitrary: cur update) (auto split: bind_splits simp: bind_eq_None_conv)

subsection \<open>Linking a new node\<close>

definition shape :: "heap \<Rightarrow> addr \<Rightarrow> (key \<times> SkipListValue \<times> nat) option" where
  "shape h a = map_option (\<lambda>n. (nd_key n, nd_value n, length (nd_forward n))) (h a)"

lemma observers_shape:
  "hgt h a = (case shape h a of None \<Rightarrow> 0 | Some (k, v, n) \<Rightarrow> n)"
  "nkey h a = (case shape h a of None \<Rightarrow> [] | Some (k, v, n) \<Rightarrow> k)"
  "nval h a = (case shape h a of None \<Rightarrow> \<lparr>is_tombstone = False, slv_data = []\<rparr> | Some (k, v, n) \<Rightarrow> v)"
  "dom h = {a. shape h a \<noteq> None}"
  by (simp_all add: shape_def hgt_def nkey_def nval_def dom_def split: option.splits)

lemma shape_observers:
  assumes "shape h' = shape h"
  shows "hgt h' = hgt h" "nkey h' = nkey h" "nval h' = nval h" "dom h' = dom h"
  by (simp_all add: fun_eq_iff observers_shape assms)

lemma write_fwd_ok:
  assumes "i < hgt h a"
  shows "\<exists>h'. write_fwd h a i p = Some h' \<and> shape h' = shape h
    \<and> (\<forall>b j. read_fwd h' b j = (if b = a \<and> j = i then Some p else read_fwd h b j))"
proof -
  from assms obtain n where n: "h a = Some n" "i < length (nd_forward n)"
    by (auto simp: hgt_def split: option.splits)
  let ?h = "h(a \<mapsto> n\<lparr>nd_forward := (nd_forward n)[i := p]\<rparr>)"
  have "write_fwd h a i p = Some ?h" using n by (simp add: write_fwd_def)
  moreover have "shape ?h = shape h" using n by (simp add: shape_def fun_eq_iff)
  moreover have "read_fwd ?h b j = (if b = a \<and> j = i then Some p else read_fwd h b j)" for b j
    using n by (simp add: read_fwd_def)
  ultimately show ?thesis by blast
qed

lemma link_levels_ok:
  assumes "distinct is" and "\<forall>i \<in> set is. update ! i = Some (u i) \<and> u i \<noteq> nn \<and> i < hgt h (u i) \<and> i < hgt h nn"
  shows "\<exists>h'. link_levels nn update is h = Some h' \<and> shape h' = shape h
    \<and> (\<forall>a i. read_fwd h' a i = (if i \<in> set is \<and> a = nn then read_fwd h (u i) i
                              else if i \<in> set is \<and> a = u i then Some (Some nn) else read_fwd h a i))"
  using assms
proof (induction "is" arbitrary: h)
  case (Cons i "is")
  then obtain nxt where nxt: "read_fwd h (u i) i = Some nxt" using read_fwd_Some_iff [of h "u i" i] by auto
  obtain h1 where h1: "write_fwd h nn i nxt = Some h1" "shape h1 = shape h"
    "\<And>b j. read_fwd h1 b j = (if b = nn \<and> j = i then Some nxt else read_fwd h b j)"
    using write_fwd_ok [of i h nn nxt] Cons.prems by auto
  obtain h2 where h2: "write_fwd h1 (u i) i (Some nn) = Some h2" "shape h2 = shape h1"
    "\<And>b j. read_fwd h2 b j = (if b = u i \<and> j = i then Some (Some nn) else read_fwd h1 b j)"
    using write_fwd_ok [of i h1 "u i" "Some nn"] Cons.prems shape_observers(1) [OF h1(2)] by auto
  have "hgt h2 = hgt h" using shape_observers(1) [OF h1(2)] shape_observers(1) [OF h2(2)] by simp
  with Cons.prems Cons.IH [of h2] obtain h' where h': "link_levels nn update is h2 = Some h'"
    "shape h' = shape h2"
    "\<And>a j. read_fwd h' a j = (if j \<in> set is \<and> a = nn then read_fwd h2 (u j) j
                              else if j \<in> set is \<and> a = u j then Some (Some nn) else read_fwd h2 a j)"
    by auto
  have "read_fwd h' a j = (if j \<in> set (i # is) \<and> a = nn then read_fwd h (u j) j
       else if j \<in> set (i # is) \<and> a = u j then Some (Some nn) else read_fwd h a j)" for a j
    using Cons.prems nxt by (cases "j = i") (auto simp: h'(3) h2(3) h1(3))
  with nxt h1 h2 h' Cons.prems show ?case by simp
qed simp

lemma chain_insert:
  assumes "read_fwd h a i = Some q" "chain h i q (lo @ hi)" "distinct (a # lo @ hi)" "nn \<notin> set (a # lo @ hi)"
    and new: "\<And>b. read_fwd h' b i = (if b = nn then read_fwd h (last (a # lo)) i
                  else if b = last (a # lo) then Some (Some nn) else read_fwd h b i)"
  shows "\<exists>q'. read_fwd h' a i = Some q' \<and> chain h' i q' (lo @ nn # hi)"
  using assms
proof (induction lo arbitrary: a q)
  case Nil
  then have "chain h' i q hi = chain h i q hi" by (intro chain_cong) auto
  with Nil show ?case by auto
next
  case (Cons b lo)
  then obtain q2 where q2: "q = Some b" "read_fwd h b i = Some q2" "chain h i q2 (lo @ hi)" by auto
  then have "\<exists>q'. read_fwd h' b i = Some q' \<and> chain h' i q' (lo @ nn # hi)"
    using Cons.prems by (intro Cons.IH [of b q2]) auto
  moreover have "last (b # lo) \<noteq> a"
    using Cons.prems(3) last_in_set [of "b # lo"] by (metis Un_iff distinct.simps(2) list.distinct(1) set_append append_Cons)
  ultimately show ?case
    using Cons.prems q2 by auto
qed

lemma RandomHeight_loop_bounds:
  "1 \<le> height \<Longrightarrow> height \<le> kMaxHeight \<Longrightarrow>
   1 \<le> fst (RandomHeight_loop mt height rnd) \<and> fst (RandomHeight_loop mt height rnd) \<le> kMaxHeight"
proof (induction mt height rnd rule: RandomHeight_loop.induct)
  case (1 mt height rnd)
  then show ?case by (subst (1 2) RandomHeight_loop.simps) auto
qed

lemma RandomHeight_bounds:
  "RandomHeight mt rnd = (height, rnd') \<Longrightarrow> 1 \<le> height \<and> height \<le> kMaxHeight"
  using RandomHeight_loop_bounds [of 1 mt rnd] by (simp add: RandomHeight_def kMaxHeight_def)

lemma raise_update_nth:
  "height \<le> length update \<Longrightarrow>
   length (raise_update head low height update) = length update
   \<and> (\<forall>i < length update. raise_update head low height update ! i
         = (if low \<le> i \<and> i < height then Some head else update ! i))"
  unfolding raise_update_def
proof (induction "height")
  case (Suc n)
  then show ?case by (cases "low \<le> n") (auto simp: nth_list_update less_Suc_eq)
qed simp

subsection \<open>Insertion keeps the representation\<close>

definition sl_abs :: "SkipList \<Rightarrow> addr list \<Rightarrow> (key \<times> SkipListValue) list" where
  "sl_abs sl ns = map (\<lambda>a. (nkey (sl_heap sl) a, nval (sl_heap sl) a)) ns"

definition below :: "heap \<Rightarrow> key \<Rightarrow> addr list \<Rightarrow> addr list" where
  "below h k ns = filter (\<lambda>a. nkey h a < k) ns"

definition not_below :: "heap \<Rightarrow> key \<Rightarrow> addr list \<Rightarrow> addr list" where
  "not_below h k ns = filter (\<lambda>a. \<not> nkey h a < k) ns"

lemma below_above:
  assumes "sorted_wrt (\<lambda>a b. nkey h a < nkey h b) ns"
  shows "ns = below h k ns @ not_below h k ns"
  unfolding below_def not_below_def
  by (simp flip: takeWhile_filter_sorted [OF assms] dropWhile_filter_sorted [OF assms])

text \<open>The vector \<^verbatim>\<open>update\<close> after the search and the raise.\<close>

definition update_ok :: "heap \<Rightarrow> addr \<Rightarrow> addr list \<Rightarrow> key \<Rightarrow> nat \<Rightarrow> addr option list \<Rightarrow> bool" where
  "update_ok h head ns k n update \<longleftrightarrow>
     length update = kMaxHeight \<and> (\<forall>i < n. update ! i = Some (pred_at h head ns k i))"

lemma find_path_ok:
  assumes "sl_rep sl ns"
  shows "\<exists>update. find_path sl k = Some (pred_at (sl_heap sl) (sl_head sl) ns k 0, update)
    \<and> update_ok (sl_heap sl) (sl_head sl) ns k (sl_max_height sl) update"
proof -
  have r: "sorted_wrt (\<lambda>a b. nkey (sl_heap sl) a < nkey (sl_heap sl) b) ns" "sl_links (sl_heap sl) (sl_head sl) ns"
    "set ns \<subseteq> dom (sl_heap sl)" "sl_max_height sl \<le> kMaxHeight" "sl_max_height sl \<noteq> 0"
    using assms by (auto simp: sl_rep_def)
  show ?thesis
    using descend_levels [OF r(1-4), of "replicate kMaxHeight None" k "sl_head sl"] r(4,5)
    by (auto simp: find_path_def on_level_def update_ok_def)
qed

lemma raise_update_ok:
  assumes rep: "sl_rep sl ns" and height: "height \<le> kMaxHeight"
    and up: "update_ok (sl_heap sl) (sl_head sl) ns k (sl_max_height sl) update"
  shows "update_ok (sl_heap sl) (sl_head sl) ns k height
     (if height > sl_max_height sl then raise_update (sl_head sl) (sl_max_height sl) height update else update)"
proof -
  have "pred_at (sl_heap sl) (sl_head sl) ns k i = sl_head sl" if "sl_max_height sl \<le> i" for i
    using rep that by (fastforce simp: pred_at_def sl_rep_def filter_empty_conv)
  with up height raise_update_nth [of height update "sl_head sl" "sl_max_height sl"] show ?thesis
    by (auto simp: update_ok_def)
qed

text \<open>The links of every level after a node has been spliced in.\<close>

lemma sl_links_insert:
  assumes links: "sl_links h head ns" and sorted: "sorted_wrt (\<lambda>a b. nkey h a < nkey h b) ns"
    and fresh: "distinct (head # ns)" "nn \<notin> set (head # ns)"
    and hgt: "hgt h' nn = height" "\<And>a. a \<in> set ns \<Longrightarrow> hgt h' a = hgt h a"
    and rd: "\<And>a i. i < kMaxHeight \<Longrightarrow> read_fwd h' a i =
        (if i < height \<and> a = nn then read_fwd h (pred_at h head ns k i) i
         else if i < height \<and> a = pred_at h head ns k i then Some (Some nn) else if a = nn then None else read_fwd h a i)"
  shows "sl_links h' head (below h k ns @ nn # not_below h k ns)"
  unfolding sl_links_def
proof (intro allI impI)
  fix i assume i: "i < kMaxHeight"
  let ?F = "filter (\<lambda>a. i < hgt h a)" and ?lo = "below h k ns" and ?hi = "not_below h k ns"
  have ns: "ns = ?lo @ ?hi" by (rule below_above [OF sorted])
  obtain q where q: "read_fwd h head i = Some q" "chain h i q (?F ?lo @ ?F ?hi)"
    using links i ns by (metis sl_links_def filter_append)
  have sub: "set ?lo \<subseteq> set ns" "set ?hi \<subseteq> set ns" by (auto simp: below_def not_below_def)
  have "filter (\<lambda>a. i < hgt h' a) xs = ?F xs" if "set xs \<subseteq> set ns" for xs
    using that hgt(2) by (intro filter_cong) auto
  with sub hgt(1) have F: "filter (\<lambda>a. i < hgt h' a) (?lo @ nn # ?hi)
      = (if i < height then ?F ?lo @ nn # ?F ?hi else ?F ?lo @ ?F ?hi)" by simp
  have pred: "pred_at h head ns k i = last (head # ?F ?lo)" by (simp add: pred_at_def below_def)
  have dist: "distinct (head # ?F ?lo @ ?F ?hi)" "nn \<notin> set (head # ?F ?lo @ ?F ?hi)"
    using fresh sub ns by (metis (no_types, lifting) distinct.simps(2) distinct_filter filter_append filter_is_subset subsetD)
       (use fresh sub in auto)
  show "\<exists>q. read_fwd h' head i = Some q \<and> chain h' i q (filter (\<lambda>a. i < hgt h' a) (?lo @ nn # ?hi))"
  proof (cases "i < height")
    case True
    have "\<exists>q'. read_fwd h' head i = Some q' \<and> chain h' i q' (?F ?lo @ nn # ?F ?hi)"
      by (rule chain_insert [OF q dist]) (use True in \<open>simp add: rd [OF i] pred\<close>)
    with True F show ?thesis by simp
  next
    case False
    have "chain h' i q (?F ?lo @ ?F ?hi) = chain h i q (?F ?lo @ ?F ?hi)"
      using False dist by (intro chain_cong) (auto simp: rd [OF i])
    with False F q dist show ?thesis by (auto simp: rd [OF i])
  qed
qed

lemma new_node_observers:
  "hgt (h(nn \<mapsto> new_node k v n)) a = (if a = nn then n else hgt h a)"
  "nkey (h(nn \<mapsto> new_node k v n)) a = (if a = nn then k else nkey h a)"
  "nval (h(nn \<mapsto> new_node k v n)) a = (if a = nn then v else nval h a)"
  "i < n \<or> a \<noteq> nn \<Longrightarrow> read_fwd (h(nn \<mapsto> new_node k v n)) a i = (if a = nn then Some None else read_fwd h a i)"
  by (auto simp: hgt_def nkey_def nval_def read_fwd_def new_node_def)

lemma read_fwd_hgt_None: "hgt h a \<le> i \<Longrightarrow> read_fwd h a i = None"
  using read_fwd_Some_iff [of h a i] by (cases "read_fwd h a i") auto

lemma link_levels_new_node:
  assumes rep: "sl_rep sl ns" and height: "height \<le> kMaxHeight"
    and up: "update_ok (sl_heap sl) (sl_head sl) ns k height update"
  shows "\<exists>h'. link_levels (sl_fresh sl) update [0 ..< height] ((sl_heap sl)(sl_fresh sl \<mapsto> new_node k v height)) = Some h'
     \<and> shape h' = shape ((sl_heap sl)(sl_fresh sl \<mapsto> new_node k v height))
     \<and> sl_links h' (sl_head sl) (below (sl_heap sl) k ns @ sl_fresh sl # not_below (sl_heap sl) k ns)"
proof -
  let ?h = "sl_heap sl" and ?nn = "sl_fresh sl" and ?head = "sl_head sl"
  let ?hn = "?h(?nn \<mapsto> new_node k v height)" and ?u = "pred_at ?h ?head ns k"
  have fresh: "?nn \<notin> set (?head # ns)"
    using rep by (auto simp: sl_rep_def)
  have u: "?u i \<noteq> ?nn \<and> i < hgt ?h (?u i)" if "i < kMaxHeight" for i
    using on_level_pred_at [of ?h ?head ns k i] rep that fresh by (auto simp: on_level_def sl_rep_def)
  have "\<forall>i \<in> set [0 ..< height]. update ! i = Some (?u i) \<and> ?u i \<noteq> ?nn \<and> i < hgt ?hn (?u i) \<and> i < hgt ?hn ?nn"
    using u up height by (auto simp: update_ok_def new_node_observers)
  from link_levels_ok [OF _ this] obtain h' where h': "link_levels ?nn update [0 ..< height] ?hn = Some h'"
    "shape h' = shape ?hn"
    "\<And>a i. read_fwd h' a i = (if i < height \<and> a = ?nn then read_fwd ?hn (?u i) i
        else if i < height \<and> a = ?u i then Some (Some ?nn) else read_fwd ?hn a i)"
    by auto
  have none: "read_fwd ?hn ?nn i = None" if "\<not> i < height" for i
    using that by (intro read_fwd_hgt_None) (simp add: new_node_observers)
  have "sl_links h' ?head (below ?h k ns @ ?nn # not_below ?h k ns)"
  proof (rule sl_links_insert)
    show "hgt h' ?nn = height" "\<And>a. a \<in> set ns \<Longrightarrow> hgt h' a = hgt ?h a"
      using fresh by (auto simp: shape_observers [OF h'(2)] new_node_observers)
    fix a i assume "i < kMaxHeight"
    then show "read_fwd h' a i = (if i < height \<and> a = ?nn then read_fwd ?h (?u i) i
        else if i < height \<and> a = ?u i then Some (Some ?nn) else if a = ?nn then None else read_fwd ?h a i)"
      using u [of i] none by (auto simp: h'(3) new_node_observers)
  qed (use rep fresh in \<open>auto simp: sl_rep_def\<close>)
  with h' show ?thesis by blast
qed

lemma sorted_wrt_insert:
  assumes "sorted_wrt (\<lambda>a b. nkey h a < nkey h b) ns" "k \<notin> nkey h ` set ns"
    "nkey h' nn = k" "\<And>a. a \<in> set ns \<Longrightarrow> nkey h' a = nkey h a"
  shows "sorted_wrt (\<lambda>a b. nkey h' a < nkey h' b) (below h k ns @ nn # not_below h k ns)"
proof -
  have srt: "sorted_wrt (\<lambda>a b. nkey h' a < nkey h' b) (filter P ns)" for P
    using sorted_wrt_filter [OF assms(1), of P]
    by (rule sorted_wrt_mono_rel [rotated]) (auto simp: assms(4))
  have lt: "nkey h' a < k" if "a \<in> set (below h k ns)" for a using that assms(4) by (auto simp: below_def)
  have gt: "k < nkey h' a" if "a \<in> set (not_below h k ns)" for a
  proof -
    have "a \<in> set ns" "\<not> nkey h a < k" using that by (auto simp: not_below_def)
    moreover from this have "nkey h a \<noteq> k" using assms(2) by auto
    ultimately show ?thesis using assms(4) by simp
  qed
  show ?thesis
    using srt lt gt assms(3) less_trans [OF lt gt]
    by (simp add: sorted_wrt_append below_def [symmetric] not_below_def [symmetric])
       (simp add: below_def not_below_def)
qed

lemma set_below_above: "set (below h k ns) \<union> set (not_below h k ns) = set ns"
  "distinct ns \<Longrightarrow> distinct (below h k ns @ not_below h k ns)"
  by (auto simp: below_def not_below_def)

lemma insert_node_ok:
  assumes rep: "sl_rep sl ns" and acc: "sl_accounted sl ns" and absent: "k \<notin> nkey (sl_heap sl) ` set ns"
    and up: "update_ok (sl_heap sl) (sl_head sl) ns k (sl_max_height sl) update"
  shows "\<exists>sl'. insert_node mt sl update k v = Some sl' \<and>
     (let ns' = below (sl_heap sl) k ns @ sl_fresh sl # not_below (sl_heap sl) k ns in
        sl_rep sl' ns' \<and> sl_accounted sl' ns'
      \<and> sl_abs sl' ns' = sl_abs sl (below (sl_heap sl) k ns) @ (k, v) # sl_abs sl (not_below (sl_heap sl) k ns))"
proof -
  let ?h = "sl_heap sl" and ?nn = "sl_fresh sl" and ?head = "sl_head sl"
  let ?lo = "below ?h k ns" and ?hi = "not_below ?h k ns"
  obtain height rnd where ht: "RandomHeight mt (sl_rnd sl) = (height, rnd)" by force
  have hb: "1 \<le> height" "height \<le> kMaxHeight" using RandomHeight_bounds [OF ht] by auto
  let ?up = "if height > sl_max_height sl then raise_update ?head (sl_max_height sl) height update else update"
  let ?hn = "?h(?nn \<mapsto> new_node k v height)"
  have "update_ok ?h ?head ns k height ?up" by (rule raise_update_ok [OF rep hb(2) up])
  from link_levels_new_node [OF rep hb(2) this, of v] obtain h' where h':
    "link_levels ?nn ?up [0 ..< height] ?hn = Some h'" "shape h' = shape ?hn"
    "sl_links h' ?head (?lo @ ?nn # ?hi)" by blast
  note obs = shape_observers [OF h'(2)] new_node_observers
  have fresh: "?nn \<notin> set (?head # ns)" using rep by (auto simp: sl_rep_def)
  have fold: "set (?lo @ ?nn # ?hi) = insert ?nn (set ns)" using set_below_above(1) [of ?h k ns] by auto
  define sl' where "sl' = sl\<lparr>sl_heap := h', sl_max_height := max height (sl_max_height sl), sl_rnd := rnd,
     sl_memory_usage := sl_memory_usage sl + sizeof_SkipListNode + length k + length (slv_data v) + height * sizeof_pointer,
     sl_fresh := ?nn + 1\<rparr>"
  have ins: "insert_node mt sl update k v = Some sl'"
    using h'(1) by (simp add: insert_node_def ht sl'_def max_def)
  have same: "nkey h' a = nkey ?h a" "nval h' a = nval ?h a" "hgt h' a = hgt ?h a" if "a \<in> set (?head # ns)" for a
    using that fresh by (auto simp: obs)
  have reps: "sl_rep sl' (?lo @ ?nn # ?hi)"
    unfolding sl_rep_def
  proof (intro conjI)
    show "distinct (sl_head sl' # ?lo @ ?nn # ?hi)"
      using rep fresh fold set_below_above [where ns = ns] by (auto simp: sl'_def sl_rep_def)
    show "dom (sl_heap sl') = set (sl_head sl' # ?lo @ ?nn # ?hi)"
      using rep fold by (auto simp: sl'_def obs sl_rep_def)
    show "\<forall>a \<in> dom (sl_heap sl'). a < sl_fresh sl'"
      using rep by (auto simp: sl'_def obs sl_rep_def less_Suc_eq)
    show "hgt (sl_heap sl') (sl_head sl') = kMaxHeight"
      using rep by (simp add: sl'_def same sl_rep_def)
    show "1 \<le> sl_max_height sl'" "sl_max_height sl' \<le> kMaxHeight"
      using rep hb by (auto simp: sl'_def sl_rep_def)
    show "\<forall>a \<in> set (?lo @ ?nn # ?hi). 1 \<le> hgt (sl_heap sl') a \<and> hgt (sl_heap sl') a \<le> sl_max_height sl'"
      using rep hb by (auto simp: fold sl'_def obs sl_rep_def simp del: set_append)
    show "sorted_wrt (\<lambda>a b. nkey (sl_heap sl') a < nkey (sl_heap sl') b) (?lo @ ?nn # ?hi)"
      using rep absent by (intro sorted_wrt_insert) (auto simp: sl'_def same obs sl_rep_def)
    show "sl_links (sl_heap sl') (sl_head sl') (?lo @ ?nn # ?hi)"
      using h'(3) by (simp add: sl'_def)
  qed
  have sub: "set ?lo \<subseteq> set ns" "set ?hi \<subseteq> set ns" using set_below_above(1) by auto
  have cost: "map (node_cost h') xs = map (node_cost ?h) xs" if "set xs \<subseteq> set ns" for xs
    using that same by (auto simp: node_cost_def)
  have "sum_list (map (node_cost ?h) ns) = sum_list (map (node_cost ?h) ?lo) + sum_list (map (node_cost ?h) ?hi)"
    using below_above [of ?h ns k] rep by (metis map_append sum_list.append sl_rep_def)
  moreover have "node_cost h' ?nn = sizeof_SkipListNode + length k + length (slv_data v) + height * sizeof_pointer"
    by (simp add: node_cost_def obs)
  ultimately have "sl_accounted sl' (?lo @ ?nn # ?hi)"
    using acc cost [OF sub(1)] cost [OF sub(2)] by (simp add: sl_accounted_def sl'_def del: map_eq_conv)
  moreover have abs: "sl_abs sl' xs = sl_abs sl xs" if "set xs \<subseteq> set ns" for xs
    using that same by (auto simp: sl_abs_def sl'_def)
  have "sl_abs sl' (?lo @ ?nn # ?hi) = sl_abs sl ?lo @ (k, v) # sl_abs sl ?hi"
    using abs [OF sub(1)] abs [OF sub(2)] by (simp add: sl_abs_def sl'_def obs)
  ultimately show ?thesis
    using ins reps by (simp add: Let_def)
qed

subsection \<open>The operations refine an ordered association list\<close>

text \<open>The abstract value of a list is what its iterator enumerates. Tombstones carry no data.\<close>

definition tombs_empty :: "(key \<times> SkipListValue) list \<Rightarrow> bool" where
  "tombs_empty es \<longleftrightarrow> (\<forall>e \<in> set es. is_tombstone (snd e) \<longrightarrow> slv_data (snd e) = [])"

definition SkipList_wf :: "SkipList \<Rightarrow> bool" where
  "SkipList_wf sl \<longleftrightarrow> (\<exists>ns. sl_rep sl ns \<and> sl_accounted sl ns \<and> tombs_empty (sl_abs sl ns))"

lemma Iterator_drain_chain:
  assumes "chain h 0 p as" "set as \<subseteq> dom h"
  shows "Iterator_drain h p = Some (map (\<lambda>a. (nkey h a, nval h a)) as)"
  using assms
proof (induction as arbitrary: p)
  case Nil
  then show ?case by (simp add: Iterator_drain.simps [of h None] Iterator_Valid_def)
next
  case (Cons a as)
  then obtain q n where "p = Some a" "read_fwd h a 0 = Some q" "chain h 0 q as" "h a = Some n" by auto
  with Cons show ?case
    by (simp add: Iterator_drain.simps [of h "Some a"] Iterator_Valid_def Iterator_Key_def Iterator_Value_def
        Iterator_Next_def nkey_def nval_def)
qed

lemma sl_rep_level0:
  assumes "sl_rep sl ns"
  shows "\<exists>q. read_fwd (sl_heap sl) (sl_head sl) 0 = Some q \<and> chain (sl_heap sl) 0 q ns"
proof -
  have "filter (\<lambda>a. 0 < hgt (sl_heap sl) a) ns = ns"
    using assms by (auto simp: sl_rep_def filter_id_conv)
  moreover have "0 < kMaxHeight" by (simp add: kMaxHeight_def)
  ultimately show ?thesis using assms by (metis sl_rep_def sl_links_def)
qed

lemma SkipList_entries_rep:
  assumes "sl_rep sl ns"
  shows "SkipList_entries sl = Some (sl_abs sl ns)"
proof -
  obtain q where "read_fwd (sl_heap sl) (sl_head sl) 0 = Some q" "chain (sl_heap sl) 0 q ns"
    using sl_rep_level0 [OF assms] by auto
  moreover have "set ns \<subseteq> dom (sl_heap sl)" using assms by (auto simp: sl_rep_def)
  ultimately show ?thesis
    using Iterator_drain_chain by (simp add: SkipList_entries_def SkipList_Begin_def sl_abs_def)
qed

lemma pred_at_successor:
  assumes rep: "sl_rep sl ns"
  shows "read_fwd (sl_heap sl) (pred_at (sl_heap sl) (sl_head sl) ns k 0) 0
    = Some (case not_below (sl_heap sl) k ns of [] \<Rightarrow> None | a # _ \<Rightarrow> Some a)"
proof -
  let ?h = "sl_heap sl" and ?lo = "below (sl_heap sl) k ns" and ?hi = "not_below (sl_heap sl) k ns"
  have "filter (\<lambda>a. 0 < hgt ?h a) ?lo = ?lo"
    using rep by (auto simp: sl_rep_def filter_id_conv below_def intro!: filter_cong)
  then have pred: "pred_at ?h (sl_head sl) ns k 0 = last (sl_head sl # ?lo)"
    by (simp add: pred_at_def below_def)
  have ns: "ns = ?lo @ ?hi" using rep by (intro below_above) (simp add: sl_rep_def)
  obtain q where q: "read_fwd ?h (sl_head sl) 0 = Some q" "chain ?h 0 q (?lo @ ?hi)"
    using sl_rep_level0 [OF rep] ns by auto
  have "\<exists>q. read_fwd ?h (last (sl_head sl # ?lo)) 0 = Some q \<and> chain ?h 0 q ?hi"
  proof (cases ?lo rule: rev_cases)
    case Nil
    with q show ?thesis by simp
  next
    case (snoc xs a)
    with q chain_suffix [of ?h 0 q xs a ?hi] show ?thesis by simp
  qed
  then show ?thesis by (auto simp: pred split: list.split)
qed

lemma sl_abs_append [simp]: "sl_abs sl (xs @ ys) = sl_abs sl xs @ sl_abs sl ys"
  and sl_abs_Cons [simp]: "sl_abs sl (a # xs) = (nkey (sl_heap sl) a, nval (sl_heap sl) a) # sl_abs sl xs"
  and sl_abs_Nil [simp]: "sl_abs sl [] = []"
  by (simp_all add: sl_abs_def)

lemma sorted_keys_sl_abs: "sl_rep sl ns \<Longrightarrow> sorted_wrt (<) (map fst (sl_abs sl ns))"
  by (simp add: sl_rep_def sl_abs_def sorted_wrt_map comp_def)

lemma sl_abs_below: "sl_abs sl (below (sl_heap sl) k ns) = filter (\<lambda>e. fst e < k) (sl_abs sl ns)"
  by (simp add: sl_abs_def below_def filter_map comp_def)

lemma sl_abs_not_below: "sl_abs sl (not_below (sl_heap sl) k ns) = filter (\<lambda>e. \<not> fst e < k) (sl_abs sl ns)"
  by (simp add: sl_abs_def not_below_def filter_map comp_def)

text \<open>The two shapes of the suffix of keys not below \<open>k\<close>.\<close>

lemma not_below_hit:
  assumes rep: "sl_rep sl ns" and hit: "not_below (sl_heap sl) k ns = a # hi" "nkey (sl_heap sl) a = k"
  shows "ns = below (sl_heap sl) k ns @ a # hi" "map_of (sl_abs sl ns) k = Some (nval (sl_heap sl) a)"
    "ordered_put k v (sl_abs sl ns) = sl_abs sl (below (sl_heap sl) k ns) @ (k, v) # sl_abs sl hi"
proof -
  let ?h = "sl_heap sl"
  have srt: "sorted_wrt (\<lambda>a b. nkey ?h a < nkey ?h b) ns" using rep by (simp add: sl_rep_def)
  show ns: "ns = below ?h k ns @ a # hi" using below_above [OF srt, of k] hit(1) by simp
  then have "sorted_wrt (\<lambda>a b. nkey ?h a < nkey ?h b) (below ?h k ns @ a # hi)" using srt by simp
  then have gt: "\<forall>b \<in> set hi. k < nkey ?h b" using hit(2) by (simp add: sorted_wrt_append)
  have lt: "\<forall>b \<in> set (below ?h k ns). nkey ?h b < k" by (simp add: below_def)
  have "map_of (sl_abs sl (below ?h k ns)) k = None" by (auto simp: map_of_eq_None_iff sl_abs_below)
  then show "map_of (sl_abs sl ns) k = Some (nval ?h a)"
    by (subst ns) (simp add: hit(2) map_add_def)
  have "filter (\<lambda>e. k < fst e) (sl_abs sl (below ?h k ns @ a # hi)) = sl_abs sl hi"
    using gt lt hit(2) by (auto simp: sl_abs_def filter_empty_conv filter_id_conv dest: less_asym)
  with ns show "ordered_put k v (sl_abs sl ns) = sl_abs sl (below ?h k ns) @ (k, v) # sl_abs sl hi"
    by (metis ordered_put_def sl_abs_below)
qed

lemma not_below_miss:
  assumes rep: "sl_rep sl ns"
    and miss: "not_below (sl_heap sl) k ns = [] \<or> nkey (sl_heap sl) (hd (not_below (sl_heap sl) k ns)) \<noteq> k"
  shows "k \<notin> nkey (sl_heap sl) ` set ns"
proof
  let ?h = "sl_heap sl"
  assume "k \<in> nkey ?h ` set ns"
  then obtain a where "a \<in> set (not_below ?h k ns)" and k: "nkey ?h a = k" by (auto simp: not_below_def)
  then obtain b hi where hi: "not_below ?h k ns = b # hi" by (cases "not_below ?h k ns") auto
  with miss have "nkey ?h b \<noteq> k" by simp
  moreover have "\<not> nkey ?h b < k" using hi by (metis (mono_tags, lifting) filter_eq_Cons_iff not_below_def)
  moreover have "sorted_wrt (\<lambda>a b. nkey ?h a < nkey ?h b) (b # hi)"
    using rep hi by (metis not_below_def sl_rep_def sorted_wrt_filter)
  ultimately show False
    using \<open>a \<in> set (not_below ?h k ns)\<close> k by (auto simp: hi)
qed

lemma miss_abs:
  assumes rep: "sl_rep sl ns" and absent: "k \<notin> nkey (sl_heap sl) ` set ns"
  shows "map_of (sl_abs sl ns) k = None"
    "ordered_put k v (sl_abs sl ns)
      = sl_abs sl (below (sl_heap sl) k ns) @ (k, v) # sl_abs sl (not_below (sl_heap sl) k ns)"
proof -
  show "map_of (sl_abs sl ns) k = None"
    using absent by (auto simp: map_of_eq_None_iff sl_abs_def)
  have "(\<not> fst e < k) = (k < fst e)" if "e \<in> set (sl_abs sl ns)" for e
    using that absent by (auto simp: sl_abs_def)
  then have "filter (\<lambda>e. \<not> fst e < k) (sl_abs sl ns) = filter (\<lambda>e. k < fst e) (sl_abs sl ns)"
    by (intro filter_cong) auto
  then show "ordered_put k v (sl_abs sl ns)
      = sl_abs sl (below (sl_heap sl) k ns) @ (k, v) # sl_abs sl (not_below (sl_heap sl) k ns)"
    by (simp add: ordered_put_def sl_abs_below sl_abs_not_below)
qed

lemma set_value_ok:
  fixes v :: SkipListValue
  assumes rep: "sl_rep sl ns" and acc: "sl_accounted sl ns" and ns: "ns = lo @ a # hi"
    and n: "sl_heap sl a = Some n"
  defines "sl' \<equiv> sl\<lparr>sl_heap := (sl_heap sl)(a \<mapsto> n\<lparr>nd_value := v\<rparr>),
      sl_memory_usage := sl_memory_usage sl - length (slv_data (nd_value n)) + length (slv_data v)\<rparr>"
  shows "sl_rep sl' ns \<and> sl_accounted sl' ns
    \<and> sl_abs sl' ns = sl_abs sl lo @ (nkey (sl_heap sl) a, v) # sl_abs sl hi"
proof -
  let ?h = "sl_heap sl" and ?hv = "(sl_heap sl)(a \<mapsto> n\<lparr>nd_value := v\<rparr>)"
  have obs: "hgt ?hv = hgt ?h" "nkey ?hv = nkey ?h" "read_fwd ?hv = read_fwd ?h" "dom ?hv = dom ?h"
    "\<And>b. nval ?hv b = (if b = a then v else nval ?h b)"
    using n by (auto simp: fun_eq_iff hgt_def nkey_def nval_def read_fwd_def)
  have "chain ?hv = chain ?h"
  proof (intro ext)
    show "chain ?hv i p as = chain ?h i p as" for i p as by (intro chain_cong) (simp add: obs)
  qed
  then have links: "sl_links ?hv (sl_head sl) ns = sl_links ?h (sl_head sl) ns"
    by (simp add: sl_links_def obs)
  have notin: "a \<notin> set lo" "a \<notin> set hi" using rep ns by (auto simp: sl_rep_def)
  have "sl_rep sl' ns"
    using rep links obs by (simp add: sl_rep_def sl'_def)
  moreover have cost: "map (node_cost ?hv) xs = map (node_cost ?h) xs" if "a \<notin> set xs" for xs
    using that by (auto simp: node_cost_def obs)
  have "node_cost ?hv a + length (slv_data (nd_value n)) = node_cost ?h a + length (slv_data v)"
    "length (slv_data (nd_value n)) \<le> node_cost ?h a"
    using n by (simp_all add: node_cost_def obs nval_def)
  then have "sl_accounted sl' ns"
    using acc cost [OF notin(1)] cost [OF notin(2)] by (simp add: sl_accounted_def sl'_def ns del: map_eq_conv)
  moreover have "sl_abs sl' xs = sl_abs sl xs" if "a \<notin> set xs" for xs
    using that by (auto simp: sl_abs_def sl'_def obs)
  ultimately show ?thesis
    using notin by (simp add: ns) (simp add: sl'_def obs)
qed

text \<open>One write, whatever the operation: the search finds the node to change or the place to
  link a new one.\<close>

lemma tombs_empty_ordered_put:
  "tombs_empty es \<Longrightarrow> (is_tombstone v \<Longrightarrow> slv_data v = []) \<Longrightarrow> tombs_empty (ordered_put k v es)"
  by (auto simp: tombs_empty_def ordered_put_def)

lemma op_value_tombstone: "is_tombstone (op_value x) \<Longrightarrow> slv_data (op_value x) = []"
  by (cases x) simp_all

lemma SkipList_apply_miss:
  assumes rep: "sl_rep sl ns" and absent: "op_key x \<notin> nkey (sl_heap sl) ` set ns"
  shows "\<exists>update. SkipList_apply mt sl x = insert_node mt sl update (op_key x) (op_value x)
    \<and> update_ok (sl_heap sl) (sl_head sl) ns (op_key x) (sl_max_height sl) update"
proof -
  let ?h = "sl_heap sl" and ?k = "op_key x"
  obtain update where f: "find_path sl ?k = Some (pred_at ?h (sl_head sl) ns ?k 0, update)"
    and up: "update_ok ?h (sl_head sl) ns ?k (sl_max_height sl) update"
    using find_path_ok [OF rep] by blast
  note sc = pred_at_successor [OF rep, of ?k]
  show ?thesis
  proof (cases "not_below ?h ?k ns")
    case Nil
    with f up sc show ?thesis
      by (intro exI [of _ update]) (cases x; simp add: SkipList_Put_def SkipList_Delete_def)
  next
    case (Cons a hi)
    then have "a \<in> set (not_below ?h ?k ns)" by simp
    then have a: "a \<in> set ns" by (simp add: not_below_def)
    with rep have "a \<in> dom ?h" by (simp add: sl_rep_def)
    then obtain n where "?h a = Some n" by auto
    moreover from this have "nd_key n \<noteq> ?k" using a absent by (auto simp: nkey_def image_iff)
    ultimately have "?h a = Some n" "nd_key n \<noteq> ?k" .
    with f up sc Cons show ?thesis
      by (intro exI [of _ update]) (cases x; simp add: SkipList_Put_def SkipList_Delete_def)
  qed
qed

lemma SkipList_apply_hit:
  assumes rep: "sl_rep sl ns" and acc: "sl_accounted sl ns" and tombs: "tombs_empty (sl_abs sl ns)"
    and hit: "not_below (sl_heap sl) (op_key x) ns = a # hi" "nkey (sl_heap sl) a = op_key x"
  shows "\<exists>sl'. SkipList_apply mt sl x = Some sl' \<and> sl_rep sl' ns \<and> sl_accounted sl' ns
    \<and> sl_abs sl' ns = ordered_put (op_key x) (op_value x) (sl_abs sl ns)"
proof -
  let ?h = "sl_heap sl" and ?k = "op_key x"
  obtain update where f: "find_path sl ?k = Some (pred_at ?h (sl_head sl) ns ?k 0, update)"
    using find_path_ok [OF rep] by blast
  note sc = pred_at_successor [OF rep, of ?k]
  note split = not_below_hit [OF rep hit]
  have "a \<in> set ns" by (subst split(1)) simp
  then obtain n where n: "?h a = Some n" "nd_key n = ?k"
    using rep hit(2) by (auto simp: sl_rep_def nkey_def split: option.splits)
  note ok = set_value_ok [OF rep acc split(1) n(1), of "op_value x"]
  show ?thesis
  proof (cases "\<exists>k. x = Delete_op k \<and> is_tombstone (nd_value n)")
    case True
    then have "nval ?h a = op_value x"
      using n \<open>a \<in> set ns\<close> tombs by (cases "nd_value n") (auto simp: nval_def tombs_empty_def sl_abs_def)
    then have "sl_abs sl ns = ordered_put ?k (op_value x) (sl_abs sl ns)"
      using split(3) [of "op_value x"] hit(2) by (metis sl_abs_Cons sl_abs_append split(1))
    with True f sc n hit(1) rep acc show ?thesis
      by (auto simp: SkipList_Delete_def)
  next
    case False
    with f sc n hit ok split(3) show ?thesis
      by (cases x) (auto simp: SkipList_Put_def SkipList_Delete_def)
  qed
qed

lemma SkipList_apply_ok:
  assumes "SkipList_wf sl" and es: "SkipList_entries sl = Some es"
  shows "\<exists>sl'. SkipList_apply mt sl x = Some sl' \<and> SkipList_wf sl'
    \<and> SkipList_entries sl' = Some (ordered_put (op_key x) (op_value x) es)"
proof -
  let ?k = "op_key x" and ?v = "op_value x"
  obtain ns where rep: "sl_rep sl ns" and acc: "sl_accounted sl ns" and tombs: "tombs_empty (sl_abs sl ns)"
    using assms(1) by (auto simp: SkipList_wf_def)
  have abs: "es = sl_abs sl ns" using es SkipList_entries_rep [OF rep] by simp
  have tv: "tombs_empty (ordered_put ?k ?v (sl_abs sl ns))"
    by (rule tombs_empty_ordered_put [OF tombs op_value_tombstone])
  have "\<exists>sl' ns'. SkipList_apply mt sl x = Some sl' \<and> sl_rep sl' ns' \<and> sl_accounted sl' ns'
    \<and> sl_abs sl' ns' = ordered_put ?k ?v (sl_abs sl ns)"
  proof (cases "not_below (sl_heap sl) ?k ns = [] \<or> nkey (sl_heap sl) (hd (not_below (sl_heap sl) ?k ns)) \<noteq> ?k")
    case True
    have absent: "?k \<notin> nkey (sl_heap sl) ` set ns" by (rule not_below_miss [OF rep True])
    from SkipList_apply_miss [OF rep absent, of mt] obtain update where
      "SkipList_apply mt sl x = insert_node mt sl update ?k ?v"
      "update_ok (sl_heap sl) (sl_head sl) ns ?k (sl_max_height sl) update" by blast
    with insert_node_ok [OF rep acc absent, of update mt ?v] show ?thesis
      by (metis miss_abs(2) [OF rep absent])
  next
    case False
    then obtain a hi where "not_below (sl_heap sl) ?k ns = a # hi" "nkey (sl_heap sl) a = ?k"
      by (cases "not_below (sl_heap sl) ?k ns") auto
    from SkipList_apply_hit [OF rep acc tombs this, of mt] show ?thesis by blast
  qed
  with tv abs show ?thesis
    by (metis SkipList_entries_rep SkipList_wf_def)
qed

lemma SkipList_Get_ok:
  assumes "SkipList_wf sl" and es: "SkipList_entries sl = Some es"
  shows "SkipList_Get sl k = Some (map_of es k)"
proof -
  let ?h = "sl_heap sl"
  obtain ns where rep: "sl_rep sl ns" using assms(1) by (auto simp: SkipList_wf_def)
  have abs: "es = sl_abs sl ns" using es SkipList_entries_rep [OF rep] by simp
  have cur: "descend_get ?h k (sl_max_height sl) (sl_head sl) = Some (pred_at ?h (sl_head sl) ns k 0)"
    using find_path_ok [OF rep, of k] by (auto simp: find_path_def descend_get_descend [where update = "replicate kMaxHeight None"])
  note sc = pred_at_successor [OF rep, of k]
  show ?thesis
  proof (cases "not_below ?h k ns")
    case Nil
    with rep have "k \<notin> nkey ?h ` set ns" by (intro not_below_miss) simp_all
    with Nil cur sc abs show ?thesis by (simp add: SkipList_Get_def miss_abs(1) [OF rep])
  next
    case (Cons a hi)
    then have "a \<in> set (not_below ?h k ns)" by simp
    then have "a \<in> dom ?h" using rep by (simp add: not_below_def sl_rep_def)
    then obtain n where n: "?h a = Some n" by auto
    then have obs: "nkey ?h a = nd_key n" "nval ?h a = nd_value n" by (simp_all add: nkey_def nval_def)
    show ?thesis
    proof (cases "nd_key n = k")
      case True
      with not_below_hit(2) [OF rep Cons] obs n cur sc abs Cons show ?thesis by (simp add: SkipList_Get_def)
    next
      case False
      with Cons obs have "k \<notin> nkey ?h ` set ns" by (intro not_below_miss [OF rep]) simp
      with False n cur sc abs Cons show ?thesis by (simp add: SkipList_Get_def miss_abs(1) [OF rep])
    qed
  qed
qed

lemma SkipList_entries_sorted:
  "SkipList_wf sl \<Longrightarrow> \<exists>es. SkipList_entries sl = Some es \<and> sorted_wrt (<) (map fst es)"
  using SkipList_entries_rep sorted_keys_sl_abs by (fastforce simp: SkipList_wf_def)

lemma SkipList_IsEmpty_ok:
  assumes "SkipList_wf sl"
  shows "SkipList_IsEmpty sl = map_option (\<lambda>es. es = []) (SkipList_entries sl)"
proof -
  obtain ns where rep: "sl_rep sl ns" using assms by (auto simp: SkipList_wf_def)
  obtain q where "read_fwd (sl_heap sl) (sl_head sl) 0 = Some q" "chain (sl_heap sl) 0 q ns"
    using sl_rep_level0 [OF rep] by blast
  then show ?thesis by (cases ns) (auto simp: SkipList_IsEmpty_def SkipList_entries_rep [OF rep])
qed

lemma SkipList_new_rep: "sl_rep SkipList_new []"
  by (auto simp: sl_rep_def SkipList_new_def hgt_def new_node_def sl_links_def read_fwd_def kMaxHeight_def)

lemma SkipList_new_wf: "SkipList_wf SkipList_new"
  using SkipList_new_rep
  by (auto simp: SkipList_wf_def sl_accounted_def tombs_empty_def intro!: exI [of _ "[]"])
     (simp add: SkipList_new_def)

lemma SkipList_new_entries: "SkipList_entries SkipList_new = Some []"
  using SkipList_entries_rep [OF SkipList_new_rep] by simp

interpretation skip_list: ordered_table SkipList_wf SkipList_entries SkipList_Get "SkipList_apply mt" op_key op_value
  for mt :: "nat \<Rightarrow> u32"
  by unfold_locales (rule SkipList_entries_sorted SkipList_Get_ok SkipList_apply_ok; assumption)+

lemma destroy_loop_chain:
  assumes "chain h 0 p as" "distinct as"
  shows "destroy_loop h p = Some (h |` (- set as))"
  using assms
proof (induction as arbitrary: h p)
  case Nil
  then show ?case by (simp add: destroy_loop.simps [of h None])
next
  case (Cons a as)
  then obtain q where q: "p = Some a" "read_fwd h a 0 = Some q" "chain h 0 q as" by auto
  have "chain (h(a := None)) 0 q as = chain h 0 q as"
    using Cons.prems by (intro chain_cong) (auto simp: read_fwd_def)
  with q have "chain (h(a := None)) 0 q as" by simp
  with Cons have "destroy_loop (h(a := None)) q = Some ((h(a := None)) |` (- set as))" by (metis distinct.simps(2))
  moreover have "(h(a := None)) |` (- set as) = h |` (- set (a # as))"
    by (auto simp: restrict_map_def)
  ultimately show ?case using q by (simp add: destroy_loop.simps [of h "Some a"])
qed

lemma SkipList_destroy_ok:
  assumes "SkipList_wf sl"
  shows "SkipList_destroy sl = Some Map.empty"
proof -
  obtain ns where rep: "sl_rep sl ns" using assms by (auto simp: SkipList_wf_def)
  have "chain (sl_heap sl) 0 (Some (sl_head sl)) (sl_head sl # ns)"
    using sl_rep_level0 [OF rep] by simp
  then have "SkipList_destroy sl = Some (sl_heap sl |` (- set (sl_head sl # ns)))"
    unfolding SkipList_destroy_def using rep by (intro destroy_loop_chain) (simp_all add: sl_rep_def)
  moreover have "sl_heap sl |` (- dom (sl_heap sl)) = Map.empty"
    by (auto simp: restrict_map_def)
  ultimately show ?thesis using rep by (simp add: sl_rep_def)
qed

lemma SkipList_memory_ok:
  assumes "SkipList_wf sl"
  shows "\<exists>ns p. read_fwd (sl_heap sl) (sl_head sl) 0 = Some p \<and> chain (sl_heap sl) 0 p ns
    \<and> distinct (sl_head sl # ns) \<and> dom (sl_heap sl) = set (sl_head sl # ns)
    \<and> SkipList_entries sl = Some (sl_abs sl ns)
    \<and> hgt (sl_heap sl) (sl_head sl) = kMaxHeight
    \<and> list_all (\<lambda>a. 1 \<le> hgt (sl_heap sl) a \<and> hgt (sl_heap sl) a \<le> kMaxHeight) ns
    \<and> SkipList_ApproximateMemoryUsage sl
      = sizeof_SkipList + sizeof_SkipListNode + hgt (sl_heap sl) (sl_head sl) * sizeof_pointer
        + (\<Sum>a\<leftarrow>ns. sizeof_SkipListNode + length (nkey (sl_heap sl) a) + length (slv_data (nval (sl_heap sl) a))
             + hgt (sl_heap sl) a * sizeof_pointer)"
proof -
  obtain ns where rep: "sl_rep sl ns" and acc: "sl_accounted sl ns"
    using assms by (auto simp: SkipList_wf_def)
  obtain p where p: "read_fwd (sl_heap sl) (sl_head sl) 0 = Some p" "chain (sl_heap sl) 0 p ns"
    using sl_rep_level0 [OF rep] by blast
  have "list_all (\<lambda>a. 1 \<le> hgt (sl_heap sl) a \<and> hgt (sl_heap sl) a \<le> kMaxHeight) ns"
    using rep by (fastforce simp: sl_rep_def list_all_iff)
  with p rep acc SkipList_entries_rep [OF rep] show ?thesis
    by (intro exI [of _ ns] exI [of _ p])
       (simp add: sl_rep_def sl_accounted_def SkipList_ApproximateMemoryUsage_def node_cost_def [abs_def])
qed

subsection \<open>Properties\<close>

text \<open>C7. The skip list is a correct ordered table. From an empty list, for every sequence of
  random numbers and every sequence of puts and deletes: no operation faults or diverges, the
  iterator enumerates strictly increasing keys, and a lookup returns the value of the last write
  to its key, a tombstone if that was a delete, nothing if there was none.\<close>

theorem SkipList_ops_correct:
  "\<exists>sl es. run_ops (SkipList_apply mt) SkipList_new xs = Some sl \<and> SkipList_entries sl = Some es
     \<and> sorted_wrt (<) (map fst es)
     \<and> (\<forall>k. SkipList_Get sl k = Some (map_of es k))
     \<and> (\<forall>k. SkipList_Get sl k = Some (last_write op_key op_value xs k))"
proof -
  obtain sl es where sl: "run_ops (SkipList_apply mt) SkipList_new xs = Some sl" "SkipList_entries sl = Some es"
      "sorted_wrt (<) (map fst es)" "\<forall>k. SkipList_Get sl k = Some (map_of es k)"
    and last: "\<And>k. SkipList_Get sl k = (case last_write op_key op_value xs k of Some v \<Rightarrow> Some (Some v)
                 | None \<Rightarrow> SkipList_Get SkipList_new k)"
    using skip_list.run_ops_summary [OF SkipList_new_wf, of mt xs] by blast
  have "SkipList_Get sl k = Some (last_write op_key op_value xs k)" for k
    using SkipList_Get_ok [OF SkipList_new_wf SkipList_new_entries, of k]
    by (simp add: last split: option.split)
  with sl show ?thesis by blast
qed

text \<open>C26. The memory accounting is exact: after any sequence of writes the reported usage is the size of
  the list object, of the head with its links, and of every node that the bottom level links: its
  fixed part, the bytes of its key and of its current value, and one pointer for each link it really
  has. These nodes and the head are all that is allocated, and they hold the entries of the list.\<close>

theorem SkipList_memory_exact:
  "\<exists>sl ns p. run_ops (SkipList_apply mt) SkipList_new xs = Some sl
     \<and> read_fwd (sl_heap sl) (sl_head sl) 0 = Some p \<and> chain (sl_heap sl) 0 p ns
     \<and> distinct (sl_head sl # ns) \<and> dom (sl_heap sl) = set (sl_head sl # ns)
     \<and> SkipList_entries sl = Some (sl_abs sl ns)
     \<and> hgt (sl_heap sl) (sl_head sl) = kMaxHeight
     \<and> list_all (\<lambda>a. 1 \<le> hgt (sl_heap sl) a \<and> hgt (sl_heap sl) a \<le> kMaxHeight) ns
     \<and> SkipList_ApproximateMemoryUsage sl
       = sizeof_SkipList + sizeof_SkipListNode + hgt (sl_heap sl) (sl_head sl) * sizeof_pointer
         + (\<Sum>a\<leftarrow>ns. sizeof_SkipListNode + length (nkey (sl_heap sl) a) + length (slv_data (nval (sl_heap sl) a))
              + hgt (sl_heap sl) a * sizeof_pointer)"
proof -
  obtain sl where "run_ops (SkipList_apply mt) SkipList_new xs = Some sl" "SkipList_wf sl"
    using skip_list.run_ops_summary [OF SkipList_new_wf, of mt xs] by blast
  with SkipList_memory_ok [of sl] show ?thesis by blast
qed

text \<open>C27. The destructor frees every node exactly once: after any sequence of writes it follows no
  freed pointer, terminates and leaves the store empty.\<close>

theorem SkipList_destroy_frees_all:
  "\<exists>sl. run_ops (SkipList_apply mt) SkipList_new xs = Some sl \<and> SkipList_destroy sl = Some Map.empty"
  using skip_list.run_ops_summary [OF SkipList_new_wf, of mt xs] SkipList_destroy_ok by blast

end
