(* ===== verification/Mem_Table.thy ===== *)
theory Mem_Table
  imports Skip_List
begin

text \<open>
  \<^verbatim>\<open>src/storage/memtable/memtable.{h,cpp}\<close>: the memtable is a skip list whose lookups hide
  tombstones. A lookup of a deleted key and of an unknown key give the same answer, which is what
  the read path of the engine has to live with.
\<close>

record MemTable =
  mem_table :: SkipList

definition MemTable_new :: MemTable where
  "MemTable_new = \<lparr>mem_table = SkipList_new\<rparr>"

definition MemTable_Put :: "(nat \<Rightarrow> u32) \<Rightarrow> MemTable \<Rightarrow> key \<Rightarrow> bytes \<Rightarrow> MemTable option" where
  "MemTable_Put mt m k v = do { sl \<leftarrow> SkipList_Put mt (mem_table m) k v; Some (m\<lparr>mem_table := sl\<rparr>) }"

definition MemTable_Delete :: "(nat \<Rightarrow> u32) \<Rightarrow> MemTable \<Rightarrow> key \<Rightarrow> MemTable option" where
  "MemTable_Delete mt m k = do { sl \<leftarrow> SkipList_Delete mt (mem_table m) k; Some (m\<lparr>mem_table := sl\<rparr>) }"

text \<open>The outer option is a fault, the inner one \<^verbatim>\<open>std::optional\<close>.\<close>

definition MemTable_Get :: "MemTable \<Rightarrow> key \<Rightarrow> bytes option option" where
  "MemTable_Get m k =
     do { found \<leftarrow> SkipList_Get (mem_table m) k;
          Some (case found of
                  Some val \<Rightarrow> if \<not> is_tombstone val then Some (slv_data val) else None
                | None \<Rightarrow> None) }"

definition MemTable_ApproximateMemoryUsage :: "MemTable \<Rightarrow> nat" where
  "MemTable_ApproximateMemoryUsage m = SkipList_ApproximateMemoryUsage (mem_table m)"

definition MemTable_IsEmpty :: "MemTable \<Rightarrow> bool option" where
  "MemTable_IsEmpty m = SkipList_IsEmpty (mem_table m)"

definition MemTable_Begin :: "MemTable \<Rightarrow> addr option option" where
  "MemTable_Begin m = SkipList_Begin (mem_table m)"

text \<open>Everything an iterator from \<^verbatim>\<open>Begin\<close> yields.\<close>

definition MemTable_entries :: "MemTable \<Rightarrow> (key \<times> SkipListValue) list option" where
  "MemTable_entries m = do { it \<leftarrow> MemTable_Begin m; Iterator_drain (sl_heap (mem_table m)) it }"

primrec MemTable_apply :: "(nat \<Rightarrow> u32) \<Rightarrow> MemTable \<Rightarrow> table_op \<Rightarrow> MemTable option" where
  "MemTable_apply mt m (Put_op k v) = MemTable_Put mt m k v"
| "MemTable_apply mt m (Delete_op k) = MemTable_Delete mt m k"

definition MemTable_wf :: "MemTable \<Rightarrow> bool" where
  "MemTable_wf m \<longleftrightarrow> SkipList_wf (mem_table m)"

definition visible :: "SkipListValue option \<Rightarrow> bytes option" where
  "visible found = (case found of Some val \<Rightarrow> if is_tombstone val then None else Some (slv_data val) | None \<Rightarrow> None)"

lemma visible_simps [simp]:
  "visible None = None"
  "visible (Some \<lparr>is_tombstone = True, slv_data = v\<rparr>) = None"
  "visible (Some \<lparr>is_tombstone = False, slv_data = v\<rparr>) = Some v"
  by (simp_all add: visible_def)

lemma MemTable_Get_visible: "MemTable_Get m k = map_option visible (SkipList_Get (mem_table m) k)"
  by (cases "SkipList_Get (mem_table m) k") (auto simp: MemTable_Get_def visible_def split: option.split)

lemma MemTable_apply_lift:
  "MemTable_apply mt m x = map_option (\<lambda>sl. m\<lparr>mem_table := sl\<rparr>) (SkipList_apply mt (mem_table m) x)"
  by (cases x) (simp_all add: MemTable_Put_def MemTable_Delete_def map_conv_bind_option comp_def)

lemma MemTable_entries_SkipList: "MemTable_entries m = SkipList_entries (mem_table m)"
  by (simp add: MemTable_entries_def MemTable_Begin_def SkipList_entries_def)

text \<open>The table underneath keeps the interface; the memtable adds the hiding of tombstones.\<close>

interpretation memtable: ordered_table MemTable_wf MemTable_entries "\<lambda>m. SkipList_Get (mem_table m)"
  "MemTable_apply mt" op_key op_value for mt :: "nat \<Rightarrow> u32"
proof unfold_locales
  fix t :: MemTable and es x
  assume "MemTable_wf t" "MemTable_entries t = Some es"
  then show "\<exists>t'. MemTable_apply mt t x = Some t' \<and> MemTable_wf t'
      \<and> MemTable_entries t' = Some (ordered_put (op_key x) (op_value x) es)"
    using SkipList_apply_ok [of "mem_table t" es mt x]
    by (auto simp: MemTable_wf_def MemTable_entries_SkipList MemTable_apply_lift)
qed (auto simp: MemTable_wf_def MemTable_entries_SkipList intro: SkipList_entries_sorted SkipList_Get_ok)

lemma MemTable_new_ok: "MemTable_wf MemTable_new" "MemTable_entries MemTable_new = Some []"
  by (simp_all add: MemTable_wf_def MemTable_new_def SkipList_new_wf MemTable_entries_SkipList SkipList_new_entries)

lemma MemTable_Get_entries:
  "MemTable_wf m \<Longrightarrow> MemTable_entries m = Some es \<Longrightarrow> MemTable_Get m k = Some (visible (map_of es k))"
  using memtable.get_entries by (simp add: MemTable_Get_visible)

lemma MemTable_run_ok:
  assumes "MemTable_wf m" "run_ops (MemTable_apply mt) m xs = Some m'"
  shows "MemTable_wf m' \<and> MemTable_Get m' k = (case last_write op_key op_value xs k of
      Some v \<Rightarrow> Some (visible (Some v)) | None \<Rightarrow> MemTable_Get m k)"
  using memtable.get_run_ops [OF assms, of k] by (auto simp: MemTable_Get_visible split: option.splits)

subsection \<open>Properties\<close>

text \<open>C18. The memtable is a map: after any sequence of puts and deletes on an empty memtable a lookup
  succeeds exactly when the last write to the key was a put, and returns its value.\<close>

theorem MemTable_last_write:
  "\<exists>m. run_ops (MemTable_apply mt) MemTable_new xs = Some m
     \<and> (\<forall>k. MemTable_Get m k = Some (visible (last_write op_key op_value xs k)))"
proof -
  obtain m where m: "run_ops (MemTable_apply mt) MemTable_new xs = Some m"
    using memtable.run_ops_ok [OF MemTable_new_ok] by blast
  have "MemTable_Get MemTable_new k = Some None" for k
    using MemTable_Get_entries [OF MemTable_new_ok] by simp
  with MemTable_run_ok [OF MemTable_new_ok(1) m] m show ?thesis
    by (auto split: option.splits)
qed

end
