(* ===== verification/Recovery_Manager.thy ===== *)
theory Recovery_Manager
  imports Wal Mem_Table
begin

text \<open>
  \<^verbatim>\<open>src/storage/recovery/recovery_manager.{h,cpp}\<close>: the log is replayed into a memtable,
  skipping what a flush has already made durable. The memtable is updated in place, also when the
  replay ends with an error, so the result carries it in every case.
\<close>

fun replay_entries ::
  "(nat \<Rightarrow> u32) \<Rightarrow> u64 \<Rightarrow> MemTable \<Rightarrow> nat \<Rightarrow> WALEntry list \<Rightarrow> (MemTable \<times> nat ErrorOr) option" where
  "replay_entries mt last_flushed_lsn m applied_count [] = Some (m, Value applied_count)"
| "replay_entries mt last_flushed_lsn m applied_count (e # es) =
     (if we_seq e \<le> last_flushed_lsn then replay_entries mt last_flushed_lsn m applied_count es
      else if we_type e = kPut then
        do { m \<leftarrow> MemTable_Put mt m (we_key e) (we_value e);
             replay_entries mt last_flushed_lsn m (applied_count + 1) es }
      else if we_type e = kDelete then
        do { m \<leftarrow> MemTable_Delete mt m (we_key e);
             replay_entries mt last_flushed_lsn m (applied_count + 1) es }
      else Some (m, Error (mk_Status kStorageCorruption ''Unknown WAL entry type during recovery'')))"

text \<open>The log object is closed by its destructor on every path behind \<^verbatim>\<open>Open\<close>.\<close>

definition RecoverMemTable ::
  "io \<Rightarrow> (nat \<Rightarrow> u32) \<Rightarrow> fs \<Rightarrow> path \<Rightarrow> MemTable \<Rightarrow> u64 \<Rightarrow> (fs \<times> MemTable \<times> nat ErrorOr) option" where
  "RecoverMemTable io mt fs p memtable last_flushed_lsn =
     (if \<not> file_exists fs p then Some (fs, memtable, Value 0)
      else case WAL_Open io fs p of
        (fs, Error st) \<Rightarrow> Some (fs, memtable, Error st)
      | (fs, Value wal) \<Rightarrow>
          (case WAL_ReadAll io fs wal of
             Error st \<Rightarrow> Some (WAL_destroy io fs wal, memtable, Error st)
           | Value entries \<Rightarrow>
               do { (memtable, r) \<leftarrow> replay_entries mt last_flushed_lsn memtable 0 entries;
                    Some (WAL_destroy io fs wal, memtable, r) }))"

text \<open>The operation an entry stands for.\<close>

definition entry_op :: "WALEntry \<Rightarrow> table_op" where
  "entry_op e = (if we_type e = kPut then Put_op (we_key e) (we_value e) else Delete_op (we_key e))"

definition known_type :: "WALEntry \<Rightarrow> bool" where
  "known_type e \<longleftrightarrow> we_type e = kPut \<or> we_type e = kDelete"

definition unflushed :: "u64 \<Rightarrow> WALEntry list \<Rightarrow> WALEntry list" where
  "unflushed lsn es = filter (\<lambda>e. lsn < we_seq e) es"

lemma replay_entries_known:
  assumes "\<forall>e \<in> set es. known_type e"
  shows "replay_entries mt lsn m n es
    = map_option (\<lambda>m. (m, Value (n + length (unflushed lsn es))))
        (run_ops (MemTable_apply mt) m (map entry_op (unflushed lsn es)))"
  using assms
proof (induction es arbitrary: m n)
  case (Cons e es)
  have "entry_op e = Put_op (we_key e) (we_value e)" if "we_type e = kPut"
    using that by (simp add: entry_op_def)
  moreover have "entry_op e = Delete_op (we_key e)" "we_type e = kDelete" if "we_type e \<noteq> kPut"
    using that Cons.prems by (auto simp: entry_op_def known_type_def)
  ultimately show ?case
    using Cons.IH Cons.prems
    by (cases "we_seq e \<le> lsn"; cases "we_type e = kPut")
       (auto simp: unflushed_def not_le kPut_def kDelete_def split: bind_splits)
qed (simp add: unflushed_def)

lemma replay_entries_unknown:
  assumes "\<forall>e \<in> set es. known_type e" "\<not> known_type e" "lsn < we_seq e"
  shows "replay_entries mt lsn m n (es @ e # rest)
    = map_option (\<lambda>m. (m, Error (mk_Status kStorageCorruption ''Unknown WAL entry type during recovery'')))
        (run_ops (MemTable_apply mt) m (map entry_op (unflushed lsn es)))"
  using assms(1)
proof (induction es arbitrary: m n)
  case Nil
  with assms(2,3) show ?case by (simp add: unflushed_def known_type_def not_le [symmetric])
next
  case (Cons e es)
  have "entry_op e = Put_op (we_key e) (we_value e)" if "we_type e = kPut"
    using that by (simp add: entry_op_def)
  moreover have "entry_op e = Delete_op (we_key e)" "we_type e = kDelete" if "we_type e \<noteq> kPut"
    using that Cons.prems by (auto simp: entry_op_def known_type_def)
  ultimately show ?case
    using Cons.IH Cons.prems
    by (cases "we_seq e \<le> lsn"; cases "we_type e = kPut")
       (auto simp: unflushed_def not_le kPut_def kDelete_def split: bind_splits)
qed

lemma RecoverMemTable_fine:
  assumes io: "io_fine io" and "fs p = Some c"
  shows "RecoverMemTable io mt fs p m lsn
    = map_option (\<lambda>(m, r). (fs, m, r)) (replay_entries mt lsn m 0 (WAL_scan True c))"
proof -
  have "fs(p \<mapsto> c) = fs" using assms(2) by (simp add: fun_upd_idem)
  then show ?thesis
    using assms
    by (cases "replay_entries mt lsn m 0 (WAL_scan True c)")
       (auto simp: RecoverMemTable_def file_exists_def WAL_Open_fine [OF io] WAL_ReadAll_def WAL_destroy_def
         os_flush_def os_push_fine os_view_def content_def split: prod.splits)
qed

lemma replay_entries_fresh:
  assumes "\<forall>e \<in> set es. known_type e"
  shows "\<exists>m. replay_entries mt lsn MemTable_new 0 es = Some (m, Value (length (unflushed lsn es)))
    \<and> (\<forall>k. MemTable_Get m k
         = Some (visible (last_write op_key op_value (map entry_op (unflushed lsn es)) k)))"
proof -
  obtain m where m: "run_ops (MemTable_apply mt) MemTable_new (map entry_op (unflushed lsn es)) = Some m"
    using memtable.run_ops_ok [OF MemTable_new_ok] by blast
  have "MemTable_Get m k
      = Some (visible (last_write op_key op_value (map entry_op (unflushed lsn es)) k))" for k
    using MemTable_run_ok [OF MemTable_new_ok(1) m, of k] MemTable_Get_entries [OF MemTable_new_ok, of k]
    by (simp split: option.splits)
  with replay_entries_known [OF assms] m show ?thesis by simp
qed

lemma WAL_scan_torn:
  assumes "\<forall>e \<in> set es. entry_ok True e" "entry_ok True e" "n < length (SerializeEntry e)"
  shows "WAL_scan True (concat (map SerializeEntry es) @ take n (SerializeEntry e)) = es"
proof -
  have "WAL_scan True (take n (SerializeEntry e)) = []"
    using assms(2,3) by (intro recovery_log.scan_stop recovery_log.next_torn)
  then show ?thesis by (simp add: recovery_log.scan_encoded [OF assms(1)])
qed

lemma unflushed_0: "\<forall>e \<in> set es. we_seq e \<noteq> 0 \<Longrightarrow> unflushed 0 es = es"
  by (auto simp: unflushed_def filter_id_conv word_neq_0_conv)

lemma stamp_entry_op [simp]: "map entry_op (stamp n es) = map entry_op es"
  by (induction es arbitrary: n) (simp_all add: entry_op_def)

lemma stamp_known_type: "(\<forall>e \<in> set (stamp n es). known_type e) = (\<forall>e \<in> set es. known_type e)"
  by (induction es arbitrary: n) (simp_all add: known_type_def)

lemma stamp_seq_nonzero:
  assumes "length es < 2 ^ 64 - 1"
  shows "\<forall>e \<in> set (stamp 1 es). we_seq e \<noteq> 0"
proof
  fix e assume "e \<in> set (stamp 1 es)"
  then have "unat (we_seq e) \<in> set (map (unat \<circ> we_seq) (stamp 1 es))" by force
  moreover have "map (unat \<circ> we_seq) (stamp 1 es) = [unat (1 :: u64) ..< unat (1 :: u64) + length es]"
    using assms by (intro stamp_seqs) simp
  ultimately have "unat (we_seq e) \<in> {1 ..< 1 + length es}" by (simp del: upt_Suc)
  then show "we_seq e \<noteq> 0" by auto
qed

subsection \<open>Properties\<close>

text \<open>C5. Recovery after a crash in the middle of an append: the log holds whole records and then an
  initial piece of one more. Recovery into an empty memtable succeeds, counts the entries above the
  last flushed sequence number, leaves the log file as it is, and the memtable answers every lookup
  with the last of those entries. The torn record has no effect.\<close>

theorem RecoverMemTable_after_crash:
  assumes "io_fine io" and "\<forall>e \<in> set es. entry_ok True e \<and> known_type e"
    and "entry_ok True torn" and "n < length (SerializeEntry torn)"
    and "fs p = Some (concat (map SerializeEntry es) @ take n (SerializeEntry torn))"
  shows "\<exists>m. RecoverMemTable io mt fs p MemTable_new lsn = Some (fs, m, Value (length (unflushed lsn es)))
    \<and> (\<forall>k. MemTable_Get m k
         = Some (visible (last_write op_key op_value (map entry_op (unflushed lsn es)) k)))"
proof -
  have scan: "WAL_scan True (concat (map SerializeEntry es) @ take n (SerializeEntry torn)) = es"
    using assms(2-4) by (intro WAL_scan_torn) auto
  obtain m where "replay_entries mt lsn MemTable_new 0 es = Some (m, Value (length (unflushed lsn es)))"
    "\<forall>k. MemTable_Get m k
         = Some (visible (last_write op_key op_value (map entry_op (unflushed lsn es)) k))"
    using replay_entries_fresh [of es mt lsn] assms(2) by blast
  then show ?thesis
    using RecoverMemTable_fine [where fs = fs and p = p, OF assms(1,5), of mt MemTable_new lsn] by (simp add: scan)
qed

theorem RecoverMemTable_after_crash_witness:
  "\<exists>m. RecoverMemTable io_ideal (\<lambda>i. of_nat i)
      [''w'' \<mapsto> SerializeEntry \<lparr>we_seq = 1, we_type = kPut, we_key = ''k'', we_value = [7]\<rparr>
         @ take 9 (SerializeEntry \<lparr>we_seq = 2, we_type = kDelete, we_key = ''k'', we_value = []\<rparr>)]
      ''w'' MemTable_new 0
     = Some ([''w'' \<mapsto> SerializeEntry \<lparr>we_seq = 1, we_type = kPut, we_key = ''k'', we_value = [7]\<rparr>
         @ take 9 (SerializeEntry \<lparr>we_seq = 2, we_type = kDelete, we_key = ''k'', we_value = []\<rparr>)], m, Value 1)
    \<and> MemTable_Get m ''k'' = Some (Some [7])"
proof -
  let ?e = "\<lparr>we_seq = 1, we_type = kPut, we_key = ''k'', we_value = [7]\<rparr>"
  let ?t = "\<lparr>we_seq = 2, we_type = kDelete, we_key = ''k'', we_value = []\<rparr>"
  have pre: "\<forall>e \<in> set [?e]. entry_ok True e \<and> known_type e" "entry_ok True ?t" "9 < length (SerializeEntry ?t)"
    by (simp_all add: entry_ok_def known_type_def PayloadSize_def max_payload_def kPut_def kDelete_def kWALHeaderSize_def)
  show ?thesis
    using RecoverMemTable_after_crash [OF _ pre, of io_ideal "[''w'' \<mapsto> SerializeEntry ?e @ take 9 (SerializeEntry ?t)]" "''w''" "\<lambda>i. of_nat i" 0]
    by (auto simp: unflushed_def last_write_def entry_op_def)
qed

text \<open>C14. The log and the memtable agree: a session on a new log appends entries to it and applies
  them to its memtable. A recovery that starts from nothing but the log file rebuilds a memtable that
  answers every lookup like the one that was lost, whatever the random heights of both were.\<close>

theorem RecoverMemTable_equals_live:
  assumes io: "io_fine io" and fresh: "fs p = None"
    and es: "\<forall>e \<in> set es. entry_ok True e \<and> known_type e" "length es < 2 ^ 64 - 1"
    and opened: "WAL_Open io fs p = (fs1, Value wal)"
    and appended: "WAL_append_all io fs1 wal es = ((fs2, wal2), r)"
    and live: "run_ops (MemTable_apply mt) MemTable_new (map entry_op es) = Some m"
  shows "\<exists>m'. RecoverMemTable io mt' fs2 p MemTable_new 0 = Some (fs2, m', Value (length es))
    \<and> (\<forall>k. MemTable_Get m' k = MemTable_Get m k)"
proof -
  have wal: "wal = \<lparr>wal_path = p, wal_file = \<lparr>os_path = p, os_buf = [], os_good = True\<rparr>, wal_next_seq = 1\<rparr>"
    and fs1: "fs1 = fs(p \<mapsto> [])"
    using opened fresh by (auto simp: WAL_Open_fine [OF io] content_def WAL_scan.simps [of False "[]"] recovery_log.next_empty open_log.next_empty)
  have fs2: "fs2 p = Some (concat (map SerializeEntry (stamp 1 es)))"
    using appended io by (auto simp: fs1 wal WAL_append_all_fine WAL_wf_def)
  have "WAL_scan True (concat (map SerializeEntry (stamp 1 es))) = stamp 1 es"
    using es entry_ok_stamp [of es True 1] by (intro recovery_log.scan_all) auto
  moreover have "unflushed 0 (stamp 1 es) = stamp 1 es"
    using stamp_seq_nonzero [OF es(2)] by (rule unflushed_0)
  moreover have "\<forall>e \<in> set (stamp 1 es). known_type e" using es(1) stamp_known_type by blast
  moreover have "MemTable_Get m k = Some (visible (last_write op_key op_value (map entry_op es) k))" for k
    using MemTable_run_ok [OF MemTable_new_ok(1) live, of k] MemTable_Get_entries [OF MemTable_new_ok, of k]
    by (simp split: option.splits)
  ultimately show ?thesis
    using replay_entries_fresh [of "stamp 1 es" mt' 0] RecoverMemTable_fine [where fs = fs2 and p = p, OF io fs2, of mt' MemTable_new 0]
    by auto
qed

theorem RecoverMemTable_equals_live_witness:
  "\<exists>fs2 m m'. RecoverMemTable io_ideal (\<lambda>i. 0) fs2 ''w'' MemTable_new 0 = Some (fs2, m', Value 1)
     \<and> run_ops (MemTable_apply (\<lambda>i. 1)) MemTable_new [Put_op ''a'' [7]] = Some m
     \<and> MemTable_Get m' ''a'' = MemTable_Get m ''a''"
proof -
  let ?es = "[\<lparr>we_seq = 0, we_type = kPut, we_key = ''a'', we_value = [7]\<rparr>]"
  have es: "\<forall>e \<in> set ?es. entry_ok True e \<and> known_type e" "length ?es < 2 ^ 64 - 1"
    by (simp_all add: entry_ok_def known_type_def PayloadSize_def max_payload_def)
  obtain m where m: "run_ops (MemTable_apply (\<lambda>i. 1)) MemTable_new (map entry_op ?es) = Some m"
    using memtable.run_ops_ok [OF MemTable_new_ok] by blast
  obtain fs1 wal where opened: "WAL_Open io_ideal Map.empty ''w'' = (fs1, Value wal)"
    by (simp add: WAL_Open_fine)
  obtain fs2 wal2 r where appended: "WAL_append_all io_ideal fs1 wal ?es = ((fs2, wal2), r)"
    by (metis surj_pair)
  have "\<exists>m'. RecoverMemTable io_ideal (\<lambda>i. 0) fs2 ''w'' MemTable_new 0 = Some (fs2, m', Value (length ?es))
     \<and> (\<forall>k. MemTable_Get m' k = MemTable_Get m k)"
    by (rule RecoverMemTable_equals_live [OF _ _ es opened appended m]) simp_all
  with m show ?thesis by (auto simp: entry_op_def)
qed

text \<open>An intact entry of an unknown type, above the flushed sequence number, fails the recovery
  with a corruption error; the operations before it have been applied, those behind it have not.\<close>

theorem RecoverMemTable_unknown_type:
  assumes "io_fine io" and "\<forall>e \<in> set es. entry_ok True e \<and> known_type e"
    and "entry_ok True e" and "\<not> known_type e" and "lsn < we_seq e"
    and "fs p = Some (concat (map SerializeEntry (es @ [e])) @ rest)"
    and "run_ops (MemTable_apply mt) m0 (map entry_op (unflushed lsn es)) = Some m"
  shows "RecoverMemTable io mt fs p m0 lsn
    = Some (fs, m, Error (mk_Status kStorageCorruption ''Unknown WAL entry type during recovery''))"
proof -
  have "WAL_scan True (concat (map SerializeEntry (es @ [e])) @ rest) = es @ e # WAL_scan True rest"
    using assms(2,3) by (subst recovery_log.scan_encoded) auto
  with RecoverMemTable_fine [where fs = fs and p = p, OF assms(1,6), of mt m0 lsn] show ?thesis
    using replay_entries_unknown [of es e lsn mt m0 0] assms(2,4,5,7) by simp
qed

theorem RecoverMemTable_unknown_type_witness:
  "RecoverMemTable io_ideal (\<lambda>i. 0)
      [''w'' \<mapsto> SerializeEntry \<lparr>we_seq = 1, we_type = 3, we_key = ''k'', we_value = []\<rparr>] ''w'' MemTable_new 0
   = Some ([''w'' \<mapsto> SerializeEntry \<lparr>we_seq = 1, we_type = 3, we_key = ''k'', we_value = []\<rparr>], MemTable_new,
       Error (mk_Status kStorageCorruption ''Unknown WAL entry type during recovery''))"
  by (rule RecoverMemTable_unknown_type [of io_ideal "[]" "\<lparr>we_seq = 1, we_type = 3, we_key = ''k'', we_value = []\<rparr>" _ _ _ "[]"])
     (simp_all add: entry_ok_def known_type_def PayloadSize_def max_payload_def kPut_def kDelete_def unflushed_def)

end
