(* ===== verification/Block.thy ===== *)
theory Block
  imports Binary_Serializer
begin

text \<open>
  \<^verbatim>\<open>src/storage/sstable/block.{h,cpp}\<close>: the data blocks of a sorted table. A block collects
  entries up to a target size, is written with a count and length-prefixed fields, and is searched
  by bisection. Vector sizes are natural numbers; the casts of the code to \<^verbatim>\<open>uint32_t\<close> and
  \<^verbatim>\<open>int\<close> are written out.
\<close>

definition kTargetBlockSize :: nat where "kTargetBlockSize = 4096"

record BlockEntry =
  be_key :: key
  be_value :: bytes
  be_tombstone :: bool

definition EncodedSize :: "BlockEntry \<Rightarrow> nat" where
  "EncodedSize e = 4 + length (be_key e) + 4 + length (be_value e) + 1"

record Block =
  bl_entries :: "BlockEntry list"
  bl_current_size :: nat

definition Block_new :: Block where
  "Block_new = \<lparr>bl_entries = [], bl_current_size = 4\<rparr>"

definition Block_Add :: "Block \<Rightarrow> BlockEntry \<Rightarrow> Block \<times> bool" where
  "Block_Add b e =
     (let entry_size = EncodedSize e in
      if bl_entries b \<noteq> [] \<and> bl_current_size b + entry_size > kTargetBlockSize then (b, False)
      else (b\<lparr>bl_entries := bl_entries b @ [e], bl_current_size := bl_current_size b + entry_size\<rparr>, True))"

definition Block_IsEmpty :: "Block \<Rightarrow> bool" where
  "Block_IsEmpty b \<longleftrightarrow> bl_entries b = []"

definition Block_EntryCount :: "Block \<Rightarrow> nat" where
  "Block_EntryCount b = length (bl_entries b)"

definition Block_LastKey :: "Block \<Rightarrow> key" where
  "Block_LastKey b = (if bl_entries b = [] then '''' else be_key (last (bl_entries b)))"

subsection \<open>Encoding\<close>

definition WriteBlockEntry :: "BlockEntry \<Rightarrow> bytes \<Rightarrow> bytes" where
  "WriteBlockEntry e buffer =
     (let buffer = WriteUint32 buffer (to_u32 (length (be_key e)));
          buffer = buffer @ string_bytes (be_key e);
          buffer = WriteUint32 buffer (to_u32 (length (be_value e)));
          buffer = buffer @ be_value e
      in buffer @ [if be_tombstone e then 1 else 0])"

definition Block_Serialize :: "Block \<Rightarrow> bytes" where
  "Block_Serialize b =
     fold WriteBlockEntry (bl_entries b) (WriteUint32 [] (to_u32 (length (bl_entries b))))"

definition ReadBlockEntry :: "bytes \<Rightarrow> nat \<Rightarrow> (BlockEntry \<times> nat) ErrorOr" where
  "ReadBlockEntry data offset =
     assign_or_return (ReadUint32 data offset) (\<lambda>(key_len, offset).
       if offset + unat key_len > length data
       then Error (mk_Status kStorageCorruption ''Block key extends past data'')
       else let key = bytes_string (take (unat key_len) (drop offset data));
                offset = offset + unat key_len in
         assign_or_return (ReadUint32 data offset) (\<lambda>(val_len, offset).
           if offset + unat val_len > length data
           then Error (mk_Status kStorageCorruption ''Block value extends past data'')
           else let value = take (unat val_len) (drop offset data);
                    offset = offset + unat val_len in
             if offset \<ge> length data
             then Error (mk_Status kStorageCorruption ''Block tombstone flag missing'')
             else Value (\<lparr>be_key = key, be_value = value, be_tombstone = data ! offset \<noteq> 0\<rparr>, offset + 1)))"

text \<open>\<^verbatim>\<open>current_size_\<close> is advanced by the size of an entry that has just been moved from:
  both of its containers are empty then, and each entry counts as 9 bytes.\<close>

definition moved_from :: "BlockEntry \<Rightarrow> BlockEntry" where
  "moved_from e = e\<lparr>be_key := [], be_value := []\<rparr>"

definition Block_Deserialize :: "bytes \<Rightarrow> Block ErrorOr" where
  "Block_Deserialize data =
     assign_or_return (ReadUint32 data 0) (\<lambda>(num_entries, offset).
       assign_or_return (read_items ReadBlockEntry (unat num_entries) data offset) (\<lambda>(entries, offset).
         Value \<lparr>bl_entries = entries,
                bl_current_size = 4 + sum_list (map (EncodedSize \<circ> moved_from) entries)\<rparr>))"

subsection \<open>Lookup\<close>

text \<open>The bisection on \<^verbatim>\<open>int\<close> bounds; the outer option is an access out of range.\<close>

function Block_search :: "BlockEntry list \<Rightarrow> key \<Rightarrow> int \<Rightarrow> int \<Rightarrow> BlockEntry option option" where
  "Block_search es k lo hi =
     (if lo \<le> hi then
        let mid = lo + (hi - lo) div 2 in
        if mid < 0 \<or> mid \<ge> int (length es) then None
        else if be_key (es ! nat mid) = k then Some (Some (es ! nat mid))
        else if be_key (es ! nat mid) < k then Block_search es k (mid + 1) hi
        else Block_search es k lo (mid - 1)
      else Some None)"
  by pat_completeness auto
termination
  by (relation "measure (\<lambda>(_, _, lo, hi). nat (hi - lo + 1))") auto

declare Block_search.simps [simp del]

definition Block_Get :: "Block \<Rightarrow> key \<Rightarrow> BlockEntry option option" where
  "Block_Get b k = Block_search (bl_entries b) k 0 (to_int32 (length (bl_entries b)) - 1)"

subsection \<open>Facts about the encoding\<close>

definition entry_bytes :: "BlockEntry \<Rightarrow> bytes" where
  "entry_bytes e = string_field (be_key e) @ le_bytes 4 (to_u32 (length (be_value e))) @ be_value e
     @ [if be_tombstone e then 1 else 0]"

definition BlockEntry_ok :: "BlockEntry \<Rightarrow> bool" where
  "BlockEntry_ok e \<longleftrightarrow> length (be_key e) < 2 ^ 32 \<and> length (be_value e) < 2 ^ 32"

lemma length_entry_bytes [simp]: "length (entry_bytes e) = EncodedSize e"
  by (simp add: entry_bytes_def EncodedSize_def)

lemma Block_Serialize_bytes:
  "Block_Serialize b = le_bytes 4 (to_u32 (length (bl_entries b))) @ concat (map entry_bytes (bl_entries b))"
proof -
  have "fold WriteBlockEntry es buffer = buffer @ concat (map entry_bytes es)" for es buffer
    by (induction es arbitrary: buffer)
       (simp_all add: WriteBlockEntry_def entry_bytes_def Write_fields string_field_def Let_def)
  then show ?thesis by (simp add: Block_Serialize_def Write_fields)
qed

lemma ReadBlockEntry_middle:
  assumes "BlockEntry_ok e" and "offset = length pre"
  shows "ReadBlockEntry (pre @ entry_bytes e @ post) offset = Value (e, offset + EncodedSize e)"
proof -
  let ?k = "string_bytes (be_key e)" and ?v = "be_value e" and ?t = "[if be_tombstone e then 1 else 0 :: byte]"
  let ?kl = "le_bytes 4 (to_u32 (length (be_key e)))" and ?vl = "le_bytes 4 (to_u32 (length ?v))"
  define d where "d = pre @ ?kl @ ?k @ ?vl @ ?v @ ?t @ post"
  have d: "pre @ entry_bytes e @ post = d" by (simp add: d_def entry_bytes_def string_field_def)
  have 1: "ReadUint32 d offset = Value (to_u32 (length (be_key e)), offset + 4)"
    using assms(2) by (simp add: d_def ReadUint32_middle)
  have 2: "take (length (be_key e)) (drop (offset + 4) d) = ?k"
    using assms(2) by (simp add: d_def)
  have 3: "ReadUint32 d (offset + 4 + length (be_key e)) = Value (to_u32 (length ?v), offset + 4 + length (be_key e) + 4)"
    using assms(2) ReadUint32_middle [of "offset + 4 + length (be_key e)" "pre @ ?kl @ ?k" _ "?v @ ?t @ post"]
    by (simp add: d_def)
  have 4: "take (length ?v) (drop (offset + 4 + length (be_key e) + 4) d) = ?v"
    using assms(2) by (simp add: d_def)
  have 5: "d ! (offset + 4 + length (be_key e) + 4 + length ?v) = (if be_tombstone e then 1 else 0)"
    using assms(2) by (simp add: d_def nth_append)
  have len: "length d = offset + EncodedSize e + length post"
    using assms(2) by (simp add: d_def EncodedSize_def)
  show ?thesis
    unfolding d ReadBlockEntry_def
    using assms(1) by (simp add: 1 2 [simplified] 3 [simplified] 4 [simplified] 5 [simplified] len BlockEntry_ok_def EncodedSize_def)
qed

interpretation block_entry: field_codec entry_bytes ReadBlockEntry BlockEntry_ok
  by unfold_locales (simp add: ReadBlockEntry_middle)

definition Block_ok :: "Block \<Rightarrow> bool" where
  "Block_ok b \<longleftrightarrow> length (bl_entries b) < 2 ^ 32 \<and> (\<forall>e \<in> set (bl_entries b). BlockEntry_ok e)"

lemma EncodedSize_moved_from: "sum_list (map (EncodedSize \<circ> moved_from) es) = 9 * length es"
  by (induction es) (simp_all add: EncodedSize_def moved_from_def)

lemma Block_Deserialize_Serialize:
  assumes "Block_ok b"
  shows "Block_Deserialize (Block_Serialize b) = Value (b\<lparr>bl_current_size := 4 + 9 * length (bl_entries b)\<rparr>)"
proof -
  let ?es = "bl_entries b"
  have "read_items ReadBlockEntry (length ?es) (le_bytes 4 (to_u32 (length ?es)) @ concat (map entry_bytes ?es) @ []) 4
      = Value (?es, 4 + length (concat (map entry_bytes ?es)))"
    using assms by (intro block_entry.read_items_enc) (simp_all add: Block_ok_def)
  moreover have "ReadUint32 (Block_Serialize b) 0 = Value (to_u32 (length ?es), 4)"
    using ReadUint32_middle [of 0 "[]"] by (simp add: Block_Serialize_bytes)
  ultimately show ?thesis
    using assms
    by (cases b) (simp add: Block_Deserialize_def Block_Serialize_bytes Block_ok_def EncodedSize_moved_from)
qed

lemma length_Block_Serialize:
  "length (Block_Serialize b) = 4 + sum_list (map EncodedSize (bl_entries b))"
  by (simp add: Block_Serialize_bytes length_concat comp_def)

subsection \<open>Facts about the bisection\<close>

lemma find_sorted_hit:
  assumes "sorted_wrt (<) (map be_key es)" "i < length es" "be_key (es ! i) = k"
  shows "List.find (\<lambda>e. be_key e = k) es = Some (es ! i)"
  unfolding find_Some_iff
proof (intro exI [of _ i] conjI allI impI)
  fix j assume "j < i"
  with assms(1,2) have "be_key (es ! j) < be_key (es ! i)"
    by (simp add: sorted_wrt_iff_nth_less)
  with assms(3) show "be_key (es ! j) \<noteq> k" by simp
qed (use assms in auto)

lemma Block_search_find:
  assumes "sorted_wrt (<) (map be_key es)" "0 \<le> lo" "hi < int (length es)"
    and "\<forall>i < length es. int i < lo \<longrightarrow> be_key (es ! i) < k"
    and "\<forall>i < length es. hi < int i \<longrightarrow> k < be_key (es ! i)"
  shows "Block_search es k lo hi = Some (List.find (\<lambda>e. be_key e = k) es)"
  using assms
proof (induction es k lo hi rule: Block_search.induct)
  case (1 es k lo hi)
  let ?mid = "lo + (hi - lo) div 2"
  show ?case
  proof (cases "lo \<le> hi")
    case False
    have "be_key (es ! i) \<noteq> k" if "i < length es" for i
      using that "1.prems"(4,5) False by (cases "int i < lo") force+
    then have "List.find (\<lambda>e. be_key e = k) es = None" by (auto simp: find_None_iff in_set_conv_nth)
    with False show ?thesis by (simp add: Block_search.simps [of es k lo hi])
  next
    case True
    note mid = bisect_mid [OF "1.prems"(2) True "1.prems"(3)]
    note step = "1.IH" [OF True refl mid(3)] and unf = Block_search.simps [of es k lo hi]
    consider "be_key (es ! nat ?mid) = k" | "be_key (es ! nat ?mid) < k" | "k < be_key (es ! nat ?mid)"
      by (rule linorder_cases)
    then show ?thesis
    proof cases
      case 1
      with True mid(3) find_sorted_hit [OF "1.prems"(1) mid(4)] show ?thesis by (simp add: unf Let_def)
    next
      case 2
      then have "be_key (es ! nat ?mid) \<noteq> k" by simp
      from step(1) [OF this 2 "1.prems"(1) _ "1.prems"(3) sorted_below_mid [OF "1.prems"(1) mid(4) 2] "1.prems"(5)] mid "1.prems"(2)
      show ?thesis using True 2 by (auto simp: unf Let_def)
    next
      case 3
      then have "be_key (es ! nat ?mid) \<noteq> k" "\<not> be_key (es ! nat ?mid) < k" by auto
      moreover have "0 \<le> ?mid" using mid(1) "1.prems"(2) by simp
      note sorted_above_mid(2) [OF "1.prems"(1) this 3]
      ultimately show ?thesis using step(2) [OF _ _ "1.prems"(1,2) _ "1.prems"(4)] mid "1.prems"(3) True by (simp add: unf Let_def)
    qed
  qed
qed

lemma Block_Get_find:
  assumes "sorted_wrt (<) (map be_key (bl_entries b))" "length (bl_entries b) < 2 ^ 31"
  shows "Block_Get b k = Some (List.find (\<lambda>e. be_key e = k) (bl_entries b))"
  using assms unfolding Block_Get_def by (intro Block_search_find) auto

subsection \<open>Filling a block\<close>

text \<open>The block that a sequence of \<^verbatim>\<open>Add\<close> calls leaves, refused entries dropped.\<close>

definition Block_fill :: "BlockEntry list \<Rightarrow> Block" where
  "Block_fill es = fold (\<lambda>e b. fst (Block_Add b e)) es Block_new"

definition Block_built :: "Block \<Rightarrow> bool" where
  "Block_built b \<longleftrightarrow> bl_current_size b = 4 + sum_list (map EncodedSize (bl_entries b))
     \<and> (length (bl_entries b) \<le> 1 \<or> bl_current_size b \<le> kTargetBlockSize)"

lemma Block_new_built: "Block_built Block_new"
  by (simp add: Block_built_def Block_new_def)

lemma Block_Add_built: "Block_built b \<Longrightarrow> Block_built (fst (Block_Add b e))"
  by (auto simp: Block_built_def Block_Add_def Let_def)

lemma Block_fill_built: "Block_built (Block_fill es)"
proof -
  have "Block_built b \<Longrightarrow> Block_built (fold (\<lambda>e b. fst (Block_Add b e)) es b)" for b
    by (induction es arbitrary: b) (simp_all add: Block_Add_built)
  then show ?thesis by (simp add: Block_fill_def Block_new_built)
qed

subsection \<open>Properties\<close>

text \<open>C23. A block survives its encoding and stays searchable: for sorted entries whose fields fit
  their length prefixes, decoding the encoded block succeeds with the same entries, and the bisection
  on the result finds exactly the entry with the searched key.\<close>

theorem Block_store_lookup:
  assumes "Block_ok b" and "sorted_wrt (<) (map be_key (bl_entries b))" and "length (bl_entries b) < 2 ^ 31"
  shows "\<exists>b'. Block_Deserialize (Block_Serialize b) = Value b' \<and> bl_entries b' = bl_entries b
    \<and> (\<forall>k. Block_Get b' k = Some (List.find (\<lambda>e. be_key e = k) (bl_entries b)))"
  using Block_Deserialize_Serialize [OF assms(1)] Block_Get_find [of "b\<lparr>bl_current_size := _\<rparr>"] assms(2,3)
  by simp

theorem Block_store_lookup_witness:
  "\<exists>b'. Block_Deserialize (Block_Serialize (Block_fill
       [\<lparr>be_key = ''a'', be_value = [1], be_tombstone = False\<rparr>, \<lparr>be_key = ''b'', be_value = [], be_tombstone = True\<rparr>]))
     = Value b' \<and> Block_Get b' ''b'' = Some (Some \<lparr>be_key = ''b'', be_value = [], be_tombstone = True\<rparr>)"
  using Block_store_lookup [of "Block_fill
       [\<lparr>be_key = ''a'', be_value = [1], be_tombstone = False\<rparr>, \<lparr>be_key = ''b'', be_value = [], be_tombstone = True\<rparr>]"]
  by (auto simp: Block_fill_def Block_Add_def Block_new_def EncodedSize_def kTargetBlockSize_def Let_def
      Block_ok_def BlockEntry_ok_def less_char_def)

text \<open>The size a block keeps while it is filled is the length of its encoding, and only a block
  with a single entry exceeds the target of 4096 bytes.\<close>

theorem Block_fill_size:
  "bl_current_size (Block_fill es) = length (Block_Serialize (Block_fill es))
   \<and> (Block_EntryCount (Block_fill es) \<le> 1 \<or> length (Block_Serialize (Block_fill es)) \<le> kTargetBlockSize)"
  using Block_fill_built [of es] by (auto simp: Block_built_def length_Block_Serialize Block_EntryCount_def)

text \<open>A decoded block does not know its size: the entry is measured after it has been moved away,
  so a non-empty block whose entries hold any data reports less than the length of its encoding.\<close>

theorem Block_Deserialize_size_wrong:
  assumes "Block_ok b" and "\<exists>e \<in> set (bl_entries b). be_key e \<noteq> [] \<or> be_value e \<noteq> []"
  shows "\<exists>b'. Block_Deserialize (Block_Serialize b) = Value b'
    \<and> bl_current_size b' < length (Block_Serialize b)"
proof -
  obtain e xs ys where e: "bl_entries b = xs @ e # ys" "9 < EncodedSize e"
    using assms(2) by (fastforce simp: EncodedSize_def dest: split_list)
  have "9 * length zs \<le> sum_list (map EncodedSize zs)" for zs
    by (induction zs) (simp_all add: EncodedSize_def)
  from this [of xs] this [of ys] e have "9 * length (bl_entries b) < sum_list (map EncodedSize (bl_entries b))"
    by simp
  with Block_Deserialize_Serialize [OF assms(1)] show ?thesis
    by (simp add: length_Block_Serialize)
qed

theorem Block_Deserialize_size_wrong_witness:
  "\<exists>b'. Block_Deserialize (Block_Serialize (Block_fill [\<lparr>be_key = ''a'', be_value = [1], be_tombstone = False\<rparr>])) = Value b'
    \<and> bl_current_size b'
      < length (Block_Serialize (Block_fill [\<lparr>be_key = ''a'', be_value = [1], be_tombstone = False\<rparr>]))"
  by (rule Block_Deserialize_size_wrong)
     (simp_all add: Block_fill_def Block_Add_def Block_new_def EncodedSize_def Let_def Block_ok_def BlockEntry_ok_def)

end
