(* ===== verification/Bloom_Filter.thy ===== *)
theory Bloom_Filter
  imports Ordered_Table
begin

text \<open>
  \<^verbatim>\<open>src/storage/sstable/bloom_filter.{h,cpp}\<close>. Sizes in bits are 64-bit words and hashes 32-bit
  words, as in the code. \<^const>\<open>None\<close> stands for undefined behaviour: a division by a bit count of
  zero, or an access outside the bit array. Both can only happen to a filter read from a file.
\<close>

record BloomFilter =
  bf_bits :: bytes
  bf_num_bits :: u64
  bf_num_hash_functions :: int

text \<open>\<^verbatim>\<open>round(log(2.0) * bits_per_key)\<close>: \<^verbatim>\<open>log(2.0)\<close> is the double
  \<open>6243314768165359 / 2^53\<close>. After clamping to 1 and 30 only the products for 1 to 44 bits per key
  matter; none of them is within a rounding error of a half-integer, so rounding the exact product
  gives the same number as rounding the floating-point one.\<close>

definition BloomFilter_hash_count :: "int \<Rightarrow> int" where
  "BloomFilter_hash_count bits_per_key =
     max 1 (min ((2 * 6243314768165359 * bits_per_key + 2 ^ 53) div 2 ^ 54) 30)"

definition BloomFilter_new :: "u64 \<Rightarrow> int \<Rightarrow> BloomFilter" where
  "BloomFilter_new expected_keys bits_per_key =
     (let num_bits = max (expected_keys * word_of_int bits_per_key) 64;
          num_bytes = (num_bits + 7) div 8
      in \<lparr>bf_bits = replicate (unat num_bytes) 0, bf_num_bits = num_bytes * 8,
          bf_num_hash_functions = BloomFilter_hash_count bits_per_key\<rparr>)"

definition BloomFilter_raw :: "bytes \<Rightarrow> u64 \<Rightarrow> int \<Rightarrow> BloomFilter" where
  "BloomFilter_raw bits num_bits num_hash_functions =
     \<lparr>bf_bits = bits, bf_num_bits = num_bits, bf_num_hash_functions = num_hash_functions\<rparr>"

definition HashKey :: "key \<Rightarrow> u32 \<Rightarrow> u32" where
  "HashKey k seed = fold (\<lambda>c hash. (hash XOR ucast c) * 16777619) (string_bytes k) (2166136261 XOR seed)"

text \<open>\<^verbatim>\<open>(h1 + i * h2) % num_bits_\<close>, computed with 32-bit wrap-around and then reduced as a
  64-bit number.\<close>

definition bit_pos :: "BloomFilter \<Rightarrow> u32 \<Rightarrow> u32 \<Rightarrow> nat \<Rightarrow> u32 option" where
  "bit_pos bf h1 h2 i =
     (if bf_num_bits bf = 0 then None
      else Some (ucast ((ucast (h1 + of_nat i * h2) :: u64) mod bf_num_bits bf)))"

fun BloomFilter_Add_loop :: "u32 \<Rightarrow> u32 \<Rightarrow> nat list \<Rightarrow> BloomFilter \<Rightarrow> BloomFilter option" where
  "BloomFilter_Add_loop h1 h2 [] bf = Some bf"
| "BloomFilter_Add_loop h1 h2 (i # is) bf =
     do { p \<leftarrow> bit_pos bf h1 h2 i;
          let j = unat p div 8;
          if j < length (bf_bits bf)
          then BloomFilter_Add_loop h1 h2 is
                 (bf\<lparr>bf_bits := (bf_bits bf)[j := bf_bits bf ! j OR push_bit (unat p mod 8) 1]\<rparr>)
          else None }"

definition BloomFilter_Add :: "BloomFilter \<Rightarrow> key \<Rightarrow> BloomFilter option" where
  "BloomFilter_Add bf k =
     BloomFilter_Add_loop (HashKey k 0xbc9f1d34) (HashKey k 0x9747b28c)
       [0 ..< nat (bf_num_hash_functions bf)] bf"

fun BloomFilter_MayContain_loop :: "u32 \<Rightarrow> u32 \<Rightarrow> nat list \<Rightarrow> BloomFilter \<Rightarrow> bool option" where
  "BloomFilter_MayContain_loop h1 h2 [] bf = Some True"
| "BloomFilter_MayContain_loop h1 h2 (i # is) bf =
     do { p \<leftarrow> bit_pos bf h1 h2 i;
          let j = unat p div 8;
          if j < length (bf_bits bf)
          then if bf_bits bf ! j AND push_bit (unat p mod 8) 1 = 0 then Some False
               else BloomFilter_MayContain_loop h1 h2 is bf
          else None }"

definition BloomFilter_MayContain :: "BloomFilter \<Rightarrow> key \<Rightarrow> bool option" where
  "BloomFilter_MayContain bf k =
     BloomFilter_MayContain_loop (HashKey k 0xbc9f1d34) (HashKey k 0x9747b28c)
       [0 ..< nat (bf_num_hash_functions bf)] bf"

subsection \<open>The filter as a set of positions\<close>

definition BloomFilter_wf :: "BloomFilter \<Rightarrow> bool" where
  "BloomFilter_wf bf \<longleftrightarrow> bf_num_bits bf \<noteq> 0 \<and> unat (bf_num_bits bf) \<le> 8 * length (bf_bits bf)"

definition test_pos :: "bytes \<Rightarrow> nat \<Rightarrow> bool" where
  "test_pos bs p = bit (bs ! (p div 8)) (p mod 8)"

definition positions :: "BloomFilter \<Rightarrow> u32 \<Rightarrow> u32 \<Rightarrow> nat list \<Rightarrow> nat set" where
  "positions bf h1 h2 is = (\<lambda>i. unat (the (bit_pos bf h1 h2 i))) ` set is"

lemma bit_pos_wf:
  assumes "BloomFilter_wf bf"
  shows "\<exists>p. bit_pos bf h1 h2 i = Some p \<and> unat p div 8 < length (bf_bits bf)"
proof -
  let ?x = "ucast (h1 + of_nat i * h2) :: u64" and ?n = "bf_num_bits bf"
  have "unat (h1 + of_nat i * h2) < 2 ^ LENGTH(32)" by (rule unsigned_less)
  then have "unat ?x < 2 ^ 32" by (simp add: unsigned_ucast_eq take_bit_nat_eq_self)
  moreover have "unat (?x mod ?n) = unat ?x mod unat ?n" by (simp add: unat_mod_distrib)
  moreover have n: "0 < unat ?n" using assms by (simp add: BloomFilter_wf_def unat_gt_0)
  ultimately have small: "unat (?x mod ?n) < 2 ^ 32" and lt: "unat (?x mod ?n) < unat ?n"
    by (auto intro: le_less_trans [OF mod_less_eq_dividend])
  from small have "unat (ucast (?x mod ?n) :: u32) = unat (?x mod ?n)"
    by (simp add: unsigned_ucast_eq take_bit_nat_eq_self)
  with lt assms show ?thesis
    by (auto simp: bit_pos_def BloomFilter_wf_def)
qed

lemma bit_pos_bits [simp]: "bit_pos (bf\<lparr>bf_bits := bs\<rparr>) = bit_pos bf"
  by (simp add: bit_pos_def fun_eq_iff)

lemma test_pos_set:
  assumes "p div 8 < length bs"
  shows "test_pos (bs[p div 8 := bs ! (p div 8) OR 2 ^ (p mod 8)]) q \<longleftrightarrow> test_pos bs q \<or> q = p"
proof -
  have "bit (2 ^ (p mod 8) :: byte) (q mod 8) \<longleftrightarrow> q mod 8 = p mod 8"
    by (auto simp: bit_simps)
  moreover have "q = p \<longleftrightarrow> q div 8 = p div 8 \<and> q mod 8 = p mod 8"
    by (metis div_mult_mod_eq)
  ultimately show ?thesis
    using assms by (auto simp: test_pos_def nth_list_update bit_or_iff)
qed

lemma masked_zero_iff: "b AND 2 ^ n = (0 :: byte) \<longleftrightarrow> \<not> bit b n"
  by (simp add: and_exp_eq_0_iff_not_bit)

lemma Add_loop_ok:
  assumes "BloomFilter_wf bf"
  shows "\<exists>bf'. BloomFilter_Add_loop h1 h2 is bf = Some bf'
    \<and> length (bf_bits bf') = length (bf_bits bf) \<and> bf_num_bits bf' = bf_num_bits bf
    \<and> bf_num_hash_functions bf' = bf_num_hash_functions bf
    \<and> (\<forall>q. test_pos (bf_bits bf') q \<longleftrightarrow> test_pos (bf_bits bf) q \<or> q \<in> positions bf h1 h2 is)"
  using assms
proof (induction "is" arbitrary: bf)
  case (Cons i "is")
  obtain p where p: "bit_pos bf h1 h2 i = Some p" "unat p div 8 < length (bf_bits bf)"
    using bit_pos_wf [OF Cons.prems] by blast
  let ?bs = "(bf_bits bf)[unat p div 8 := bf_bits bf ! (unat p div 8) OR push_bit (unat p mod 8) 1]"
  let ?bf = "bf\<lparr>bf_bits := ?bs\<rparr>"
  have "BloomFilter_wf ?bf" using Cons.prems by (simp add: BloomFilter_wf_def)
  moreover have "positions ?bf h1 h2 is = positions bf h1 h2 is"
    by (simp add: positions_def)
  ultimately obtain bf' where "BloomFilter_Add_loop h1 h2 is ?bf = Some bf'"
    "length (bf_bits bf') = length ?bs" "bf_num_bits bf' = bf_num_bits bf"
    "bf_num_hash_functions bf' = bf_num_hash_functions bf"
    "\<forall>q. test_pos (bf_bits bf') q \<longleftrightarrow> test_pos ?bs q \<or> q \<in> positions bf h1 h2 is"
    using Cons.IH [of ?bf] by auto
  with p show ?case
    by (auto simp: test_pos_set positions_def Let_def)
qed (simp add: positions_def)

lemma MayContain_loop_ok:
  assumes "BloomFilter_wf bf"
  shows "BloomFilter_MayContain_loop h1 h2 is bf = Some (\<forall>q \<in> positions bf h1 h2 is. test_pos (bf_bits bf) q)"
  using assms
proof (induction "is")
  case (Cons i "is")
  obtain p where "bit_pos bf h1 h2 i = Some p" "unat p div 8 < length (bf_bits bf)"
    using bit_pos_wf [OF Cons.prems] by blast
  with Cons show ?case
    by (auto simp: positions_def test_pos_def masked_zero_iff Let_def)
qed (simp add: positions_def)

subsection \<open>The interface: a filter without false negatives\<close>

locale membership_filter =
  fixes invar :: "'f \<Rightarrow> bool"
    and add :: "'f \<Rightarrow> key \<Rightarrow> 'f option"
    and query :: "'f \<Rightarrow> key \<Rightarrow> bool option"
  assumes add_ok: "invar f \<Longrightarrow> \<exists>f'. add f k = Some f' \<and> invar f' \<and> query f' k = Some True"
    and add_mono: "invar f \<Longrightarrow> add f k = Some f' \<Longrightarrow> query f k' = Some True \<Longrightarrow> query f' k' = Some True"
    and query_total: "invar f \<Longrightarrow> \<exists>r. query f k = Some r"
begin

lemma run_ops_add:
  assumes "invar f"
  shows "\<exists>f'. run_ops add f ks = Some f' \<and> invar f'
    \<and> (\<forall>k. k \<in> set ks \<or> query f k = Some True \<longrightarrow> query f' k = Some True)"
  using assms
proof (induction ks arbitrary: f)
  case (Cons k ks)
  obtain f1 where f1: "add f k = Some f1" "invar f1" "query f1 k = Some True"
    using add_ok [OF Cons.prems] by blast
  from Cons.IH [OF f1(2)] obtain f' where f': "run_ops add f1 ks = Some f'" "invar f'"
    "\<And>k'. k' \<in> set ks \<or> query f1 k' = Some True \<Longrightarrow> query f' k' = Some True" by blast
  show ?case
  proof (intro exI conjI allI impI)
    show "run_ops add f (k # ks) = Some f'" using f1(1) f'(1) by simp
    show "invar f'" by (rule f'(2))
    fix k' assume "k' \<in> set (k # ks) \<or> query f k' = Some True"
    then show "query f' k' = Some True"
      using f1 f'(3) add_mono [OF Cons.prems f1(1), of k'] by auto
  qed
qed auto

end

lemma Add_ok:
  assumes "BloomFilter_wf bf"
  shows "\<exists>bf'. BloomFilter_Add bf k = Some bf' \<and> BloomFilter_wf bf'
    \<and> length (bf_bits bf') = length (bf_bits bf) \<and> bf_num_bits bf' = bf_num_bits bf
    \<and> bf_num_hash_functions bf' = bf_num_hash_functions bf
    \<and> (\<forall>k'. BloomFilter_MayContain bf' k' = Some True
        \<longleftrightarrow> (\<forall>q \<in> positions bf (HashKey k' 0xbc9f1d34) (HashKey k' 0x9747b28c) [0 ..< nat (bf_num_hash_functions bf)].
              test_pos (bf_bits bf) q
              \<or> q \<in> positions bf (HashKey k 0xbc9f1d34) (HashKey k 0x9747b28c) [0 ..< nat (bf_num_hash_functions bf)]))"
proof -
  obtain bf' where bf': "BloomFilter_Add bf k = Some bf'" "length (bf_bits bf') = length (bf_bits bf)"
    "bf_num_bits bf' = bf_num_bits bf" "bf_num_hash_functions bf' = bf_num_hash_functions bf"
    "\<forall>q. test_pos (bf_bits bf') q \<longleftrightarrow> test_pos (bf_bits bf) q
       \<or> q \<in> positions bf (HashKey k 0xbc9f1d34) (HashKey k 0x9747b28c) [0 ..< nat (bf_num_hash_functions bf)]"
    using Add_loop_ok [OF assms] unfolding BloomFilter_Add_def by metis
  then have wf: "BloomFilter_wf bf'" using assms by (simp add: BloomFilter_wf_def)
  have "bit_pos bf' = bit_pos bf" by (intro ext) (unfold bit_pos_def bf'(3), rule refl)
  then have "positions bf' = positions bf" by (simp add: positions_def fun_eq_iff)
  with bf' wf show ?thesis
    by (simp add: BloomFilter_MayContain_def MayContain_loop_ok)
qed

lemma MayContain_wf:
  "BloomFilter_wf bf \<Longrightarrow> BloomFilter_MayContain bf k = Some True
     \<longleftrightarrow> (\<forall>q \<in> positions bf (HashKey k 0xbc9f1d34) (HashKey k 0x9747b28c) [0 ..< nat (bf_num_hash_functions bf)].
            test_pos (bf_bits bf) q)"
  by (simp add: BloomFilter_MayContain_def MayContain_loop_ok)

interpretation bloom: membership_filter BloomFilter_wf BloomFilter_Add BloomFilter_MayContain
proof unfold_locales
  fix f f' k k'
  assume wf: "BloomFilter_wf f"
  from Add_ok [OF wf, of k] show "\<exists>f'. BloomFilter_Add f k = Some f' \<and> BloomFilter_wf f' \<and> BloomFilter_MayContain f' k = Some True"
    by blast
  show "\<exists>r. BloomFilter_MayContain f k = Some r"
    using wf by (simp add: BloomFilter_MayContain_def MayContain_loop_ok)
  assume "BloomFilter_Add f k = Some f'" "BloomFilter_MayContain f k' = Some True"
  with Add_ok [OF wf, of k] MayContain_wf [OF wf, of k'] show "BloomFilter_MayContain f' k' = Some True"
    by (metis option.inject)
qed

text \<open>The constructor: with a request of less than \<open>2^64 - 7\<close> bits nothing wraps.\<close>

lemma BloomFilter_new_wf:
  assumes "unat (expected_keys * word_of_int bits_per_key :: u64) < 2 ^ 64 - 8"
  shows "BloomFilter_wf (BloomFilter_new expected_keys bits_per_key)
    \<and> unat (bf_num_bits (BloomFilter_new expected_keys bits_per_key))
      = 8 * ((max (unat (expected_keys * word_of_int bits_per_key :: u64)) 64 + 7) div 8)
    \<and> length (bf_bits (BloomFilter_new expected_keys bits_per_key))
      = (max (unat (expected_keys * word_of_int bits_per_key :: u64)) 64 + 7) div 8"
proof -
  let ?n = "max (expected_keys * word_of_int bits_per_key) 64 :: u64"
  let ?b = "(?n + 7) div 8"
  have n: "unat ?n = max (unat (expected_keys * word_of_int bits_per_key :: u64)) 64"
    by (simp add: max_def word_le_nat_alt)
  with assms have lt: "unat ?n < 2 ^ 64 - 8" by simp
  then have "unat (?n + 7) = unat ?n + 7" by (simp add: unat_word_ariths)
  then have b: "unat ?b = (unat ?n + 7) div 8" by (simp add: unat_div_distrib)
  then have "8 * unat ?b < 2 ^ 64" using lt by simp
  then have b8: "unat (?b * 8) = 8 * unat ?b" by (simp add: unat_word_ariths)
  have "64 \<le> unat ?n" by (simp add: n)
  with b have "0 < unat ?b" by simp
  with b8 have "?b * 8 \<noteq> 0" by (metis mult_pos_pos unat_0 less_irrefl zero_less_numeral)
  then show ?thesis
    using b8 b n by (simp add: BloomFilter_new_def BloomFilter_wf_def Let_def)
qed

subsection \<open>Properties\<close>

text \<open>C22. A Bloom filter has no false negatives: a filter created for some number of keys (whose bit
  count does not wrap) accepts any keys without an access outside its array, also more than
  announced, and afterwards answers true for every one of them.\<close>

theorem BloomFilter_no_false_negatives:
  assumes "unat (expected_keys * word_of_int bits_per_key :: u64) < 2 ^ 64 - 8" and "k \<in> set ks"
  shows "\<exists>bf. run_ops BloomFilter_Add (BloomFilter_new expected_keys bits_per_key) ks = Some bf
    \<and> BloomFilter_MayContain bf k = Some True"
  using bloom.run_ops_add [of "BloomFilter_new expected_keys bits_per_key" ks] BloomFilter_new_wf [OF assms(1)] assms(2)
  by blast

theorem BloomFilter_no_false_negatives_witness:
  "\<exists>bf. run_ops BloomFilter_Add (BloomFilter_new 1 10) [''a'', ''b''] = Some bf
    \<and> BloomFilter_MayContain bf ''b'' = Some True"
  by (rule BloomFilter_no_false_negatives) simp_all

text \<open>The parameters the constructor chooses: at least one and at most 30 hash functions, seven for
  the ten bits per key that the table writer asks for.\<close>

theorem BloomFilter_hash_count_bounds:
  "1 \<le> BloomFilter_hash_count bits_per_key \<and> BloomFilter_hash_count bits_per_key \<le> 30
   \<and> BloomFilter_hash_count 10 = 7"
  by (simp add: BloomFilter_hash_count_def)

end
