(* ===== verification/SSTable_Writer.thy ===== *)
theory SSTable_Writer
  imports Block Bloom_Filter Files Skip_List
begin

text \<open>
  \<^verbatim>\<open>src/storage/sstable/sstable_writer.{h,cpp}\<close>: a sorted table file is the sequence of its data
  blocks, the Bloom filter, the index of the blocks and a footer of 48 bytes. The writer drains a
  skip-list iterator; every write goes through the buffered stream of the theory of files, every
  early return closes the stream. File offsets are 64-bit words, section sizes 32-bit words.
\<close>

record IndexEntry =
  ie_last_key :: key
  ie_block_offset :: u64
  ie_block_size :: u32

definition kMagicNumber :: u64 where "kMagicNumber = 0x0053535461626C65"
definition kFooterSize :: nat where "kFooterSize = 48"

text \<open>The local variables that the lambda \<^verbatim>\<open>flush_block\<close> captures by reference.\<close>

record SSTableWriter =
  sw_fs :: fs
  sw_file :: ofstream
  sw_index :: "IndexEntry list"
  sw_block :: Block
  sw_offset :: u64
  sw_total :: nat

definition flush_block :: "io \<Rightarrow> SSTableWriter \<Rightarrow> SSTableWriter \<times> Status" where
  "flush_block io st =
     (if Block_IsEmpty (sw_block st) then (st, Status_Ok)
      else let serialized = Block_Serialize (sw_block st);
               (fs, file) = os_write io (sw_fs st) (sw_file st) serialized
           in if \<not> os_good file
              then (st\<lparr>sw_fs := fs, sw_file := file\<rparr>, mk_Status kStorageIoError ''SSTable block write failed'')
              else (st\<lparr>sw_fs := fs, sw_file := file,
                       sw_index := sw_index st @
                         [\<lparr>ie_last_key = Block_LastKey (sw_block st), ie_block_offset = sw_offset st,
                           ie_block_size = to_u32 (length serialized)\<rparr>],
                       sw_total := sw_total st + Block_EntryCount (sw_block st),
                       sw_offset := sw_offset st + to_u64 (length serialized),
                       sw_block := Block_new\<rparr>, Status_Ok))"

fun add_entries :: "io \<Rightarrow> SSTableWriter \<Rightarrow> BlockEntry list \<Rightarrow> SSTableWriter \<times> Status" where
  "add_entries io st [] = (st, Status_Ok)"
| "add_entries io st (e # es) =
     (case Block_Add (sw_block st) e of
        (b, True) \<Rightarrow> add_entries io (st\<lparr>sw_block := b\<rparr>) es
      | (b, False) \<Rightarrow>
          (case flush_block io (st\<lparr>sw_block := b\<rparr>) of (st, status) \<Rightarrow>
             if \<not> Status_IsOk status then (st, status)
             else add_entries io (st\<lparr>sw_block := fst (Block_Add (sw_block st) e)\<rparr>) es))"

definition bloom_section :: "BloomFilter \<Rightarrow> bytes" where
  "bloom_section bloom =
     (let bloom_block = WriteUint32 [] (ucast (bf_num_bits bloom));
          bloom_block = WriteUint32 bloom_block (word_of_int (bf_num_hash_functions bloom))
      in bloom_block @ bf_bits bloom)"

definition WriteIndexEntry :: "IndexEntry \<Rightarrow> bytes \<Rightarrow> bytes" where
  "WriteIndexEntry idx index_block =
     (let index_block = WriteUint32 index_block (to_u32 (length (ie_last_key idx)));
          index_block = index_block @ string_bytes (ie_last_key idx);
          index_block = WriteUint64 index_block (ie_block_offset idx)
      in WriteUint32 index_block (ie_block_size idx))"

definition index_section :: "IndexEntry list \<Rightarrow> bytes" where
  "index_section index = fold WriteIndexEntry index (WriteUint32 [] (to_u32 (length index)))"

definition footer_section :: "u64 \<Rightarrow> u32 \<Rightarrow> u64 \<Rightarrow> u32 \<Rightarrow> nat \<Rightarrow> bytes" where
  "footer_section bloom_offset bloom_size index_offset index_size total_entries =
     (let footer = WriteUint64 [] bloom_offset;
          footer = WriteUint64 footer (ucast bloom_size);
          footer = WriteUint64 footer index_offset;
          footer = WriteUint64 footer (ucast index_size);
          footer = WriteUint64 footer (to_u64 total_entries)
      in WriteUint64 footer kMagicNumber)"

text \<open>Phases 3 to 6 on an open stream. Closing the stream flushes what is buffered.\<close>

definition os_close :: "io \<Rightarrow> fs \<Rightarrow> ofstream \<Rightarrow> fs" where
  "os_close io fs file = fst (os_flush io fs file)"

definition write_sections :: "io \<Rightarrow> fs \<Rightarrow> ofstream \<Rightarrow> BloomFilter \<Rightarrow> BlockEntry list \<Rightarrow> fs \<times> Status" where
  "write_sections io fs file bloom all_entries =
     (let st = \<lparr>sw_fs = fs, sw_file = file, sw_index = [], sw_block = Block_new, sw_offset = 0, sw_total = 0\<rparr>;
          (st, status) = add_entries io st all_entries in
      if \<not> Status_IsOk status then (os_close io (sw_fs st) (sw_file st), status) else
      let (st, status) = flush_block io st in
      if \<not> Status_IsOk status then (os_close io (sw_fs st) (sw_file st), status) else
      let bloom_offset = sw_offset st;
          bloom_block = bloom_section bloom;
          (fs, file) = os_write io (sw_fs st) (sw_file st) bloom_block in
      if \<not> os_good file then (os_close io fs file, mk_Status kStorageIoError ''SSTable bloom write failed'') else
      let bloom_size = to_u32 (length bloom_block);
          index_offset = bloom_offset + ucast bloom_size;
          index_block = index_section (sw_index st);
          (fs, file) = os_write io fs file index_block in
      if \<not> os_good file then (os_close io fs file, mk_Status kStorageIoError ''SSTable index write failed'') else
      let index_size = to_u32 (length index_block);
          footer = footer_section bloom_offset bloom_size index_offset index_size (sw_total st);
          (fs, file) = os_write io fs file footer in
      if \<not> os_good file then (os_close io fs file, mk_Status kStorageIoError ''SSTable footer write failed'') else
      let (fs, file) = os_flush io fs file
      in (os_close io fs file, Status_Ok))"

definition block_entry_of :: "key \<times> SkipListValue \<Rightarrow> BlockEntry" where
  "block_entry_of e = \<lparr>be_key = fst e, be_value = slv_data (snd e), be_tombstone = is_tombstone (snd e)\<rparr>"

text \<open>The whole function; \<^const>\<open>None\<close> when the iterator or the filter would fault.\<close>

definition SSTableWriter_Write :: "io \<Rightarrow> fs \<Rightarrow> path \<Rightarrow> heap \<Rightarrow> addr option \<Rightarrow> (fs \<times> Status) option" where
  "SSTableWriter_Write io fs filepath h iter =
     (case open_trunc io fs filepath of
        None \<Rightarrow> Some (fs, mk_Status kStorageIoError (''Cannot create SSTable: '' @ filepath))
      | Some (fs, file) \<Rightarrow>
          do { kvs \<leftarrow> Iterator_drain h iter;
               let all_entries = map block_entry_of kvs;
               if all_entries = []
               then Some ((os_close io fs file)(filepath := None),
                          mk_Status kInvalidArgument ''Cannot write empty SSTable'')
               else do { bloom \<leftarrow> run_ops BloomFilter_Add
                                  (BloomFilter_new (to_u64 (length all_entries)) 10) (map be_key all_entries);
                         Some (write_sections io fs file bloom all_entries) } })"

subsection \<open>How entries are packed into blocks\<close>

fun pack :: "Block \<Rightarrow> BlockEntry list \<Rightarrow> Block list \<times> Block" where
  "pack b [] = ([], b)"
| "pack b (e # es) =
     (case Block_Add b e of
        (b', True) \<Rightarrow> pack b' es
      | (b', False) \<Rightarrow> (case pack (fst (Block_Add Block_new e)) es of (bs, c) \<Rightarrow> (b # bs, c)))"

definition data_blocks :: "BlockEntry list \<Rightarrow> Block list" where
  "data_blocks es = (case pack Block_new es of (bs, c) \<Rightarrow> bs @ (if Block_IsEmpty c then [] else [c]))"

fun index_of :: "u64 \<Rightarrow> Block list \<Rightarrow> IndexEntry list" where
  "index_of off [] = []"
| "index_of off (b # bs) =
     \<lparr>ie_last_key = Block_LastKey b, ie_block_offset = off, ie_block_size = to_u32 (length (Block_Serialize b))\<rparr>
     # index_of (off + to_u64 (length (Block_Serialize b))) bs"

definition data_bytes :: "Block list \<Rightarrow> bytes" where
  "data_bytes bs = concat (map Block_Serialize bs)"

lemma Block_Add_False: "Block_Add b e = (b', False) \<Longrightarrow> b' = b \<and> \<not> Block_IsEmpty b"
  by (auto simp: Block_Add_def Let_def Block_IsEmpty_def split: if_splits)

lemma Block_Add_True: "Block_Add b e = (b', True) \<Longrightarrow> bl_entries b' = bl_entries b @ [e]"
  by (auto simp: Block_Add_def Let_def split: if_splits)

lemma Block_Add_new: "bl_entries (fst (Block_Add Block_new e)) = [e]"
  by (simp add: Block_Add_def Let_def Block_new_def)

lemma pack_entries:
  "pack b es = (bs, c) \<Longrightarrow> concat (map bl_entries bs) @ bl_entries c = bl_entries b @ es
     \<and> (\<forall>x \<in> set bs. \<not> Block_IsEmpty x)"
proof (induction b es arbitrary: bs c rule: pack.induct)
  case (2 b e es)
  show ?case
  proof (cases "Block_Add b e")
    case (Pair b' added)
    show ?thesis
    proof (cases added)
      case True
      with 2 Pair Block_Add_True [of b e b'] show ?thesis by auto
    next
      case False
      obtain bs' c' where p: "pack (fst (Block_Add Block_new e)) es = (bs', c')" by force
      with 2 Pair False have bs: "bs = b # bs'" "c = c'" by auto
      from "2.IH"(2) [OF Pair [symmetric]] p False
      have "concat (map bl_entries bs') @ bl_entries c' = e # es \<and> (\<forall>x \<in> set bs'. \<not> Block_IsEmpty x)"
        by (auto simp: Block_Add_new)
      with bs Block_Add_False [of b e b'] Pair False show ?thesis by auto
    qed
  qed
qed simp

lemma data_blocks_ok:
  "concat (map bl_entries (data_blocks es)) = es \<and> (\<forall>b \<in> set (data_blocks es). \<not> Block_IsEmpty b)"
proof -
  obtain bs c where p: "pack Block_new es = (bs, c)" by force
  have db: "data_blocks es = bs @ (if Block_IsEmpty c then [] else [c])" by (simp add: data_blocks_def p)
  have "bl_entries Block_new = []" by (simp add: Block_new_def)
  with pack_entries [OF p] show ?thesis by (auto simp: db Block_IsEmpty_def)
qed

lemmas data_blocks_entries = data_blocks_ok [THEN conjunct1]
  and data_blocks_nonempty = data_blocks_ok [THEN conjunct2]

lemma index_of_append:
  "index_of off (xs @ ys) = index_of off xs @ index_of (off + to_u64 (length (data_bytes xs))) ys"
proof (induction xs arbitrary: off)
  case Nil
  then show ?case by (simp add: data_bytes_def to_u64_def)
next
  case (Cons b xs)
  have "to_u64 (length (data_bytes (b # xs))) = to_u64 (length (Block_Serialize b)) + to_u64 (length (data_bytes xs))"
    by (simp add: data_bytes_def to_u64_def)
  with Cons show ?case by (simp add: add.assoc)
qed

lemma length_index_of [simp]: "length (index_of off bs) = length bs"
  by (induction bs arbitrary: off) simp_all

lemma map_last_key_index_of [simp]: "map ie_last_key (index_of off bs) = map Block_LastKey bs"
  by (induction bs arbitrary: off) simp_all

lemma index_of_nth:
  assumes "i < length bs"
  shows "index_of off bs ! i = \<lparr>ie_last_key = Block_LastKey (bs ! i),
     ie_block_offset = off + to_u64 (length (data_bytes (take i bs))),
     ie_block_size = to_u32 (length (Block_Serialize (bs ! i)))\<rparr>"
proof -
  have "bs = take i bs @ bs ! i # drop (Suc i) bs" using assms by (rule id_take_nth_drop)
  then have "index_of off bs = index_of off (take i bs)
      @ index_of (off + to_u64 (length (data_bytes (take i bs)))) (bs ! i # drop (Suc i) bs)"
    by (metis index_of_append)
  with assms show ?thesis by (simp add: nth_append)
qed

subsection \<open>Writing on a working disk\<close>

text \<open>One stream state extends another by \<open>bs\<close>: nothing is lost and no other file is touched.\<close>

definition extends :: "fs \<Rightarrow> ofstream \<Rightarrow> bytes \<Rightarrow> fs \<Rightarrow> ofstream \<Rightarrow> bool" where
  "extends fs file bs fs' file' \<longleftrightarrow> os_good file' \<and> os_path file' = os_path file
     \<and> os_view fs' file' = os_view fs file @ bs \<and> (\<forall>q. q \<noteq> os_path file \<longrightarrow> fs' q = fs q)"

lemma extends_refl: "os_good file \<Longrightarrow> extends fs file [] fs file"
  by (simp add: extends_def)

lemma extends_trans:
  "extends fs file bs fs1 file1 \<Longrightarrow> extends fs1 file1 cs fs2 file2 \<Longrightarrow> extends fs file (bs @ cs) fs2 file2"
  by (simp add: extends_def)

lemma os_write_extends:
  assumes "disk_limit io (os_path file) = None" "os_good file"
  shows "\<exists>fs' file'. os_write io fs file bs = (fs', file') \<and> extends fs file bs fs' file'"
proof -
  obtain fs' file' where w: "os_write io fs file bs = (fs', file')" by force
  with os_write_fine [OF assms, of fs bs] os_write_other [where os = "file" and io = io and fs = fs and bs = bs]
    os_path_write [of io fs "file" bs]
  show ?thesis by (auto simp: extends_def)
qed

lemma flush_block_fine:
  assumes "disk_limit io (os_path (sw_file st)) = None" "os_good (sw_file st)" "\<not> Block_IsEmpty (sw_block st)"
  shows "\<exists>fs' file'. flush_block io st =
      (st\<lparr>sw_fs := fs', sw_file := file', sw_index := sw_index st @ index_of (sw_offset st) [sw_block st],
          sw_total := sw_total st + Block_EntryCount (sw_block st),
          sw_offset := sw_offset st + to_u64 (length (data_bytes [sw_block st])), sw_block := Block_new\<rparr>, Status_Ok)
    \<and> extends (sw_fs st) (sw_file st) (data_bytes [sw_block st]) fs' file'"
proof -
  obtain fs' file' where "os_write io (sw_fs st) (sw_file st) (Block_Serialize (sw_block st)) = (fs', file')"
    "extends (sw_fs st) (sw_file st) (Block_Serialize (sw_block st)) fs' file'"
    using os_write_extends [OF assms(1,2)] by blast
  moreover from this have "os_good file'" by (simp add: extends_def)
  ultimately show ?thesis
    using assms(3) by (intro exI [of _ fs'] exI [of _ file']) (simp add: flush_block_def Let_def data_bytes_def)
qed

lemma add_entries_fine:
  assumes "disk_limit io (os_path (sw_file st)) = None" "os_good (sw_file st)" "pack (sw_block st) es = (bs, c)"
  shows "\<exists>fs' file'. add_entries io st es =
      (st\<lparr>sw_fs := fs', sw_file := file', sw_index := sw_index st @ index_of (sw_offset st) bs,
          sw_total := sw_total st + length (concat (map bl_entries bs)),
          sw_offset := sw_offset st + to_u64 (length (data_bytes bs)), sw_block := c\<rparr>, Status_Ok)
    \<and> extends (sw_fs st) (sw_file st) (data_bytes bs) fs' file'"
  using assms
proof (induction es arbitrary: st bs)
  case Nil
  then show ?case
    by (intro exI [of _ "sw_fs st"] exI [of _ "sw_file st"])
       (simp add: data_bytes_def to_u64_def extends_refl)
next
  case (Cons e es)
  obtain b' added where a: "Block_Add (sw_block st) e = (b', added)" by force
  show ?case
  proof (cases added)
    case True
    with Cons.prems a have "pack b' es = (bs, c)" by simp
    with Cons.IH [of "st\<lparr>sw_block := b'\<rparr>" bs] Cons.prems a True show ?thesis by simp
  next
    case False
    then have b': "b' = sw_block st" "\<not> Block_IsEmpty (sw_block st)" using a Block_Add_False by auto
    obtain bs' where p: "pack (fst (Block_Add Block_new e)) es = (bs', c)" "bs = sw_block st # bs'"
      using Cons.prems(3) a False by (auto split: prod.splits)
    obtain fs1 file1 where f: "flush_block io st =
       (st\<lparr>sw_fs := fs1, sw_file := file1, sw_index := sw_index st @ index_of (sw_offset st) [sw_block st],
          sw_total := sw_total st + Block_EntryCount (sw_block st),
          sw_offset := sw_offset st + to_u64 (length (data_bytes [sw_block st])), sw_block := Block_new\<rparr>, Status_Ok)"
      "extends (sw_fs st) (sw_file st) (data_bytes [sw_block st]) fs1 file1"
      using flush_block_fine [OF Cons.prems(1,2) b'(2)] by blast
    let ?st = "st\<lparr>sw_fs := fs1, sw_file := file1, sw_index := sw_index st @ index_of (sw_offset st) [sw_block st],
          sw_total := sw_total st + Block_EntryCount (sw_block st),
          sw_offset := sw_offset st + to_u64 (length (data_bytes [sw_block st])),
          sw_block := fst (Block_Add Block_new e)\<rparr>"
    have "disk_limit io (os_path (sw_file ?st)) = None" "os_good (sw_file ?st)"
      using f(2) Cons.prems(1) by (simp_all add: extends_def)
    from Cons.IH [OF this, of bs'] p(1) obtain fs2 file2 where g: "add_entries io ?st es =
      (?st\<lparr>sw_fs := fs2, sw_file := file2, sw_index := sw_index ?st @ index_of (sw_offset ?st) bs',
          sw_total := sw_total ?st + length (concat (map bl_entries bs')),
          sw_offset := sw_offset ?st + to_u64 (length (data_bytes bs')), sw_block := c\<rparr>, Status_Ok)"
      "extends (sw_fs ?st) (sw_file ?st) (data_bytes bs') fs2 file2" by auto
    have "extends (sw_fs st) (sw_file st) (data_bytes bs) fs2 file2"
      using extends_trans [OF f(2)] g(2) p(2) by (simp add: data_bytes_def)
    moreover have st: "st\<lparr>sw_block := sw_block st\<rparr> = st" by simp
    ultimately show ?thesis
      using a False b' f(1) g(1) p(2)
      by (intro exI [of _ fs2] exI [of _ file2])
         (simp add: Status_IsOk_def Status_Ok_def Block_EntryCount_def data_bytes_def to_u64_def add.assoc)
  qed
qed

text \<open>The bytes of a whole table.\<close>

definition SSTable_image :: "BloomFilter \<Rightarrow> BlockEntry list \<Rightarrow> bytes" where
  "SSTable_image bloom es =
     (let data = data_bytes (data_blocks es); index = index_section (index_of 0 (data_blocks es)) in
      data @ bloom_section bloom @ index
      @ footer_section (to_u64 (length data)) (to_u32 (length (bloom_section bloom)))
          (to_u64 (length data) + ucast (to_u32 (length (bloom_section bloom)))) (to_u32 (length index)) (length es))"

lemma final_flush:
  assumes "disk_limit io (os_path file) = None" "extends fs0 file0 bs fs file" "os_path file0 = p" "os_view fs0 file0 = []"
  shows "fst (os_flush io (fst (os_flush io fs file)) (snd (os_flush io fs file))) = fs0(p \<mapsto> bs)"
  using assms by (auto simp: extends_def os_flush_fine fun_eq_iff os_view_def)

lemma data_phase_fine:
  assumes "disk_limit io (os_path file) = None" "os_good file"
  shows "\<exists>st1 st2. add_entries io \<lparr>sw_fs = fs, sw_file = file, sw_index = [], sw_block = Block_new, sw_offset = 0, sw_total = 0\<rparr> es
       = (st1, Status_Ok) \<and> flush_block io st1 = (st2, Status_Ok)
     \<and> sw_index st2 = index_of 0 (data_blocks es) \<and> sw_offset st2 = to_u64 (length (data_bytes (data_blocks es)))
     \<and> sw_total st2 = length es \<and> extends fs file (data_bytes (data_blocks es)) (sw_fs st2) (sw_file st2)"
proof -
  let ?st0 = "\<lparr>sw_fs = fs, sw_file = file, sw_index = [], sw_block = Block_new, sw_offset = 0, sw_total = 0\<rparr>"
  obtain bs c where p: "pack Block_new es = (bs, c)" by force
  have db: "data_blocks es = bs @ (if Block_IsEmpty c then [] else [c])" by (simp add: data_blocks_def p)
  have "length es = length (concat (map bl_entries bs)) + length (bl_entries c)"
    using pack_entries [OF p] by (metis Block.Block.select_convs(1) Block_new_def append_Nil length_append)
  note len = this
  obtain fs1 file1 where a: "add_entries io ?st0 es =
      (?st0\<lparr>sw_fs := fs1, sw_file := file1, sw_index := index_of 0 bs,
          sw_total := length (concat (map bl_entries bs)),
          sw_offset := to_u64 (length (data_bytes bs)), sw_block := c\<rparr>, Status_Ok)"
    "extends fs file (data_bytes bs) fs1 file1"
    using add_entries_fine [of io ?st0 es bs c] assms p by auto
  let ?st1 = "?st0\<lparr>sw_fs := fs1, sw_file := file1, sw_index := index_of 0 bs,
          sw_total := length (concat (map bl_entries bs)),
          sw_offset := to_u64 (length (data_bytes bs)), sw_block := c\<rparr>"
  show ?thesis
  proof (cases "Block_IsEmpty c")
    case True
    with a len show ?thesis
      by (intro exI [of _ ?st1]) (simp add: flush_block_def db Block_IsEmpty_def)
  next
    case False
    have "disk_limit io (os_path (sw_file ?st1)) = None" "os_good (sw_file ?st1)" "\<not> Block_IsEmpty (sw_block ?st1)"
      using a(2) assms False by (simp_all add: extends_def)
    from flush_block_fine [OF this] obtain fs2 file2 where f: "flush_block io ?st1 =
      (?st1\<lparr>sw_fs := fs2, sw_file := file2, sw_index := sw_index ?st1 @ index_of (sw_offset ?st1) [sw_block ?st1],
          sw_total := sw_total ?st1 + Block_EntryCount (sw_block ?st1),
          sw_offset := sw_offset ?st1 + to_u64 (length (data_bytes [sw_block ?st1])), sw_block := Block_new\<rparr>, Status_Ok)"
      "extends fs1 file1 (data_bytes [c]) fs2 file2" by auto
    have "extends fs file (data_bytes (data_blocks es)) fs2 file2"
      using extends_trans [OF a(2) f(2)] False by (simp add: db data_bytes_def)
    moreover have "to_u64 (length (data_bytes bs)) + to_u64 (length (data_bytes [c])) = to_u64 (length (data_bytes (data_blocks es)))"
      "index_of 0 (data_blocks es) = index_of 0 bs @ index_of (to_u64 (length (data_bytes bs))) [c]"
      using False by (simp add: db data_bytes_def to_u64_def, simp add: db index_of_append)
    ultimately show ?thesis
      using a(1) f(1) len by (intro exI [of _ ?st1] exI, intro conjI) (assumption | simp add: Block_EntryCount_def)+
  qed
qed

lemma write_sections_fine:
  assumes io: "io_fine io" and os: "os_good file" "os_path file = p" "os_view fs file = []"
  shows "write_sections io fs file bloom es = (fs(p \<mapsto> SSTable_image bloom es), Status_Ok)"
proof -
  let ?data = "data_bytes (data_blocks es)" and ?index = "index_section (index_of 0 (data_blocks es))"
  obtain st1 st2 where d: "add_entries io \<lparr>sw_fs = fs, sw_file = file, sw_index = [], sw_block = Block_new,
        sw_offset = 0, sw_total = 0\<rparr> es = (st1, Status_Ok)"
      "flush_block io st1 = (st2, Status_Ok)" "sw_index st2 = index_of 0 (data_blocks es)"
      "sw_offset st2 = to_u64 (length ?data)" "sw_total st2 = length es"
      "extends fs file ?data (sw_fs st2) (sw_file st2)"
    using data_phase_fine [of io "file" fs es] io os(1) by auto
  have wr: "\<exists>fs2 file2. os_write io fs1 file1 cs = (fs2, file2) \<and> extends fs file (bs @ cs) fs2 file2 \<and> os_good file2"
    if ext: "extends fs file bs fs1 file1" for fs1 file1 bs cs
  proof -
    obtain fs2 file2 where "os_write io fs1 file1 cs = (fs2, file2)" "extends fs1 file1 cs fs2 file2"
      using os_write_extends [of io file1 fs1 cs] ext io by (auto simp: extends_def)
    with extends_trans [OF ext] show ?thesis by (auto simp: extends_def)
  qed
  let ?foot = "footer_section (to_u64 (length ?data)) (to_u32 (length (bloom_section bloom)))
     (to_u64 (length ?data) + ucast (to_u32 (length (bloom_section bloom)))) (to_u32 (length ?index)) (length es)"
  obtain fs3 file3 where w3: "os_write io (sw_fs st2) (sw_file st2) (bloom_section bloom) = (fs3, file3)" "os_good file3"
      "extends fs file (?data @ bloom_section bloom) fs3 file3"
    using wr [OF d(6)] by blast
  obtain fs4 file4 where w4: "os_write io fs3 file3 ?index = (fs4, file4)" "os_good file4"
      "extends fs file ((?data @ bloom_section bloom) @ ?index) fs4 file4"
    using wr [OF w3(3)] by blast
  obtain fs5 file5 where w5: "os_write io fs4 file4 ?foot = (fs5, file5)" "os_good file5"
      "extends fs file (((?data @ bloom_section bloom) @ ?index) @ ?foot) fs5 file5"
    using wr [OF w4(3)] by blast
  have "fst (os_flush io (fst (os_flush io fs5 file5)) (snd (os_flush io fs5 file5)))
      = fs(p \<mapsto> ((?data @ bloom_section bloom) @ ?index) @ ?foot)"
    using io by (intro final_flush [OF _ w5(3) os(2,3)]) simp
  moreover obtain fs6 file6 where "os_flush io fs5 file5 = (fs6, file6)" by force
  ultimately show ?thesis
    using d w3 w4 w5
    by (simp add: write_sections_def Status_IsOk_def Status_Ok_def SSTable_image_def Let_def os_close_def)
qed

text \<open>The filter the writer builds, and the whole function on a working disk.\<close>

definition table_bloom :: "BlockEntry list \<Rightarrow> BloomFilter option" where
  "table_bloom es = run_ops BloomFilter_Add (BloomFilter_new (to_u64 (length es)) 10) (map be_key es)"

lemma run_ops_Add_shape:
  "BloomFilter_wf bf \<Longrightarrow> run_ops BloomFilter_Add bf ks = Some bf' \<Longrightarrow>
   BloomFilter_wf bf' \<and> length (bf_bits bf') = length (bf_bits bf) \<and> bf_num_bits bf' = bf_num_bits bf
   \<and> bf_num_hash_functions bf' = bf_num_hash_functions bf"
proof (induction ks arbitrary: bf)
  case (Cons k ks)
  with Add_ok [OF Cons.prems(1), of k] show ?case by (auto split: bind_splits)
qed simp

lemma table_bloom_ok:
  assumes "10 * length es < 2 ^ 32 - 8"
  shows "\<exists>bloom. table_bloom es = Some bloom \<and> BloomFilter_wf bloom
    \<and> bf_num_hash_functions bloom = 7 \<and> unat (bf_num_bits bloom) < 2 ^ 32
    \<and> length (bf_bits bloom) \<le> 2 * length es + 8
    \<and> (\<forall>k. k \<in> be_key ` set es \<longrightarrow> BloomFilter_MayContain bloom k = Some True)
    \<and> (\<forall>k. \<exists>r. BloomFilter_MayContain bloom k = Some r)"
proof -
  let ?n = "to_u64 (length es) * word_of_int 10 :: u64"
  have n: "unat ?n = 10 * length es" using assms by (simp add: unat_word_ariths)
  then have lt: "unat ?n < 2 ^ 64 - 8" using assms by simp
  note new = BloomFilter_new_wf [OF lt]
  obtain bloom where b: "table_bloom es = Some bloom" "BloomFilter_wf bloom"
    "\<forall>k. k \<in> set (map be_key es) \<longrightarrow> BloomFilter_MayContain bloom k = Some True"
    using bloom.run_ops_add [of "BloomFilter_new (to_u64 (length es)) 10" "map be_key es"] new
    unfolding table_bloom_def by blast
  have shape: "length (bf_bits bloom) = (max (10 * length es) 64 + 7) div 8"
    "unat (bf_num_bits bloom) = 8 * ((max (10 * length es) 64 + 7) div 8)" "bf_num_hash_functions bloom = 7"
    using run_ops_Add_shape [of "BloomFilter_new (to_u64 (length es)) 10" "map be_key es" bloom] new b(1) n
    unfolding table_bloom_def by (auto simp: BloomFilter_new_def BloomFilter_hash_count_def Let_def)
  have "(max (10 * length es) 64 + 7) div 8 \<le> 2 * length es + 8" by (simp add: max_def) linarith
  moreover have "8 * ((max (10 * length es) 64 + 7) div 8) < 2 ^ 32" using assms by (simp add: max_def) linarith
  ultimately show ?thesis using b shape bloom.query_total [OF b(2)] by auto
qed

lemma SSTableWriter_Write_fine:
  assumes "io_fine io" "Iterator_drain h it = Some kvs" "kvs \<noteq> []" "table_bloom (map block_entry_of kvs) = Some bloom"
  shows "SSTableWriter_Write io fs p h it = Some (fs(p \<mapsto> SSTable_image bloom (map block_entry_of kvs)), Status_Ok)"
proof -
  have "write_sections io (fs(p \<mapsto> [])) \<lparr>os_path = p, os_buf = [], os_good = True\<rparr> bloom (map block_entry_of kvs)
    = ((fs(p \<mapsto> []))(p \<mapsto> SSTable_image bloom (map block_entry_of kvs)), Status_Ok)"
    by (rule write_sections_fine [OF assms(1)]) (simp_all add: os_view_def)
  with assms show ?thesis
    by (simp add: SSTableWriter_Write_def open_trunc_def table_bloom_def)
qed

lemma SSTableWriter_Write_empty:
  assumes "io_fine io" "Iterator_drain h it = Some []"
  shows "SSTableWriter_Write io fs p h it
    = Some (fs(p := None), mk_Status kInvalidArgument ''Cannot write empty SSTable'')"
  using assms
  by (simp add: SSTableWriter_Write_def open_trunc_def os_close_def os_flush_fine os_view_def)

end
