(* ===== verification/SSTable_Reader.thy ===== *)
theory SSTable_Reader
  imports SSTable_Writer
begin

text \<open>
  \<^verbatim>\<open>src/storage/sstable/sstable_reader.{h,cpp}\<close>: opening a table loads footer, Bloom filter and
  index; a lookup asks the filter, bisects the index and reads one block. The outer option of a
  result is an exception or undefined behaviour: a section size or an entry count beyond what a vector can hold, a
  filter without bits, an index access out of range. The exhaustion of memory is not modelled.
\<close>

record SSTableReader =
  sr_filepath :: path
  sr_bloom :: BloomFilter
  sr_index :: "IndexEntry list"
  sr_num_entries :: u64

text \<open>\<^verbatim>\<open>seekg(off); read(buf, size)\<close> on an open stream: the bytes delivered and whether the stream
  is still good. An offset that is negative as \<^verbatim>\<open>streamoff\<close> makes the seek fail.\<close>

definition seek_read :: "bytes \<Rightarrow> u64 \<Rightarrow> nat \<Rightarrow> bytes \<times> bool" where
  "seek_read input off n =
     (if unat off \<ge> 2 ^ 63 then ([], False)
      else let got = take n (drop (unat off) input) in (got, length got = n))"

definition vector_max_size :: nat where "vector_max_size = 2 ^ 63 - 1"

definition ReadIndexEntry :: "bytes \<Rightarrow> nat \<Rightarrow> (IndexEntry \<times> nat) ErrorOr" where
  "ReadIndexEntry index_buf idx_off =
     assign_or_return (ReadUint32 index_buf idx_off) (\<lambda>(key_len, idx_off).
       if idx_off + unat key_len > length index_buf
       then Error (mk_Status kStorageCorruption ''Index key extends past block'')
       else let last_key = bytes_string (take (unat key_len) (drop idx_off index_buf));
                idx_off = idx_off + unat key_len in
         assign_or_return (ReadUint64 index_buf idx_off) (\<lambda>(block_offset, idx_off).
           assign_or_return (ReadUint32 index_buf idx_off) (\<lambda>(block_size, idx_off).
             Value (\<lparr>ie_last_key = last_key, ie_block_offset = block_offset, ie_block_size = block_size\<rparr>, idx_off))))"

text \<open>The footer fields, in order.\<close>

definition read_footer :: "bytes \<Rightarrow> (u64 \<times> u64 \<times> u64 \<times> u64 \<times> u64 \<times> u64) ErrorOr" where
  "read_footer footer_buf =
     assign_or_return (ReadUint64 footer_buf 0) (\<lambda>(bloom_offset, off).
     assign_or_return (ReadUint64 footer_buf off) (\<lambda>(bloom_size, off).
     assign_or_return (ReadUint64 footer_buf off) (\<lambda>(index_offset, off).
     assign_or_return (ReadUint64 footer_buf off) (\<lambda>(index_size, off).
     assign_or_return (ReadUint64 footer_buf off) (\<lambda>(num_entries, off).
     assign_or_return (ReadUint64 footer_buf off) (\<lambda>(magic, off).
       Value (bloom_offset, bloom_size, index_offset, index_size, num_entries, magic)))))))"

definition read_bloom :: "bytes \<Rightarrow> BloomFilter ErrorOr" where
  "read_bloom bloom_buf =
     assign_or_return (ReadUint32 bloom_buf 0) (\<lambda>(num_bits, bloom_off).
     assign_or_return (ReadUint32 bloom_buf bloom_off) (\<lambda>(num_hash_fns, bloom_off).
       Value (BloomFilter_raw (drop bloom_off bloom_buf) (ucast num_bits) (sint num_hash_fns))))"

definition read_index :: "bytes \<Rightarrow> IndexEntry list ErrorOr" where
  "read_index index_buf =
     assign_or_return (ReadUint32 index_buf 0) (\<lambda>(num_index_entries, idx_off).
     assign_or_return (read_items ReadIndexEntry (unat num_index_entries) index_buf idx_off) (\<lambda>(index, _).
       Value index))"

definition SSTableReader_Open :: "io \<Rightarrow> fs \<Rightarrow> path \<Rightarrow> SSTableReader ErrorOr option" where
  "SSTableReader_Open io fs filepath =
     (if \<not> file_exists fs filepath
      then Some (Error (mk_Status kStorageIoError (''SSTable file not found: '' @ filepath)))
      else case open_read io fs filepath of
        None \<Rightarrow> Some (Error (mk_Status kStorageIoError (''Cannot open SSTable: '' @ filepath)))
      | Some input \<Rightarrow>
          if length input < kFooterSize
          then Some (Error (mk_Status kStorageCorruption (''SSTable too small for footer: '' @ filepath)))
          else case read_footer (drop (length input - kFooterSize) input) of
            Error st \<Rightarrow> Some (Error st)
          | Value (bloom_offset, bloom_size, index_offset, index_size, num_entries, magic) \<Rightarrow>
              if magic \<noteq> kMagicNumber
              then Some (Error (mk_Status kStorageCorruption (''Invalid SSTable magic number: '' @ filepath)))
              else if unat bloom_size > vector_max_size then None
              else case seek_read input bloom_offset (unat bloom_size) of (bloom_buf, good) \<Rightarrow>
                if \<not> good then Some (Error (mk_Status kStorageCorruption ''Failed to read bloom filter block''))
                else case read_bloom bloom_buf of
                  Error st \<Rightarrow> Some (Error st)
                | Value bloom \<Rightarrow>
                    if unat index_size > vector_max_size then None
                    else case seek_read input index_offset (unat index_size) of (index_buf, good) \<Rightarrow>
                      if \<not> good then Some (Error (mk_Status kStorageCorruption ''Failed to read index block''))
                      else Some (assign_or_return (read_index index_buf) (\<lambda>index.
                        Value \<lparr>sr_filepath = filepath, sr_bloom = bloom, sr_index = index,
                               sr_num_entries = num_entries\<rparr>)))"

definition SSTableReader_ReadBlock :: "io \<Rightarrow> fs \<Rightarrow> SSTableReader \<Rightarrow> u64 \<Rightarrow> u32 \<Rightarrow> Block ErrorOr" where
  "SSTableReader_ReadBlock io fs r block_offset block_size =
     (case open_read io fs (sr_filepath r) of
        None \<Rightarrow> Error (mk_Status kStorageIoError (''Cannot open SSTable for block read: '' @ sr_filepath r))
      | Some input \<Rightarrow>
          (case seek_read input block_offset (unat block_size) of (block_data, _) \<Rightarrow>
             if length block_data < unat block_size
             then Error (mk_Status kStorageCorruption ''Incomplete block read'')
             else Block_Deserialize block_data))"

text \<open>The bisection for the first block whose last key is not below \<open>k\<close>; \<^const>\<open>None\<close> is an access out
  of range.\<close>

function Index_search :: "IndexEntry list \<Rightarrow> key \<Rightarrow> int \<Rightarrow> int \<Rightarrow> int \<Rightarrow> int option" where
  "Index_search index k lo hi candidate =
     (if lo \<le> hi then
        let mid = lo + (hi - lo) div 2 in
        if mid < 0 \<or> mid \<ge> int (length index) then None
        else if ie_last_key (index ! nat mid) \<ge> k then Index_search index k lo (mid - 1) mid
        else Index_search index k (mid + 1) hi candidate
      else Some candidate)"
  by pat_completeness auto
termination
  by (relation "measure (\<lambda>(_, _, lo, hi, _). nat (hi - lo + 1))") auto

declare Index_search.simps [simp del]

definition SSTableReader_Get :: "io \<Rightarrow> fs \<Rightarrow> SSTableReader \<Rightarrow> key \<Rightarrow> BlockEntry option ErrorOr option" where
  "SSTableReader_Get io fs r k =
     do { may \<leftarrow> BloomFilter_MayContain (sr_bloom r) k;
          if \<not> may then Some (Value None)
          else do {
            candidate \<leftarrow> Index_search (sr_index r) k 0 (to_int32 (length (sr_index r)) - 1) (- 1);
            if candidate = - 1 then Some (Value None)
            else if candidate < 0 \<or> candidate \<ge> int (length (sr_index r)) then None
            else let idx = sr_index r ! nat candidate in
              case SSTableReader_ReadBlock io fs r (ie_block_offset idx) (ie_block_size idx) of
                Error st \<Rightarrow> Some (Error st)
              | Value block \<Rightarrow> do { result \<leftarrow> Block_Get block k; Some (Value result) } } }"

fun ReadAll_loop :: "io \<Rightarrow> fs \<Rightarrow> SSTableReader \<Rightarrow> IndexEntry list \<Rightarrow> BlockEntry list \<Rightarrow> BlockEntry list ErrorOr" where
  "ReadAll_loop io fs r [] all_entries = Value all_entries"
| "ReadAll_loop io fs r (idx # rest) all_entries =
     assign_or_return (SSTableReader_ReadBlock io fs r (ie_block_offset idx) (ie_block_size idx)) (\<lambda>block.
       ReadAll_loop io fs r rest (all_entries @ bl_entries block))"

text \<open>The entry count comes from the file and is reserved first: a count above what a vector of entries can
  hold throws, which is \<^const>\<open>None\<close>.\<close>

definition sizeof_BlockEntry :: nat where "sizeof_BlockEntry = 64"

definition SSTableReader_ReadAll :: "io \<Rightarrow> fs \<Rightarrow> SSTableReader \<Rightarrow> BlockEntry list ErrorOr option" where
  "SSTableReader_ReadAll io fs r =
     (if unat (sr_num_entries r) > vector_max_size div sizeof_BlockEntry then None
      else Some (ReadAll_loop io fs r (sr_index r) []))"

definition SSTableReader_NumEntries :: "SSTableReader \<Rightarrow> u64" where
  "SSTableReader_NumEntries r = sr_num_entries r"

subsection \<open>The sections read back\<close>

definition index_entry_bytes :: "IndexEntry \<Rightarrow> bytes" where
  "index_entry_bytes idx = string_field (ie_last_key idx) @ le_bytes 8 (ie_block_offset idx) @ le_bytes 4 (ie_block_size idx)"

lemma index_section_bytes:
  "index_section index = le_bytes 4 (to_u32 (length index)) @ concat (map index_entry_bytes index)"
proof -
  have "fold WriteIndexEntry xs buffer = buffer @ concat (map index_entry_bytes xs)" for xs buffer
    by (induction xs arbitrary: buffer)
       (simp_all add: WriteIndexEntry_def index_entry_bytes_def Write_fields string_field_def Let_def)
  then show ?thesis by (simp add: index_section_def Write_fields)
qed

lemma ReadIndexEntry_middle:
  assumes "length (ie_last_key e) < 2 ^ 32" "offset = length pre"
  shows "ReadIndexEntry (pre @ index_entry_bytes e @ post) offset = Value (e, offset + length (index_entry_bytes e))"
proof -
  let ?k = "string_bytes (ie_last_key e)" and ?kl = "le_bytes 4 (to_u32 (length (ie_last_key e)))"
  let ?o = "le_bytes 8 (ie_block_offset e)" and ?s = "le_bytes 4 (ie_block_size e)"
  define d where "d = pre @ ?kl @ ?k @ ?o @ ?s @ post"
  have d: "pre @ index_entry_bytes e @ post = d" by (simp add: d_def index_entry_bytes_def string_field_def)
  have 1: "ReadUint32 d offset = Value (to_u32 (length (ie_last_key e)), offset + 4)"
    using assms(2) by (simp add: d_def ReadUint32_middle)
  have 2: "take (length (ie_last_key e)) (drop (offset + 4) d) = ?k"
    using assms(2) by (simp add: d_def)
  have 3: "ReadUint64 d (offset + 4 + length (ie_last_key e)) = Value (ie_block_offset e, offset + 4 + length (ie_last_key e) + 8)"
    using assms(2) ReadUint64_middle [of "offset + 4 + length (ie_last_key e)" "pre @ ?kl @ ?k" _ "?s @ post"]
    by (simp add: d_def)
  have 4: "ReadUint32 d (offset + 4 + length (ie_last_key e) + 8)
      = Value (ie_block_size e, offset + 4 + length (ie_last_key e) + 8 + 4)"
    using assms(2) ReadUint32_middle [of "offset + 4 + length (ie_last_key e) + 8" "pre @ ?kl @ ?k @ ?o" _ post]
    by (simp add: d_def)
  have len: "length d = offset + 4 + length (ie_last_key e) + 12 + length post"
    using assms(2) by (simp add: d_def)
  show ?thesis
    unfolding d ReadIndexEntry_def
    using assms(1) by (simp add: 1 2 [simplified] 3 [simplified] 4 [simplified] len index_entry_bytes_def)
qed

interpretation index_entry: field_codec index_entry_bytes ReadIndexEntry "\<lambda>e. length (ie_last_key e) < 2 ^ 32"
  by unfold_locales (simp add: ReadIndexEntry_middle)

lemma read_index_section:
  assumes "length index < 2 ^ 32" "\<forall>e \<in> set index. length (ie_last_key e) < 2 ^ 32"
  shows "read_index (index_section index) = Value index"
proof -
  have "read_items ReadIndexEntry (length index)
      (le_bytes 4 (to_u32 (length index)) @ concat (map index_entry_bytes index) @ []) 4
    = Value (index, 4 + length (concat (map index_entry_bytes index)))"
    using assms(2) by (intro index_entry.read_items_enc) simp_all
  moreover have "ReadUint32 (index_section index) 0 = Value (to_u32 (length index), 4)"
    using ReadUint32_middle [of 0 "[]"] by (simp add: index_section_bytes)
  ultimately show ?thesis
    using assms(1) by (simp add: read_index_def index_section_bytes)
qed

lemma read_bloom_section:
  assumes "unat (bf_num_bits bloom) < 2 ^ 32" "0 \<le> bf_num_hash_functions bloom" "bf_num_hash_functions bloom < 2 ^ 31"
  shows "read_bloom (bloom_section bloom) = Value bloom"
proof -
  let ?n = "bf_num_bits bloom" and ?h = "bf_num_hash_functions bloom"
  define d where "d = le_bytes 4 (ucast ?n :: u32) @ le_bytes 4 (word_of_int ?h :: u32) @ bf_bits bloom"
  have d: "bloom_section bloom = d" by (simp add: d_def bloom_section_def Write_fields Let_def)
  have 1: "ReadUint32 d 0 = Value (ucast ?n, 4)"
    using ReadUint32_middle [of 0 "[]"] by (simp add: d_def)
  have 2: "ReadUint32 d 4 = Value (word_of_int ?h, 8)"
    using ReadUint32_middle [of 4 "le_bytes 4 (ucast ?n :: u32)" "word_of_int ?h" "bf_bits bloom"] by (simp add: d_def)
  have 3: "drop 8 d = bf_bits bloom" by (simp add: d_def)
  have "unat (ucast (ucast ?n :: u32) :: u64) = unat ?n"
    using assms(1) by (simp add: unsigned_ucast_eq unsigned_take_bit_eq take_bit_nat_eq_self)
  then have 4: "(ucast (ucast ?n :: u32) :: u64) = ?n" by (simp add: word_unat_eq_iff)
  have "signed_take_bit 31 ?h = ?h" using assms(2,3) by (intro signed_take_bit_int_eq_self) simp_all
  then have 5: "sint (word_of_int ?h :: u32) = ?h" by (simp add: signed_of_int)
  show ?thesis unfolding d read_bloom_def
    by (simp add: 1 2 3 4 5 BloomFilter_raw_def)
qed

lemma read_footer_section:
  "read_footer (footer_section bo bs io' is n) = Value (bo, ucast bs, io', ucast is, to_u64 n, kMagicNumber)"
proof -
  define d where "d = le_bytes 8 bo @ le_bytes 8 (ucast bs :: u64) @ le_bytes 8 io' @ le_bytes 8 (ucast is :: u64)
     @ le_bytes 8 (to_u64 n) @ le_bytes 8 kMagicNumber"
  have d: "footer_section bo bs io' is n = d" by (simp add: d_def footer_section_def Write_fields Let_def)
  have rd: "ReadUint64 d off = Value (v, off + 8)" if "d = pre @ le_bytes 8 v @ post" "off = length pre" for off v pre post
    using that ReadUint64_middle [of off pre v post] by simp
  have 1: "ReadUint64 d 0 = Value (bo, 8)"
    using rd [of "[]" bo] by (simp add: d_def)
  have 2: "ReadUint64 d 8 = Value (ucast bs, 16)"
    using rd [of "le_bytes 8 bo" "ucast bs"] by (simp add: d_def)
  have 3: "ReadUint64 d 16 = Value (io', 24)"
    using rd [of "le_bytes 8 bo @ le_bytes 8 (ucast bs :: u64)" io'] by (simp add: d_def)
  have 4: "ReadUint64 d 24 = Value (ucast is, 32)"
    using rd [of "le_bytes 8 bo @ le_bytes 8 (ucast bs :: u64) @ le_bytes 8 io'" "ucast is"] by (simp add: d_def)
  have 5: "ReadUint64 d 32 = Value (to_u64 n, 40)"
    using rd [of "le_bytes 8 bo @ le_bytes 8 (ucast bs :: u64) @ le_bytes 8 io' @ le_bytes 8 (ucast is :: u64)" "to_u64 n"]
    by (simp add: d_def)
  have 6: "ReadUint64 d 40 = Value (kMagicNumber, 48)"
    using rd [of "le_bytes 8 bo @ le_bytes 8 (ucast bs :: u64) @ le_bytes 8 io' @ le_bytes 8 (ucast is :: u64) @ le_bytes 8 (to_u64 n)"
        kMagicNumber "[]"]
    by (simp add: d_def)
  show ?thesis unfolding d read_footer_def by (simp add: 1 2 3 4 5 6)
qed

lemma length_footer_section [simp]: "length (footer_section bo bs io' is n) = 48"
  by (simp add: footer_section_def Write_fields Let_def)

lemma seek_read_middle:
  assumes "input = pre @ bs @ post" "unat off = length pre" "length pre < 2 ^ 63" "n = length bs"
  shows "seek_read input off n = (bs, True)"
  using assms by (simp add: seek_read_def Let_def)

lemma unat_ucast_to_u32: "n < 2 ^ 32 \<Longrightarrow> unat (ucast (to_u32 n) :: u64) = n"
  by (simp add: unsigned_ucast_eq take_bit_nat_eq_self)

subsection \<open>The reader on a written table\<close>

text \<open>Tables below 2 GiB: every count and size fits the 32-bit fields and the \<^verbatim>\<open>int\<close> bounds of
  the two bisections.\<close>

definition table_ok :: "BloomFilter \<Rightarrow> BlockEntry list \<Rightarrow> bool" where
  "table_ok bloom es \<longleftrightarrow> table_bloom es = Some bloom \<and> length (SSTable_image bloom es) < 2 ^ 31"

lemma length_data_bytes: "length (data_bytes bs) = 4 * length bs + sum_list (map EncodedSize (concat (map bl_entries bs)))"
  by (induction bs) (simp_all add: data_bytes_def length_Block_Serialize)

lemma sum_EncodedSize_ge: "9 * length es \<le> sum_list (map EncodedSize es)"
  by (induction es) (simp_all add: EncodedSize_def)

lemma EncodedSize_le_sum: "e \<in> set es \<Longrightarrow> EncodedSize e \<le> sum_list (map EncodedSize es)"
  by (induction es) auto

lemma image_sizes:
  assumes "length (SSTable_image bloom es) < 2 ^ 31"
  shows "length (data_bytes (data_blocks es)) + length (bloom_section bloom)
       + length (index_section (index_of 0 (data_blocks es))) + 48 < 2 ^ 31"
    and "9 * length es + 4 * length (data_blocks es) \<le> length (data_bytes (data_blocks es))"
    and "\<forall>e \<in> set es. EncodedSize e < 2 ^ 31"
proof -
  show 1: "length (data_bytes (data_blocks es)) + length (bloom_section bloom)
       + length (index_section (index_of 0 (data_blocks es))) + 48 < 2 ^ 31"
    using assms by (simp add: SSTable_image_def Let_def)
  have len: "length (data_bytes (data_blocks es)) = 4 * length (data_blocks es) + sum_list (map EncodedSize es)"
    by (simp add: length_data_bytes data_blocks_entries)
  then show "9 * length es + 4 * length (data_blocks es) \<le> length (data_bytes (data_blocks es))"
    using sum_EncodedSize_ge [of es] by simp
  show "\<forall>e \<in> set es. EncodedSize e < 2 ^ 31"
  proof
    fix e assume "e \<in> set es"
    from EncodedSize_le_sum [OF this] 1 len show "EncodedSize e < 2 ^ 31" by simp
  qed
qed

lemma table_ok_size: "table_ok bloom es \<Longrightarrow> length (SSTable_image bloom es) < 2 ^ 31"
  by (simp add: table_ok_def)

lemmas table_sizes = image_sizes [OF table_ok_size]

lemma Block_LastKey_member:
  "\<not> Block_IsEmpty b \<Longrightarrow> \<exists>e \<in> set (bl_entries b). Block_LastKey b = be_key e"
  by (auto simp: Block_LastKey_def Block_IsEmpty_def intro: bexI [of _ "last (bl_entries b)"])

lemma index_keys_small:
  assumes "length (SSTable_image bloom es) < 2 ^ 31"
  shows "\<forall>i \<in> set (index_of 0 (data_blocks es)). length (ie_last_key i) < 2 ^ 32"
proof -
  have "length (Block_LastKey b) < 2 ^ 32" if mem: "b \<in> set (data_blocks es)" for b
  proof -
    obtain e where "e \<in> set (bl_entries b)" "Block_LastKey b = be_key e"
      using Block_LastKey_member [of b] data_blocks_nonempty mem by blast
    moreover from this mem have "e \<in> set (concat (map bl_entries (data_blocks es)))" by auto
    then have "e \<in> set es" by (simp only: data_blocks_entries)
    then have "EncodedSize e < 2 ^ 31" using image_sizes(3) [OF assms] by blast
    ultimately show ?thesis by (simp add: EncodedSize_def)
  qed
  then have "\<forall>k \<in> set (map ie_last_key (index_of 0 (data_blocks es))). length k < 2 ^ 32" by simp
  then show ?thesis by (simp del: map_last_key_index_of)
qed

definition table_reader :: "path \<Rightarrow> BloomFilter \<Rightarrow> BlockEntry list \<Rightarrow> SSTableReader" where
  "table_reader p bloom es = \<lparr>sr_filepath = p, sr_bloom = bloom, sr_index = index_of 0 (data_blocks es),
     sr_num_entries = to_u64 (length es)\<rparr>"

lemma SSTableReader_Open_image:
  assumes small: "length (SSTable_image bloom es) < 2 ^ 31" and bl: "read_bloom (bloom_section bloom) = Value bloom"
    and io: "can_open io p" and fs: "fs p = Some (SSTable_image bloom es)"
  shows "SSTableReader_Open io fs p = Some (Value (table_reader p bloom es))"
proof -
  let ?data = "data_bytes (data_blocks es)" and ?bl = "bloom_section bloom" and ?ix = "index_section (index_of 0 (data_blocks es))"
  let ?io = "to_u64 (length ?data) + ucast (to_u32 (length ?bl))"
  define foot where "foot = footer_section (to_u64 (length ?data)) (to_u32 (length ?bl)) ?io (to_u32 (length ?ix)) (length es)"
  have img: "SSTable_image bloom es = ?data @ ?bl @ ?ix @ foot" by (simp add: SSTable_image_def Let_def foot_def)
  note sz = image_sizes [OF small]
  have "unat ?io = length ?data + length ?bl"
    using sz(1) by (simp add: unat_word_ariths unat_ucast_to_u32)
  then have ixr: "seek_read (SSTable_image bloom es) ?io (length ?ix) = (?ix, True)"
    using sz(1) by (intro seek_read_middle [where pre = "?data @ ?bl" and post = foot]) (simp_all add: img)
  have blr: "seek_read (SSTable_image bloom es) (to_u64 (length ?data)) (length ?bl) = (?bl, True)"
    using sz(1) by (intro seek_read_middle [where pre = ?data and post = "?ix @ foot"]) (simp_all add: img)
  have foot: "read_footer (drop (length (SSTable_image bloom es) - kFooterSize) (SSTable_image bloom es))
      = Value (to_u64 (length ?data), ucast (to_u32 (length ?bl)), ?io, ucast (to_u32 (length ?ix)), to_u64 (length es), kMagicNumber)"
    by (simp add: img kFooterSize_def) (simp add: foot_def read_footer_section)
  have "length (data_blocks es) < 2 ^ 32" using sz(1,2) by simp
  then have "read_index ?ix = Value (index_of 0 (data_blocks es))"
    by (intro read_index_section index_keys_small [OF small]) simp
  moreover have "kFooterSize \<le> length (SSTable_image bloom es)" by (simp add: img foot_def kFooterSize_def)
  ultimately show ?thesis
    using fs io sz(1) foot blr ixr bl
    by (simp add: SSTableReader_Open_def file_exists_def open_read_def unat_ucast_to_u32 vector_max_size_def
        table_reader_def)
qed

lemma SSTableReader_Open_fine:
  assumes ok: "table_ok bloom es" and "can_open io p" and "fs p = Some (SSTable_image bloom es)"
  shows "SSTableReader_Open io fs p = Some (Value (table_reader p bloom es))"
proof -
  have "10 * length es < 2 ^ 32 - 8" using table_sizes(1,2) [OF ok] by simp
  from table_bloom_ok [OF this] ok have "read_bloom (bloom_section bloom) = Value bloom"
    by (intro read_bloom_section) (auto simp: table_ok_def)
  with assms table_ok_size [OF ok] show ?thesis by (intro SSTableReader_Open_image)
qed

lemma data_blocks_Block_ok:
  assumes "table_ok bloom es" "b \<in> set (data_blocks es)"
  shows "Block_ok b" "length (bl_entries b) < 2 ^ 31" "length (Block_Serialize b) < 2 ^ 31"
proof -
  note sz = table_sizes [OF assms(1)]
  obtain xs ys where xy: "data_blocks es = xs @ b # ys" using assms(2) by (meson split_list)
  then have "concat (map bl_entries xs) @ bl_entries b @ concat (map bl_entries ys) = es"
    using data_blocks_entries [of es] by simp
  then have sub: "set (bl_entries b) \<subseteq> set es" and "length (bl_entries b) \<le> length es" by auto
  with sz(1,2) show 1: "length (bl_entries b) < 2 ^ 31" by simp
  have "BlockEntry_ok e" if "e \<in> set (bl_entries b)" for e
  proof -
    have "EncodedSize e < 2 ^ 31" using sz(3) sub that by blast
    then show ?thesis by (simp add: BlockEntry_ok_def EncodedSize_def)
  qed
  with 1 show "Block_ok b" by (simp add: Block_ok_def)
  have "length (Block_Serialize b) \<le> length (data_bytes (data_blocks es))" by (simp add: xy data_bytes_def)
  with sz(1) show "length (Block_Serialize b) < 2 ^ 31" by simp
qed

lemma ReadBlock_fine:
  assumes ok: "table_ok bloom es" and io: "can_open io p" and fs: "fs p = Some (SSTable_image bloom es)"
    and i: "i < length (data_blocks es)" and r: "sr_filepath r = p"
  shows "\<exists>b. SSTableReader_ReadBlock io fs r (ie_block_offset (index_of 0 (data_blocks es) ! i))
        (ie_block_size (index_of 0 (data_blocks es) ! i)) = Value b
     \<and> bl_entries b = bl_entries (data_blocks es ! i)"
proof -
  let ?bs = "data_blocks es" and ?b = "data_blocks es ! i"
  have mem: "?b \<in> set ?bs" using i by simp
  note b = data_blocks_Block_ok [OF ok mem]
  have "?bs = take i ?bs @ ?b # drop (Suc i) ?bs" using i by (rule id_take_nth_drop)
  then have data: "data_bytes ?bs = data_bytes (take i ?bs) @ Block_Serialize ?b @ data_bytes (drop (Suc i) ?bs)"
    by (metis concat.simps(2) concat_append data_bytes_def list.simps(9) map_append)
  obtain rest where img: "SSTable_image bloom es = data_bytes ?bs @ rest"
    by (simp add: SSTable_image_def Let_def)
  have "length (data_bytes (take i ?bs)) < 2 ^ 31" using table_sizes(1) [OF ok] data by simp
  then have "seek_read (SSTable_image bloom es) (to_u64 (length (data_bytes (take i ?bs)))) (length (Block_Serialize ?b))
      = (Block_Serialize ?b, True)"
    by (intro seek_read_middle [where pre = "data_bytes (take i ?bs)" and post = "data_bytes (drop (Suc i) ?bs) @ rest"])
       (simp_all add: img data)
  then show ?thesis
    using Block_Deserialize_Serialize [OF b(1)] b(3) fs io i r
    by (simp add: SSTableReader_ReadBlock_def open_read_def index_of_nth)
qed

subsection \<open>The index bisection\<close>

definition first_not_below :: "IndexEntry list \<Rightarrow> key \<Rightarrow> int \<Rightarrow> bool" where
  "first_not_below index k c \<longleftrightarrow>
     (if c = - 1 then \<forall>i < length index. ie_last_key (index ! i) < k
      else 0 \<le> c \<and> c < int (length index) \<and> k \<le> ie_last_key (index ! nat c)
         \<and> (\<forall>i < nat c. ie_last_key (index ! i) < k))"

lemma Index_search_first:
  assumes "sorted_wrt (<) (map ie_last_key index)" "0 \<le> lo" "lo \<le> hi + 1" "hi < int (length index)"
    and "\<forall>i < length index. int i < lo \<longrightarrow> ie_last_key (index ! i) < k"
    and "\<forall>i < length index. hi < int i \<longrightarrow> k \<le> ie_last_key (index ! i)"
    and "candidate = (if hi + 1 < int (length index) then hi + 1 else - 1)"
  shows "\<exists>c. Index_search index k lo hi candidate = Some c \<and> first_not_below index k c"
  using assms
proof (induction index k lo hi candidate rule: Index_search.induct)
  case (1 index k lo hi candidate)
  let ?mid = "lo + (hi - lo) div 2"
  show ?case
  proof (cases "lo \<le> hi")
    case False
    with "1.prems"(3) have lo: "lo = hi + 1" by simp
    have "first_not_below index k candidate"
    proof (cases "lo < int (length index)")
      case True
      then have "k \<le> ie_last_key (index ! nat lo)" using "1.prems"(2,6) lo by auto
      with True "1.prems"(2,5,7) lo show ?thesis by (auto simp: first_not_below_def)
    next
      case False
      with "1.prems"(5,7) lo show ?thesis by (auto simp: first_not_below_def)
    qed
    with False show ?thesis by (simp add: Index_search.simps [of index k lo hi candidate])
  next
    case True
    note mid = bisect_mid [OF "1.prems"(2) True "1.prems"(4)]
    note step = "1.IH" [OF True refl mid(3)] and unf = Index_search.simps [of index k lo hi candidate]
    have pos: "0 \<le> ?mid" using mid(1) "1.prems"(2) by simp
    show ?thesis
    proof (cases "ie_last_key (index ! nat ?mid) \<ge> k")
      case ge: True
      then have "\<exists>c. Index_search index k lo (?mid - 1) ?mid = Some c \<and> first_not_below index k c"
        using step(1) [OF ge] sorted_above_mid(1) [OF "1.prems"(1) pos ge] "1.prems" mid by simp
      with True mid(3) ge show ?thesis by (auto simp: unf Let_def)
    next
      case lt: False
      then have "\<exists>c. Index_search index k (?mid + 1) hi candidate = Some c \<and> first_not_below index k c"
        using step(2) [OF lt] sorted_below_mid [OF "1.prems"(1) mid(4), of k] "1.prems" mid by (simp add: not_le)
      with True mid(3) lt show ?thesis by (auto simp: unf Let_def)
    qed
  qed
qed

subsection \<open>Finding a key in one block or in all of them\<close>

lemma find_append: "List.find P (xs @ ys) = (case List.find P xs of None \<Rightarrow> List.find P ys | Some x \<Rightarrow> Some x)"
  by (induction xs) simp_all

lemma find_none: "(\<And>x. x \<in> set xs \<Longrightarrow> \<not> P x) \<Longrightarrow> List.find P xs = None"
  by (auto simp: find_None_iff)

lemma sorted_le_last:
  assumes "sorted_wrt (<) (map be_key es)" "e \<in> set es"
  shows "be_key e \<le> be_key (last es)"
  using assms
proof (induction es rule: rev_induct)
  case (snoc x es)
  then show ?case by (auto simp: sorted_wrt_append)
qed simp

lemma last_keys_sorted:
  assumes "sorted_wrt (<) (map be_key (concat (map bl_entries bs)))" "\<forall>b \<in> set bs. \<not> Block_IsEmpty b"
  shows "sorted_wrt (<) (map Block_LastKey bs)"
  using assms
proof (induction bs)
  case (Cons b bs)
  have "Block_LastKey b < Block_LastKey x" if x: "x \<in> set bs" for x
  proof -
    obtain e1 where "e1 \<in> set (bl_entries b)" "Block_LastKey b = be_key e1"
      using Block_LastKey_member [of b] Cons.prems(2) by auto
    moreover obtain e2 where "e2 \<in> set (bl_entries x)" "Block_LastKey x = be_key e2"
      using Block_LastKey_member [of x] Cons.prems(2) x by auto
    ultimately show ?thesis using Cons.prems(1) x by (auto simp: sorted_wrt_append)
  qed
  with Cons show ?case by (simp add: sorted_wrt_append)
qed simp

lemma sorted_block:
  "sorted_wrt (<) (map be_key (concat (map bl_entries bs))) \<Longrightarrow> b \<in> set bs \<Longrightarrow> sorted_wrt (<) (map be_key (bl_entries b))"
  by (induction bs) (auto simp: sorted_wrt_append)

lemma Block_LastKey_last: "bs \<noteq> [] \<Longrightarrow> \<not> Block_IsEmpty (last bs) \<Longrightarrow>
   Block_LastKey (last bs) = be_key (last (concat (map bl_entries bs)))"
  by (induction bs rule: rev_induct) (auto simp: Block_LastKey_def Block_IsEmpty_def)

lemma find_in_block:
  assumes srt: "sorted_wrt (<) (map be_key (concat (map bl_entries bs)))" and ne: "\<forall>b \<in> set bs. \<not> Block_IsEmpty b"
    and c: "c < length bs" "k \<le> Block_LastKey (bs ! c)" "\<forall>i < c. Block_LastKey (bs ! i) < k"
  shows "List.find (\<lambda>e. be_key e = k) (concat (map bl_entries bs)) = List.find (\<lambda>e. be_key e = k) (bl_entries (bs ! c))"
proof -
  let ?P = "\<lambda>e. be_key e = k"
  have split: "bs = take c bs @ bs ! c # drop (Suc c) bs" using c(1) by (rule id_take_nth_drop)
  let ?lo = "concat (map bl_entries (take c bs))" and ?b = "bl_entries (bs ! c)" and ?hi = "concat (map bl_entries (drop (Suc c) bs))"
  have parts: "concat (map bl_entries bs) = ?lo @ ?b @ ?hi" by (subst split) simp
  have "\<not> Block_IsEmpty (bs ! c)" using ne c(1) by simp
  then obtain l where l: "l \<in> set ?b" "Block_LastKey (bs ! c) = be_key l" using Block_LastKey_member by blast
  have "List.find ?P ?lo = None"
  proof (rule find_none)
    fix e assume "e \<in> set ?lo"
    then obtain x where "x \<in> set (take c bs)" "e \<in> set (bl_entries x)" by auto
    then obtain i where i: "i < c" "e \<in> set (bl_entries (bs ! i))"
      using c(1) by (metis in_set_conv_nth length_take min.absorb4 nth_take)
    have "bs ! i \<in> set bs" using i(1) c(1) by simp
    with srt have "sorted_wrt (<) (map be_key (bl_entries (bs ! i)))" by (rule sorted_block)
    with i(2) have "be_key e \<le> be_key (last (bl_entries (bs ! i)))" by (intro sorted_le_last)
    also have "\<dots> = Block_LastKey (bs ! i)" using i(2) by (auto simp: Block_LastKey_def)
    also have "\<dots> < k" using c(3) i(1) by simp
    finally show "be_key e \<noteq> k" by simp
  qed
  moreover have "List.find ?P ?hi = None"
  proof (rule find_none)
    fix e assume "e \<in> set ?hi"
    with srt l have "be_key l < be_key e" by (simp only: parts map_append sorted_wrt_append) auto
    with l(2) c(2) show "be_key e \<noteq> k" by auto
  qed
  ultimately show ?thesis by (simp add: parts find_append split: option.split)
qed

text \<open>A key behind the last block is in no block.\<close>

lemma find_beyond_blocks:
  assumes srt: "sorted_wrt (<) (map be_key es)" and k: "data_blocks es \<noteq> [] \<Longrightarrow> Block_LastKey (last (data_blocks es)) < k"
  shows "List.find (\<lambda>e. be_key e = k) es = None"
proof (rule find_none)
  fix e assume e: "e \<in> set es"
  then have ne: "data_blocks es \<noteq> []" using data_blocks_entries [of es] by auto
  then have "Block_LastKey (last (data_blocks es)) = be_key (last es)"
    using Block_LastKey_last [OF ne] bspec [OF data_blocks_nonempty last_in_set] by (simp add: data_blocks_entries)
  with k [OF ne] sorted_le_last [OF srt e] show "be_key e \<noteq> k" by auto
qed

lemma SSTableReader_Get_fine:
  assumes ok: "table_ok bloom es" and io: "can_open io p" and fs: "fs p = Some (SSTable_image bloom es)"
    and srt: "sorted_wrt (<) (map be_key es)"
  shows "SSTableReader_Get io fs (table_reader p bloom es) k = Some (Value (List.find (\<lambda>e. be_key e = k) es))"
proof -
  let ?bs = "data_blocks es" and ?r = "table_reader p bloom es" and ?ix = "index_of 0 (data_blocks es)"
  note sz = table_sizes [OF ok]
  have "10 * length es < 2 ^ 32 - 8" using sz(1,2) by simp
  from table_bloom_ok [OF this] ok have bl: "\<forall>k. k \<in> be_key ` set es \<longrightarrow> BloomFilter_MayContain bloom k = Some True"
    and total: "\<exists>may. BloomFilter_MayContain bloom k = Some may" by (auto simp: table_ok_def)
  from total obtain may where may: "BloomFilter_MayContain bloom k = Some may" by blast
  have srt': "sorted_wrt (<) (map be_key (concat (map bl_entries ?bs)))" using srt by (simp add: data_blocks_entries)
  have len: "length ?bs < 2 ^ 31" using sz(1,2) by simp
  have lk: "ie_last_key (?ix ! i) = Block_LastKey (?bs ! i)" if "i < length ?bs" for i
    using that by (simp add: index_of_nth)
  obtain c where c: "Index_search ?ix k 0 (to_int32 (length ?ix) - 1) (- 1) = Some c" "first_not_below ?ix k c"
    using Index_search_first [of ?ix 0 "to_int32 (length ?ix) - 1" k "- 1"] len
      last_keys_sorted [OF srt' data_blocks_nonempty] by auto
  show ?thesis
  proof (cases may)
    case False
    with may bl have "List.find (\<lambda>e. be_key e = k) es = None" by (auto simp: find_None_iff)
    with may False show ?thesis by (simp add: SSTableReader_Get_def table_reader_def)
  next
    case True
    show ?thesis
    proof (cases "c = - 1")
      case none: True
      have "Block_LastKey (last ?bs) < k" if "?bs \<noteq> []"
        using c(2) none lk that by (simp add: first_not_below_def last_conv_nth)
      then have "List.find (\<lambda>e. be_key e = k) es = None" by (rule find_beyond_blocks [OF srt])
      with may True c none show ?thesis by (simp add: SSTableReader_Get_def table_reader_def)
    next
      case hit: False
      with c(2) have ci: "nat c < length ?bs" "0 \<le> c" "k \<le> Block_LastKey (?bs ! nat c)"
        "\<forall>i < nat c. Block_LastKey (?bs ! i) < k"
        using lk by (auto simp: first_not_below_def)
      obtain b where b: "SSTableReader_ReadBlock io fs ?r (ie_block_offset (?ix ! nat c)) (ie_block_size (?ix ! nat c)) = Value b"
        "bl_entries b = bl_entries (?bs ! nat c)"
        using ReadBlock_fine [where fs = fs and p = p, OF ok io fs ci(1), of ?r] by (auto simp: table_reader_def)
      have fb: "List.find (\<lambda>e. be_key e = k) es = List.find (\<lambda>e. be_key e = k) (bl_entries b)"
        using find_in_block [OF srt' data_blocks_nonempty ci(1,3,4)] b(2) by (simp add: data_blocks_entries)
      have mem: "?bs ! nat c \<in> set ?bs" using ci(1) by simp
      have "sorted_wrt (<) (map be_key (bl_entries b))" using sorted_block [OF srt' mem] b(2) by simp
      then have "Block_Get b k = Some (List.find (\<lambda>e. be_key e = k) (bl_entries b))"
        using data_blocks_Block_ok(2) [OF ok mem] b(2) by (intro Block_Get_find) simp_all
      with may True c hit ci b(1) fb show ?thesis
        by (simp add: SSTableReader_Get_def table_reader_def Let_def)
    qed
  qed
qed

lemma SSTableReader_ReadAll_fine:
  assumes ok: "table_ok bloom es" and io: "can_open io p" and fs: "fs p = Some (SSTable_image bloom es)"
  shows "SSTableReader_ReadAll io fs (table_reader p bloom es) = Some (Value es)"
proof -
  let ?bs = "data_blocks es" and ?ix = "index_of 0 (data_blocks es)" and ?r = "table_reader p bloom es"
  have loop: "ReadAll_loop io fs ?r (drop i ?ix) acc = Value (acc @ concat (map bl_entries (drop i ?bs)))"
    if "i \<le> length ?bs" for i acc
    using that
  proof (induction i arbitrary: acc rule: inc_induct)
    case base
    then show ?case by simp
  next
    case (step i)
    obtain b where b: "SSTableReader_ReadBlock io fs ?r (ie_block_offset (?ix ! i)) (ie_block_size (?ix ! i)) = Value b"
      "bl_entries b = bl_entries (?bs ! i)"
      using ReadBlock_fine [where fs = fs and p = p, OF ok io fs step.hyps(2), of ?r] by (auto simp: table_reader_def)
    have "drop i ?ix = ?ix ! i # drop (Suc i) ?ix" "drop i ?bs = ?bs ! i # drop (Suc i) ?bs"
      using step.hyps(2) by (simp_all add: Cons_nth_drop_Suc)
    with b step.IH [of "acc @ bl_entries b"] show ?case by simp
  qed
  have "unat (to_u64 (length es)) \<le> vector_max_size div sizeof_BlockEntry"
    using table_sizes(1,2) [OF ok] by (simp add: vector_max_size_def sizeof_BlockEntry_def)
  then show ?thesis
    using loop [of 0 "[]"]
    by (simp add: SSTableReader_ReadAll_def data_blocks_entries) (simp add: table_reader_def)
qed

lemma find_block_entry_of:
  "List.find (\<lambda>e. be_key e = k) (map block_entry_of kvs) = map_option (\<lambda>v. block_entry_of (k, v)) (map_of kvs k)"
  by (induction kvs) (auto simp: block_entry_of_def)

text \<open>A bound on the data bounds the file: 256 MB of entries always make a table below 2 GiB.\<close>

lemma length_index_bytes:
  "\<forall>b \<in> set bs. \<not> Block_IsEmpty b \<Longrightarrow> length (concat (map index_entry_bytes (index_of off bs))) + 9 * length bs
     \<le> 16 * length bs + sum_list (map EncodedSize (concat (map bl_entries bs)))"
proof (induction bs arbitrary: off)
  case (Cons b bs)
  obtain e where e: "e \<in> set (bl_entries b)" "Block_LastKey b = be_key e"
    using Block_LastKey_member [of b] Cons.prems by auto
  have "length (Block_LastKey b) + 9 \<le> sum_list (map EncodedSize (bl_entries b))"
    using EncodedSize_le_sum [OF e(1)] e(2) by (simp add: EncodedSize_def)
  with Cons.IH [of "off + to_u64 (length (Block_Serialize b))"] Cons.prems show ?case
    by (simp add: index_entry_bytes_def string_field_def)
qed simp

lemma length_nonempty_blocks:
  "\<forall>b \<in> set bs. \<not> Block_IsEmpty b \<Longrightarrow> length bs \<le> length (concat (map bl_entries bs))"
proof (induction bs)
  case (Cons b bs)
  then have "bl_entries b \<noteq> []" by (simp add: Block_IsEmpty_def)
  then have "1 \<le> length (bl_entries b)" by (simp add: Suc_le_eq)
  with Cons show ?case by simp
qed simp

lemma table_ok_small:
  assumes "sum_list (map EncodedSize es) \<le> 2 ^ 28"
  shows "\<exists>bloom. table_ok bloom es"
proof -
  have len: "9 * length es \<le> 2 ^ 28" using sum_EncodedSize_ge [of es] assms by linarith
  then have "10 * length es < 2 ^ 32 - 8" by simp
  from table_bloom_ok [OF this] obtain bloom where b: "table_bloom es = Some bloom" "length (bf_bits bloom) \<le> 2 * length es + 8"
    by blast
  have nb: "length (data_blocks es) \<le> length es"
    using length_nonempty_blocks [OF data_blocks_nonempty, of es] by (simp add: data_blocks_entries)
  have "length (data_bytes (data_blocks es)) = 4 * length (data_blocks es) + sum_list (map EncodedSize es)"
    by (simp add: length_data_bytes data_blocks_entries)
  moreover have "length (bloom_section bloom) = 8 + length (bf_bits bloom)"
    by (simp add: bloom_section_def Write_fields)
  moreover have "length (index_section (index_of 0 (data_blocks es)))
      \<le> 4 + 16 * length (data_blocks es) + sum_list (map EncodedSize es)"
    using length_index_bytes [OF data_blocks_nonempty, of 0 es] by (simp add: index_section_bytes data_blocks_entries)
  ultimately have "length (SSTable_image bloom es) < 2 ^ 31"
    using assms len nb b(2) by (simp add: SSTable_image_def Let_def)
  with b(1) show ?thesis by (auto simp: table_ok_def)
qed

subsection \<open>Table files\<close>

text \<open>The path holds a well-formed table with the entries \<open>es\<close>: what the writer leaves behind and what
  compaction and the engine need of a file.\<close>

definition table_file :: "fs \<Rightarrow> path \<Rightarrow> BlockEntry list \<Rightarrow> bool" where
  "table_file fs p es \<longleftrightarrow> (\<exists>bloom. table_ok bloom es \<and> fs p = Some (SSTable_image bloom es))
     \<and> sorted_wrt (<) (map be_key es) \<and> (\<forall>e \<in> set es. be_tombstone e \<longrightarrow> be_value e = [])"

lemma table_file_read:
  assumes "table_file fs p es" "can_open io p"
  shows "\<exists>r. SSTableReader_Open io fs p = Some (Value r) \<and> SSTableReader_ReadAll io fs r = Some (Value es)
    \<and> (\<forall>k. SSTableReader_Get io fs r k = Some (Value (List.find (\<lambda>e. be_key e = k) es)))"
proof -
  obtain bloom where b: "table_ok bloom es" "fs p = Some (SSTable_image bloom es)" "sorted_wrt (<) (map be_key es)"
    using assms(1) by (auto simp: table_file_def)
  show ?thesis
    using SSTableReader_Open_fine [where fs = fs and p = p, OF b(1) assms(2) b(2)]
      SSTableReader_ReadAll_fine [where fs = fs and p = p, OF b(1) assms(2) b(2)]
      SSTableReader_Get_fine [where fs = fs and p = p, OF b(1) assms(2) b(2,3)] by blast
qed

lemma table_file_cong: "fs' p = fs p \<Longrightarrow> table_file fs' p es = table_file fs p es"
  by (simp add: table_file_def)

subsection \<open>Properties\<close>

text \<open>C6. A written table reads back: on a working disk the writer drains an iterator over sorted
  entries into a file. Opening that file succeeds, every lookup returns exactly the entry the
  iterator had for the key (tombstones included) or nothing, a full read returns all entries in
  order, and no other file has changed. The table is below 2 GiB.\<close>

theorem SSTable_write_read:
  assumes io: "io_fine io" and drain: "Iterator_drain h it = Some kvs" and "kvs \<noteq> []"
    and srt: "sorted_wrt (<) (map fst kvs)" and ok: "table_ok bloom (map block_entry_of kvs)"
  shows "\<exists>fs' r. SSTableWriter_Write io fs p h it = Some (fs', Status_Ok)
    \<and> SSTableReader_Open io fs' p = Some (Value r)
    \<and> (\<forall>k. SSTableReader_Get io fs' r k = Some (Value (map_option (\<lambda>v. block_entry_of (k, v)) (map_of kvs k))))
    \<and> SSTableReader_ReadAll io fs' r = Some (Value (map block_entry_of kvs))
    \<and> SSTableReader_NumEntries r = to_u64 (length kvs)
    \<and> (\<forall>q. q \<noteq> p \<longrightarrow> fs' q = fs q)"
proof -
  let ?es = "map block_entry_of kvs" and ?fs = "fs(p \<mapsto> SSTable_image bloom (map block_entry_of kvs))"
  have "map be_key ?es = map fst kvs" by (simp add: block_entry_of_def)
  with srt have srt': "sorted_wrt (<) (map be_key ?es)" by (simp only:)
  have can: "can_open io p" using io by simp
  have w: "SSTableWriter_Write io fs p h it = Some (?fs, Status_Ok)"
    using SSTableWriter_Write_fine [OF io drain assms(3)] ok by (simp add: table_ok_def)
  have img: "?fs p = Some (SSTable_image bloom ?es)" by simp
  note o = SSTableReader_Open_fine [where fs = ?fs and p = p, OF ok can img]
    and g = SSTableReader_Get_fine [where fs = ?fs and p = p, OF ok can img srt']
    and a = SSTableReader_ReadAll_fine [where fs = ?fs and p = p, OF ok can img]
  show ?thesis
    using w o g a
    by (intro exI [of _ ?fs] exI [of _ "table_reader p bloom ?es"])
       (simp add: find_block_entry_of SSTableReader_NumEntries_def table_reader_def)
qed

theorem SSTable_write_read_witness:
  "\<exists>fs' r. SSTableWriter_Write io_ideal Map.empty ''t''
        [2 \<mapsto> \<lparr>nd_key = ''a'', nd_value = \<lparr>is_tombstone = False, slv_data = [7]\<rparr>, nd_forward = [None]\<rparr>] (Some 2)
      = Some (fs', Status_Ok)
    \<and> SSTableReader_Open io_ideal fs' ''t'' = Some (Value r)
    \<and> SSTableReader_Get io_ideal fs' r ''a'' = Some (Value (Some \<lparr>be_key = ''a'', be_value = [7], be_tombstone = False\<rparr>))"
proof -
  let ?h = "[2 \<mapsto> \<lparr>nd_key = ''a'', nd_value = \<lparr>is_tombstone = False, slv_data = [7]\<rparr>, nd_forward = [None]\<rparr>] :: heap"
  let ?kvs = "[(''a'', \<lparr>is_tombstone = False, slv_data = [7]\<rparr>)]"
  have drain: "Iterator_drain ?h (Some 2) = Some ?kvs"
    by (simp add: Iterator_drain.simps [of ?h "Some 2"] Iterator_drain.simps [of ?h None] Iterator_Valid_def
        Iterator_Key_def Iterator_Value_def Iterator_Next_def read_fwd_def)
  obtain bloom where b: "table_bloom (map block_entry_of ?kvs) = Some bloom" "length (bf_bits bloom) \<le> 10"
    using table_bloom_ok [of "map block_entry_of ?kvs"] by auto
  have "length (SSTable_image bloom (map block_entry_of ?kvs)) < 2 ^ 31"
    using b(2)
    by (simp add: SSTable_image_def Let_def data_blocks_def Block_Add_def Block_new_def Block_IsEmpty_def data_bytes_def
        length_Block_Serialize EncodedSize_def block_entry_of_def bloom_section_def Write_fields
        index_section_bytes index_entry_bytes_def Block_LastKey_def)
  with b(1) have ok: "table_ok bloom (map block_entry_of ?kvs)" by (simp add: table_ok_def)
  from SSTable_write_read [OF io_fine_ideal drain _ _ ok, of Map.empty "''t''"]
  show ?thesis by (auto simp: block_entry_of_def)
qed

text \<open>C40. Opening a table does not check its filter. Take any file in the layout of the writer whose filter
  section says zero bits and a positive number of hash functions, whatever its bit array and entries
  are: it is opened without an error, the reader's filter has zero bits, so that the position of every
  probe is a remainder by zero, and every lookup runs into it, also for the keys the table holds.\<close>

theorem SSTable_zero_bits_fault:
  assumes zero: "bf_num_bits bloom = 0"
    and hashes: "0 < bf_num_hash_functions bloom" "bf_num_hash_functions bloom < 2 ^ 31"
    and small: "length (SSTable_image bloom es) < 2 ^ 31"
    and "can_open io p" and "fs p = Some (SSTable_image bloom es)"
  shows "\<exists>r. SSTableReader_Open io fs p = Some (Value r) \<and> bf_num_bits (sr_bloom r) = 0
    \<and> (\<forall>h1 h2 i. bit_pos (sr_bloom r) h1 h2 i = None) \<and> (\<forall>k. SSTableReader_Get io fs r k = None)"
proof -
  let ?r = "table_reader p bloom es"
  have "SSTableReader_Open io fs p = Some (Value ?r)"
    using assms by (intro SSTableReader_Open_image read_bloom_section) simp_all
  moreover have filter: "sr_bloom ?r = bloom" by (simp add: table_reader_def)
  moreover have pos: "bit_pos bloom h1 h2 i = None" for h1 h2 i using zero by (simp add: bit_pos_def)
  moreover have "[0 ..< nat (bf_num_hash_functions bloom)] = 0 # [1 ..< nat (bf_num_hash_functions bloom)]"
    using hashes by (simp add: upt_conv_Cons)
  then have "SSTableReader_Get io fs ?r k = None" for k
    by (simp add: SSTableReader_Get_def BloomFilter_MayContain_def filter pos)
  ultimately show ?thesis using zero by auto
qed

theorem SSTable_zero_bits_fault_witness:
  "\<exists>r. SSTableReader_Open io_ideal
         [''t'' \<mapsto> SSTable_image \<lparr>bf_bits = [255], bf_num_bits = 0, bf_num_hash_functions = 7\<rparr>
            [\<lparr>be_key = ''a'', be_value = [7], be_tombstone = False\<rparr>]] ''t'' = Some (Value r)
     \<and> SSTableReader_Get io_ideal
         [''t'' \<mapsto> SSTable_image \<lparr>bf_bits = [255], bf_num_bits = 0, bf_num_hash_functions = 7\<rparr>
            [\<lparr>be_key = ''a'', be_value = [7], be_tombstone = False\<rparr>]] r ''a'' = None"
proof -
  let ?bloom = "\<lparr>bf_bits = [255], bf_num_bits = 0, bf_num_hash_functions = 7\<rparr>"
  let ?es = "[\<lparr>be_key = ''a'', be_value = [7], be_tombstone = False\<rparr>]"
  have "length (SSTable_image ?bloom ?es) < 2 ^ 31"
    by (simp add: SSTable_image_def Let_def data_blocks_def Block_Add_def Block_new_def Block_IsEmpty_def data_bytes_def
        length_Block_Serialize EncodedSize_def bloom_section_def Write_fields
        index_section_bytes index_entry_bytes_def Block_LastKey_def)
  from SSTable_zero_bits_fault [OF _ _ _ this, of io_ideal "''t''" "[''t'' \<mapsto> SSTable_image ?bloom ?es]"]
  show ?thesis by (auto simp: io_ideal_def)
qed

end
