(* ===== verification/Leveled_Compaction.thy ===== *)
theory Leveled_Compaction
  imports Prelude
begin

text \<open>
  \<^verbatim>\<open>src/storage/compaction/leveled_compaction.h\<close>: the catalogue entry of a table file, the
  constants of leveled compaction and the byte budget of a level.
\<close>

record SSTableMeta =
  sm_filepath :: string
  sm_level :: int
  sm_smallest_key :: key
  sm_largest_key :: key
  sm_file_size_bytes :: u64
  sm_sequence_number :: u64

definition OverlapsWith :: "SSTableMeta \<Rightarrow> key \<Rightarrow> key \<Rightarrow> bool" where
  "OverlapsWith m lo hi \<longleftrightarrow> \<not> (sm_largest_key m < lo \<or> sm_smallest_key m > hi)"

definition kNumLevels :: int where "kNumLevels = 7"
definition kLevel0CompactionTrigger :: nat where "kLevel0CompactionTrigger = 4"
definition kLevel0SlowdownTrigger :: nat where "kLevel0SlowdownTrigger = 8"
definition kLevel0StopTrigger :: nat where "kLevel0StopTrigger = 12"
definition kLevel1MaxBytes :: u64 where "kLevel1MaxBytes = 10 * 1024 * 1024"
definition kLevelMultiplier :: u64 where "kLevelMultiplier = 10"

definition MaxBytesForLevel :: "int \<Rightarrow> u64" where
  "MaxBytesForLevel level =
     (if level \<le> 0 then 0
      else fold (\<lambda>_ result. result * kLevelMultiplier) [1 ..< nat level] kLevel1MaxBytes)"

lemma fold_const: "fold (\<lambda>_. f) xs = f ^^ length xs"
  by (induction xs) (simp_all add: funpow_swap1 comp_def fun_eq_iff)

lemma MaxBytesForLevel_pow:
  assumes "0 < level"
  shows "MaxBytesForLevel level = kLevel1MaxBytes * kLevelMultiplier ^ nat (level - 1)"
proof -
  have "((\<lambda>r. r * kLevelMultiplier) ^^ n) x = x * kLevelMultiplier ^ n" for n x
    by (induction n) (simp_all add: mult.commute mult.left_commute)
  with assms show ?thesis by (simp add: MaxBytesForLevel_def fold_const nat_diff_distrib)
qed

lemma OverlapsWith_iff:
  assumes "sm_smallest_key m \<le> sm_largest_key m" "lo \<le> hi"
  shows "OverlapsWith m lo hi \<longleftrightarrow> (\<exists>k. sm_smallest_key m \<le> k \<and> k \<le> sm_largest_key m \<and> lo \<le> k \<and> k \<le> hi)"
proof
  assume "OverlapsWith m lo hi"
  then have "lo \<le> sm_largest_key m" "sm_smallest_key m \<le> hi" by (auto simp: OverlapsWith_def)
  with assms show "\<exists>k. sm_smallest_key m \<le> k \<and> k \<le> sm_largest_key m \<and> lo \<le> k \<and> k \<le> hi"
    by (intro exI [of _ "max lo (sm_smallest_key m)"]) auto
qed (force simp: OverlapsWith_def)

subsection \<open>Properties\<close>

text \<open>The byte budgets: on the levels the default configuration uses the budget is ten megabytes times
  a power of ten, computed without wrap-around, so that each level has ten times the one above it.\<close>

theorem MaxBytesForLevel_exact:
  assumes "1 \<le> level" and "level \<le> 13"
  shows "unat (MaxBytesForLevel level) = 10 * 1024 * 1024 * 10 ^ nat (level - 1)"
proof -
  have "nat (level - 1) \<le> 12" using assms by simp
  then have "nat (level - 1) \<in> set [0 ..< 13]" by simp
  then have "unat (kLevel1MaxBytes * kLevelMultiplier ^ nat (level - 1)) = 10 * 1024 * 1024 * 10 ^ nat (level - 1)"
    by (auto simp: upt_conv_Cons kLevel1MaxBytes_def kLevelMultiplier_def)
  with assms show ?thesis by (simp add: MaxBytesForLevel_pow)
qed

theorem MaxBytesForLevel_exact_witness: "unat (MaxBytesForLevel kNumLevels) = 10485760000000"
  using MaxBytesForLevel_exact [of kNumLevels] by (simp add: kNumLevels_def)

text \<open>The overlap test of two non-empty key ranges is true exactly when they share a key.\<close>

theorem OverlapsWith_shares_key:
  assumes "sm_smallest_key m \<le> sm_largest_key m" and "lo \<le> hi"
  shows "OverlapsWith m lo hi \<longleftrightarrow> (\<exists>k. sm_smallest_key m \<le> k \<and> k \<le> sm_largest_key m \<and> lo \<le> k \<and> k \<le> hi)"
  using assms by (rule OverlapsWith_iff)

theorem OverlapsWith_shares_key_witness:
  "OverlapsWith \<lparr>sm_filepath = ''f'', sm_level = 1, sm_smallest_key = ''a'', sm_largest_key = ''c'',
     sm_file_size_bytes = 0, sm_sequence_number = 0\<rparr> ''b'' ''d''
   \<longleftrightarrow> (\<exists>k. ''a'' \<le> k \<and> k \<le> ''c'' \<and> ''b'' \<le> k \<and> k \<le> (''d'' :: key))"
  using OverlapsWith_shares_key [of "\<lparr>sm_filepath = ''f'', sm_level = 1, sm_smallest_key = ''a'', sm_largest_key = ''c'',
     sm_file_size_bytes = 0, sm_sequence_number = 0\<rparr>" "''b''" "''d''"]
  by (simp add: less_char_def less_eq_char_def)

end
