(* ===== verification/Checkpoint_Manager.thy ===== *)
theory Checkpoint_Manager
  imports Binary_Serializer Files Leveled_Compaction
begin

text \<open>
  \<^verbatim>\<open>src/storage/checkpoint/checkpoint_manager.{h,cpp}\<close>: the checkpoint is written to a temporary file
  and renamed over the old one. Besides the save itself, the disks between its calls are listed, so that
  what a dead process or a power loss can leave behind is a statement about them.
\<close>

record Checkpoint =
  cp_last_flushed_lsn :: u64
  cp_sstables :: "SSTableMeta list"

record CheckpointManager =
  ckm_data_dir :: string
  ckm_checkpoint_path :: path
  ckm_temp_path :: path

definition CheckpointManager_new :: "string \<Rightarrow> CheckpointManager" where
  "CheckpointManager_new data_dir =
     \<lparr>ckm_data_dir = data_dir, ckm_checkpoint_path = data_dir @ ''/MANIFEST.checkpoint'',
      ckm_temp_path = data_dir @ ''/MANIFEST.checkpoint.tmp''\<rparr>"

definition WriteSSTableMeta :: "SSTableMeta \<Rightarrow> bytes \<Rightarrow> bytes" where
  "WriteSSTableMeta meta buffer =
     (let buffer = WriteUint32 buffer (word_of_int (sm_level meta));
          buffer = WriteUint64 buffer (sm_file_size_bytes meta);
          buffer = WriteUint64 buffer (sm_sequence_number meta);
          buffer = WriteString buffer (sm_smallest_key meta);
          buffer = WriteString buffer (sm_largest_key meta)
      in WriteString buffer (sm_filepath meta))"

definition encode_checkpoint :: "Checkpoint \<Rightarrow> bytes" where
  "encode_checkpoint checkpoint =
     fold WriteSSTableMeta (cp_sstables checkpoint)
       (WriteUint32 (WriteUint64 [] (cp_last_flushed_lsn checkpoint)) (to_u32 (length (cp_sstables checkpoint))))"

text \<open>\<^verbatim>\<open>std::rename\<close>: the target is replaced and the source disappears, or nothing happens.\<close>

definition rename_file :: "io \<Rightarrow> fs \<Rightarrow> path \<Rightarrow> path \<Rightarrow> fs \<times> bool" where
  "rename_file io fs src dst =
     (if can_rename io src dst \<and> fs src \<noteq> None then (fs(dst := fs src, src := None), True) else (fs, False))"

definition SaveCheckpoint :: "io \<Rightarrow> fs \<Rightarrow> CheckpointManager \<Rightarrow> Checkpoint \<Rightarrow> fs \<times> Status" where
  "SaveCheckpoint io fs cm checkpoint =
     (let buffer = encode_checkpoint checkpoint in
      case open_trunc io fs (ckm_temp_path cm) of
        None \<Rightarrow> (fs, mk_Status kStorageIoError
                  (''Failed to open temp checkpoint file for writing: '' @ ckm_temp_path cm))
      | Some (fs, out) \<Rightarrow>
          let (fs, out) = os_write io fs out buffer;
              (fs, out) = os_flush io fs out
          in if \<not> os_good out
             then (fst (os_flush io fs out), mk_Status kStorageIoError
                    (''Failed to write to temp checkpoint file: '' @ ckm_temp_path cm))
             else let (fs, out) = os_flush io fs out;
                      (fs, renamed) = rename_file io fs (ckm_temp_path cm) (ckm_checkpoint_path cm)
                  in if \<not> renamed
                     then (fs, mk_Status kStorageIoError ''Failed to atomically rename checkpoint file'')
                     else (fs, Status_Ok))"

definition ReadSSTableMeta :: "bytes \<Rightarrow> nat \<Rightarrow> (SSTableMeta \<times> nat) ErrorOr" where
  "ReadSSTableMeta buffer offset =
     assign_or_return (ReadUint32 buffer offset) (\<lambda>(lvl, offset).
     assign_or_return (ReadUint64 buffer offset) (\<lambda>(fsz, offset).
     assign_or_return (ReadUint64 buffer offset) (\<lambda>(sq, offset).
     assign_or_return (ReadString buffer offset) (\<lambda>(sk, offset).
     assign_or_return (ReadString buffer offset) (\<lambda>(lk, offset).
     assign_or_return (ReadString buffer offset) (\<lambda>(pth, offset).
       Value (\<lparr>sm_filepath = pth, sm_level = sint lvl, sm_smallest_key = sk, sm_largest_key = lk,
               sm_file_size_bytes = fsz, sm_sequence_number = sq\<rparr>, offset)))))))"

definition decode_checkpoint :: "bytes \<Rightarrow> Checkpoint ErrorOr" where
  "decode_checkpoint buffer =
     assign_or_return (ReadUint64 buffer 0) (\<lambda>(lsn, offset).
     assign_or_return (ReadUint32 buffer offset) (\<lambda>(num_files, offset).
     assign_or_return (read_items ReadSSTableMeta (unat num_files) buffer offset) (\<lambda>(metas, _).
       Value \<lparr>cp_last_flushed_lsn = lsn, cp_sstables = metas\<rparr>)))"

definition LoadCheckpoint :: "io \<Rightarrow> fs \<Rightarrow> CheckpointManager \<Rightarrow> Checkpoint ErrorOr" where
  "LoadCheckpoint io fs cm =
     (if \<not> file_exists fs (ckm_checkpoint_path cm)
      then Value \<lparr>cp_last_flushed_lsn = 0, cp_sstables = []\<rparr>
      else case open_read io fs (ckm_checkpoint_path cm) of
        None \<Rightarrow> Error (mk_Status kStorageIoError ''Failed to open checkpoint file'')
      | Some buffer \<Rightarrow> decode_checkpoint buffer)"

text \<open>The disks between the calls of a save, in the order of the code: before it, after opening, writing,
  flushing and closing the temporary file, and after the rename. No call syncs, so the temporary file
  stays unsynced from its creation on, and the rename hands that on to the checkpoint.\<close>

definition SaveCheckpoint_states :: "io \<Rightarrow> disk \<Rightarrow> CheckpointManager \<Rightarrow> Checkpoint \<Rightarrow> disk list" where
  "SaveCheckpoint_states io = (\<lambda>(fs, unsynced) cm checkpoint.
     let buffer = encode_checkpoint checkpoint in
     case open_trunc io fs (ckm_temp_path cm) of
       None \<Rightarrow> [(fs, unsynced)]
     | Some (fs1, out) \<Rightarrow>
         let unsynced1 = ckm_temp_path cm # unsynced;
             (fs2, out) = os_write io fs1 out buffer;
             (fs3, out) = os_flush io fs2 out;
             (fs4, _) = os_flush io fs3 out;
             (fs5, renamed) = rename_file io fs4 (ckm_temp_path cm) (ckm_checkpoint_path cm)
         in [(fs, unsynced), (fs1, unsynced1), (fs2, unsynced1), (fs3, unsynced1), (fs4, unsynced1)]
            @ (if os_good out \<and> renamed
               then [(fs5, rename_unsynced (ckm_temp_path cm) (ckm_checkpoint_path cm) unsynced1)] else []))"

subsection \<open>Encoding\<close>

definition meta_bytes :: "SSTableMeta \<Rightarrow> bytes" where
  "meta_bytes m = le_bytes 4 (word_of_int (sm_level m) :: u32) @ le_bytes 8 (sm_file_size_bytes m)
     @ le_bytes 8 (sm_sequence_number m) @ string_field (sm_smallest_key m) @ string_field (sm_largest_key m)
     @ string_field (sm_filepath m)"

definition SSTableMeta_ok :: "SSTableMeta \<Rightarrow> bool" where
  "SSTableMeta_ok m \<longleftrightarrow> - (2 ^ 31) \<le> sm_level m \<and> sm_level m < 2 ^ 31 \<and> length (sm_smallest_key m) < 2 ^ 32
     \<and> length (sm_largest_key m) < 2 ^ 32 \<and> length (sm_filepath m) < 2 ^ 32"

definition Checkpoint_ok :: "Checkpoint \<Rightarrow> bool" where
  "Checkpoint_ok c \<longleftrightarrow> length (cp_sstables c) < 2 ^ 32 \<and> (\<forall>m \<in> set (cp_sstables c). SSTableMeta_ok m)"

lemma encode_checkpoint_bytes:
  "encode_checkpoint c = le_bytes 8 (cp_last_flushed_lsn c) @ le_bytes 4 (to_u32 (length (cp_sstables c)))
     @ concat (map meta_bytes (cp_sstables c))"
proof -
  have "fold WriteSSTableMeta ms buffer = buffer @ concat (map meta_bytes ms)" for ms buffer
    by (induction ms arbitrary: buffer) (simp_all add: WriteSSTableMeta_def meta_bytes_def Write_fields Let_def)
  then show ?thesis by (simp add: encode_checkpoint_def Write_fields)
qed

lemma ReadSSTableMeta_middle:
  assumes ok: "SSTableMeta_ok m" and off: "offset = length pre"
  shows "ReadSSTableMeta (pre @ meta_bytes m @ post) offset = Value (m, offset + length (meta_bytes m))"
proof -
  let ?l = "le_bytes 4 (word_of_int (sm_level m) :: u32)" and ?z = "le_bytes 8 (sm_file_size_bytes m)"
  let ?q = "le_bytes 8 (sm_sequence_number m)" and ?s = "string_field (sm_smallest_key m)"
  let ?k = "string_field (sm_largest_key m)" and ?p = "string_field (sm_filepath m)"
  define d where "d = pre @ ?l @ ?z @ ?q @ ?s @ ?k @ ?p @ post"
  have d: "pre @ meta_bytes m @ post = d" by (simp add: d_def meta_bytes_def)
  let ?o = "offset + 4"
  have 1: "ReadUint32 d offset = Value (word_of_int (sm_level m), ?o)"
    using off uint32.dec_enc [of offset pre "word_of_int (sm_level m)"] by (simp add: d_def)
  have 2: "ReadUint64 d ?o = Value (sm_file_size_bytes m, ?o + 8)"
    using off uint64.dec_enc [of ?o "pre @ ?l" "sm_file_size_bytes m"] by (simp add: d_def)
  have 3: "ReadUint64 d (?o + 8) = Value (sm_sequence_number m, ?o + 16)"
    using off uint64.dec_enc [of "?o + 8" "pre @ ?l @ ?z" "sm_sequence_number m"] by (simp add: d_def)
  have 4: "ReadString d (?o + 16) = Value (sm_smallest_key m, ?o + 16 + length ?s)"
    using off ok lpstring.dec_enc [of "sm_smallest_key m" "?o + 16" "pre @ ?l @ ?z @ ?q"]
    by (simp add: d_def SSTableMeta_ok_def)
  have 5: "ReadString d (?o + 16 + length ?s) = Value (sm_largest_key m, ?o + 16 + length ?s + length ?k)"
    using off ok lpstring.dec_enc [of "sm_largest_key m" "?o + 16 + length ?s" "pre @ ?l @ ?z @ ?q @ ?s"]
    by (simp add: d_def SSTableMeta_ok_def)
  have 6: "ReadString d (?o + 16 + length ?s + length ?k)
      = Value (sm_filepath m, ?o + 16 + length ?s + length ?k + length ?p)"
    using off ok lpstring.dec_enc [of "sm_filepath m" "?o + 16 + length ?s + length ?k" "pre @ ?l @ ?z @ ?q @ ?s @ ?k" post]
    by (simp add: d_def SSTableMeta_ok_def)
  have "signed_take_bit 31 (sm_level m) = sm_level m"
    using ok by (intro signed_take_bit_int_eq_self) (simp_all add: SSTableMeta_ok_def)
  then have 7: "sint (word_of_int (sm_level m) :: u32) = sm_level m" by (simp add: signed_of_int)
  show ?thesis
    unfolding d ReadSSTableMeta_def
    by (simp add: 1 2 [simplified] 3 [simplified] 4 [simplified] 5 [simplified] 6 [simplified] 7 meta_bytes_def)
qed

interpretation sstable_meta: field_codec meta_bytes ReadSSTableMeta SSTableMeta_ok
  by unfold_locales (rule ReadSSTableMeta_middle)

lemma decode_encode_checkpoint_offset:
  assumes "Checkpoint_ok c"
  shows "ReadUint64 (encode_checkpoint c) 0 = Value (cp_last_flushed_lsn c, 8)
    \<and> ReadUint32 (encode_checkpoint c) 8 = Value (to_u32 (length (cp_sstables c)), 12)
    \<and> read_items ReadSSTableMeta (unat (to_u32 (length (cp_sstables c)))) (encode_checkpoint c) 12
      = Value (cp_sstables c, length (encode_checkpoint c))"
proof -
  let ?ms = "cp_sstables c" and ?l = "le_bytes 8 (cp_last_flushed_lsn c)" and ?n = "le_bytes 4 (to_u32 (length (cp_sstables c)))"
  have 1: "ReadUint64 (encode_checkpoint c) 0 = Value (cp_last_flushed_lsn c, 8)"
    using uint64.dec_enc [of 0 "[]" "cp_last_flushed_lsn c"] by (simp add: encode_checkpoint_bytes)
  have 2: "ReadUint32 (encode_checkpoint c) 8 = Value (to_u32 (length ?ms), 12)"
    using uint32.dec_enc [of 8 ?l "to_u32 (length ?ms)"] by (simp add: encode_checkpoint_bytes)
  have "read_items ReadSSTableMeta (length ?ms) ((?l @ ?n) @ concat (map meta_bytes ?ms) @ []) 12
      = Value (?ms, 12 + length (concat (map meta_bytes ?ms)))"
    using assms by (intro sstable_meta.read_items_enc) (simp_all add: Checkpoint_ok_def)
  with assms have "read_items ReadSSTableMeta (unat (to_u32 (length ?ms))) (encode_checkpoint c) 12
      = Value (?ms, length (encode_checkpoint c))"
    by (simp add: Checkpoint_ok_def) (simp add: encode_checkpoint_bytes)
  with 1 2 show ?thesis by blast
qed

lemma decode_encode_checkpoint: "Checkpoint_ok c \<Longrightarrow> decode_checkpoint (encode_checkpoint c) = Value c"
  using decode_encode_checkpoint_offset [of c] by (simp add: decode_checkpoint_def)




subsection \<open>Saving\<close>

lemma paths_differ: "ckm_checkpoint_path (CheckpointManager_new d) \<noteq> ckm_temp_path (CheckpointManager_new d)"
  by (simp add: CheckpointManager_new_def)

text \<open>What the two stream operations do to the temporary file, on any disk: it holds a prefix, and all of the
  bytes when the stream is still good after the flush.\<close>

lemma write_flush_any:
  assumes "os_good out" "os_view fs out = []" "os_write io fs out bs = (fs2, out2)" "os_flush io fs2 out2 = (fs3, out3)"
  shows "(\<forall>q. q \<noteq> os_path out \<longrightarrow> fs2 q = fs q \<and> fs3 q = fs q) \<and> os_path out3 = os_path out
    \<and> (os_good out3 \<longrightarrow> fs3 (os_path out) = Some bs \<and> os_buf out3 = [])"
proof -
  have other: "\<forall>q. q \<noteq> os_path out \<longrightarrow> fs2 q = fs q \<and> fs3 q = fs q"
    using os_write_other [where os = out and io = io and fs = fs and bs = bs]
      os_flush_other [where os = out2 and io = io and fs = fs2] os_path_write [of io fs out bs] assms(3,4)
    by (metis fst_conv snd_conv)
  have path: "os_path out3 = os_path out"
    using os_path_write [of io fs out bs] os_path_flush [of io fs2 out2] assms(3,4) by simp
  have "content fs (os_path out) = []" "os_buf out = []" using assms(2) by (simp_all add: os_view_def)
  then have "os_good out3 \<longrightarrow> fs3 (os_path out) = Some bs \<and> os_buf out3 = []"
    using assms(1,3,4)
    by (auto simp: os_write_def os_flush_def os_push_def Let_def content_def accepted_def split: if_splits option.splits)
  with other path show ?thesis by blast
qed

lemma SaveCheckpoint_steps:
  assumes cm: "cm = CheckpointManager_new d" and res: "SaveCheckpoint io fs cm c = (fs', st)"
  shows "(Status_IsOk st \<longrightarrow> fs' (ckm_checkpoint_path cm) = Some (encode_checkpoint c))
    \<and> (\<not> Status_IsOk st \<longrightarrow> fs' (ckm_checkpoint_path cm) = fs (ckm_checkpoint_path cm))
    \<and> (\<forall>q. q \<noteq> ckm_checkpoint_path cm \<longrightarrow> q \<noteq> ckm_temp_path cm \<longrightarrow> fs' q = fs q)
    \<and> fst (last (SaveCheckpoint_states io (fs, u) cm c)) = fs'
    \<and> (Status_IsOk st \<longrightarrow> ckm_checkpoint_path cm \<in> set (snd (last (SaveCheckpoint_states io (fs, u) cm c))))
    \<and> (\<forall>(fsi, ui) \<in> set (SaveCheckpoint_states io (fs, u) cm c).
         fsi (ckm_checkpoint_path cm) = fs (ckm_checkpoint_path cm)
           \<and> (ckm_checkpoint_path cm \<in> set ui \<longleftrightarrow> ckm_checkpoint_path cm \<in> set u)
         \<or> fsi (ckm_checkpoint_path cm) = Some (encode_checkpoint c))"
proof -
  have ne: "ckm_checkpoint_path cm \<noteq> ckm_temp_path cm" using paths_differ cm by simp
  show ?thesis
  proof (cases "can_create io (ckm_temp_path cm)")
    case False
    with res show ?thesis
      by (auto simp: SaveCheckpoint_def SaveCheckpoint_states_def open_trunc_def Status_IsOk_def mk_Status_def)
  next
    case True
    let ?fs1 = "fs(ckm_temp_path cm \<mapsto> [])" and ?out = "\<lparr>os_path = ckm_temp_path cm, os_buf = [], os_good = True\<rparr>"
    obtain fs2 out2 where w: "os_write io ?fs1 ?out (encode_checkpoint c) = (fs2, out2)" by force
    obtain fs3 out3 where f: "os_flush io fs2 out2 = (fs3, out3)" by force
    have any: "(\<forall>q. q \<noteq> ckm_temp_path cm \<longrightarrow> fs2 q = ?fs1 q \<and> fs3 q = ?fs1 q)"
      "os_path out3 = ckm_temp_path cm"
      "os_good out3 \<longrightarrow> fs3 (ckm_temp_path cm) = Some (encode_checkpoint c) \<and> os_buf out3 = []"
      using write_flush_any [OF _ _ w f] by (simp_all add: os_view_def)
    obtain fs4 out4 where g: "os_flush io fs3 out3 = (fs4, out4)" by force
    have fs4: "fs4 q = fs3 q" if "q \<noteq> ckm_temp_path cm \<or> os_good out3" for q
      using that any(2,3) g
      by (auto simp: os_flush_def os_push_def Let_def content_def accepted_def split: if_splits)
    have "SaveCheckpoint io fs cm c = (if \<not> os_good out3 then (fs4, mk_Status kStorageIoError
             (''Failed to write to temp checkpoint file: '' @ ckm_temp_path cm))
        else if can_rename io (ckm_temp_path cm) (ckm_checkpoint_path cm)
        then (fs4(ckm_checkpoint_path cm \<mapsto> encode_checkpoint c, ckm_temp_path cm := None), Status_Ok)
        else (fs4, mk_Status kStorageIoError ''Failed to atomically rename checkpoint file''))"
      using True w f g any(3) fs4 by (auto simp: SaveCheckpoint_def open_trunc_def Let_def rename_file_def)
    moreover have "SaveCheckpoint_states io (fs, u) cm c
        = [(fs, u), (?fs1, ckm_temp_path cm # u), (fs2, ckm_temp_path cm # u), (fs3, ckm_temp_path cm # u), (fs4, ckm_temp_path cm # u)]
          @ (if os_good out3 \<and> can_rename io (ckm_temp_path cm) (ckm_checkpoint_path cm)
             then [(fs4(ckm_checkpoint_path cm \<mapsto> encode_checkpoint c, ckm_temp_path cm := None),
                    ckm_checkpoint_path cm # removeAll (ckm_temp_path cm) u)] else [])"
      using True w f g any(3) fs4
      by (simp add: SaveCheckpoint_states_def open_trunc_def Let_def rename_file_def rename_unsynced_def)
    ultimately show ?thesis
      using res ne any fs4 by (auto simp: Status_IsOk_def mk_Status_def Status_Ok_def split: if_splits)
  qed
qed

subsection \<open>Properties\<close>

text \<open>C21. A checkpoint that was saved successfully is loaded again: in any environment, if the save reports
  success, loading returns the same sequence number and the same catalogue. The counts and lengths fit
  the 32-bit fields and levels are C++ integers.\<close>

theorem Checkpoint_save_load:
  assumes "Checkpoint_ok c" and "SaveCheckpoint io fs (CheckpointManager_new d) c = (fs', st)" and "Status_IsOk st"
    and "can_open io' (ckm_checkpoint_path (CheckpointManager_new d))"
  shows "LoadCheckpoint io' fs' (CheckpointManager_new d) = Value c"
  using SaveCheckpoint_steps [OF refl assms(2)] assms(3,4) decode_encode_checkpoint [OF assms(1)]
  by (simp add: LoadCheckpoint_def file_exists_def open_read_def)

theorem Checkpoint_save_load_witness:
  "\<exists>fs'. LoadCheckpoint io_ideal fs' (CheckpointManager_new ''db'')
     = Value \<lparr>cp_last_flushed_lsn = 9, cp_sstables = [\<lparr>sm_filepath = ''s'', sm_level = 0, sm_smallest_key = ''a'',
         sm_largest_key = ''b'', sm_file_size_bytes = 100, sm_sequence_number = 1\<rparr>]\<rparr>"
proof -
  let ?c = "\<lparr>cp_last_flushed_lsn = 9, cp_sstables = [\<lparr>sm_filepath = ''s'', sm_level = 0, sm_smallest_key = ''a'',
         sm_largest_key = ''b'', sm_file_size_bytes = 100, sm_sequence_number = 1\<rparr>]\<rparr>"
  obtain fs' st where s: "SaveCheckpoint io_ideal Map.empty (CheckpointManager_new ''db'') ?c = (fs', st)" by force
  then have "Status_IsOk st"
    by (auto simp: SaveCheckpoint_def open_trunc_def io_ideal_def os_write_def os_flush_def os_push_def Let_def
        accepted_def rename_file_def Status_IsOk_def Status_Ok_def split: if_splits)
  moreover have "Checkpoint_ok ?c" by (simp add: Checkpoint_ok_def SSTableMeta_ok_def)
  ultimately show ?thesis using Checkpoint_save_load [OF _ s, of io_ideal] by (auto simp: io_ideal_def)
qed



end
