(* ===== verification/Raft_State.thy ===== *)
theory Raft_State
  imports Status Prelude
begin

text \<open>
  \<^verbatim>\<open>src/raft/core/raft_state.{h,cpp}\<close>: role, term and vote of one node. Every method runs under the
  object's mutex and is one step. The state-change callback is foreign code: the state keeps whether
  one is registered and the arguments of the calls made so far. Terms are 64-bit words.
\<close>

datatype RaftRole = kFollower | kCandidate | kLeader

fun RaftRoleToString :: "RaftRole \<Rightarrow> string" where
  "RaftRoleToString kFollower = ''Follower''"
| "RaftRoleToString kCandidate = ''Candidate''"
| "RaftRoleToString kLeader = ''Leader''"

record RaftState =
  rs_current_role :: RaftRole
  rs_current_term :: u64
  rs_voted_for :: string
  rs_leader_id :: string
  rs_self_id :: string
  rs_has_callback :: bool
  rs_calls :: "(RaftRole \<times> RaftRole) list"

definition RaftState_new :: "string \<Rightarrow> RaftState" where
  "RaftState_new self_id =
     \<lparr>rs_current_role = kFollower, rs_current_term = 0, rs_voted_for = '''', rs_leader_id = '''',
      rs_self_id = self_id, rs_has_callback = False, rs_calls = []\<rparr>"

definition SetStateChangeCallback :: "RaftState \<Rightarrow> bool \<Rightarrow> RaftState" where
  "SetStateChangeCallback s callback = s\<lparr>rs_has_callback := callback\<rparr>"

definition on_state_change :: "RaftRole \<Rightarrow> RaftState \<Rightarrow> RaftState" where
  "on_state_change old_role s =
     (if rs_has_callback s then s\<lparr>rs_calls := rs_calls s @ [(old_role, rs_current_role s)]\<rparr> else s)"

definition TransitionToCandidate :: "RaftState \<Rightarrow> RaftState \<times> Status" where
  "TransitionToCandidate s =
     (if rs_current_role s = kLeader
      then (s, mk_Status kInvalidArgument
                 ''Leader cannot transition directly to Candidate. Must StepDown first.'')
      else let old_role = rs_current_role s;
               s = s\<lparr>rs_current_role := kCandidate, rs_current_term := rs_current_term s + 1,
                     rs_voted_for := rs_self_id s, rs_leader_id := ''''\<rparr>
           in (on_state_change old_role s, Status_Ok))"

definition TransitionToLeader :: "RaftState \<Rightarrow> RaftState \<times> Status" where
  "TransitionToLeader s =
     (if rs_current_role s \<noteq> kCandidate
      then (s, mk_Status kInvalidArgument ''Only a Candidate can transition to Leader.'')
      else let old_role = rs_current_role s;
               s = s\<lparr>rs_current_role := kLeader, rs_leader_id := rs_self_id s\<rparr>
           in (on_state_change old_role s, Status_Ok))"

definition StepDown :: "RaftState \<Rightarrow> u64 \<Rightarrow> string \<Rightarrow> RaftState \<times> Status" where
  "StepDown s new_term known_leader_id =
     (if new_term < rs_current_term s
      then (s, mk_Status kInvalidArgument ''Cannot step down to a lower term.'')
      else let old_role = rs_current_role s;
               s = (if new_term > rs_current_term s then s\<lparr>rs_voted_for := ''''\<rparr> else s);
               s = s\<lparr>rs_current_role := kFollower, rs_current_term := new_term, rs_leader_id := known_leader_id\<rparr>
           in (if old_role \<noteq> rs_current_role s then on_state_change old_role s else s, Status_Ok))"

definition GrantVote :: "RaftState \<Rightarrow> string \<Rightarrow> RaftState \<times> Status" where
  "GrantVote s candidate_id =
     (if rs_voted_for s = '''' \<or> rs_voted_for s = candidate_id
      then (s\<lparr>rs_voted_for := candidate_id\<rparr>, Status_Ok)
      else (s, mk_Status kAlreadyExists ''Already voted for another candidate in this term.''))"

definition LoadState :: "RaftState \<Rightarrow> u64 \<Rightarrow> string \<Rightarrow> RaftState" where
  "LoadState s term voted_for = s\<lparr>rs_current_term := term, rs_voted_for := voted_for\<rparr>"

subsection \<open>Runs of a node\<close>

datatype raft_event =
    BecomeCandidate
  | BecomeLeader
  | StepDownTo u64 string
  | VoteFor string
  | Register bool

fun raft_apply :: "RaftState \<Rightarrow> raft_event \<Rightarrow> RaftState \<times> Status" where
  "raft_apply s BecomeCandidate = TransitionToCandidate s"
| "raft_apply s BecomeLeader = TransitionToLeader s"
| "raft_apply s (StepDownTo t l) = StepDown s t l"
| "raft_apply s (VoteFor c) = GrantVote s c"
| "raft_apply s (Register b) = (SetStateChangeCallback s b, Status_Ok)"

text \<open>The votes a step casts: the candidate it grants, or the node itself when it stands for election.\<close>

fun votes_cast :: "raft_event \<Rightarrow> RaftState \<Rightarrow> Status \<Rightarrow> (u64 \<times> string) list" where
  "votes_cast BecomeCandidate s' st = (if Status_IsOk st then [(rs_current_term s', rs_self_id s')] else [])"
| "votes_cast (VoteFor c) s' st = (if Status_IsOk st then [(rs_current_term s', c)] else [])"
| "votes_cast _ s' st = []"

text \<open>Reachability from a freshly loaded state, with the votes cast on the way. A step may be taken as long as
  the term has not reached the last 64-bit value.\<close>

inductive raft_reach :: "RaftState \<Rightarrow> (u64 \<times> string) list \<Rightarrow> RaftState \<Rightarrow> bool" for s0 where
  start: "raft_reach s0 [] s0"
| step: "raft_reach s0 vs s \<Longrightarrow> rs_current_term s \<noteq> - 1 \<Longrightarrow> raft_apply s ev = (s', st)
         \<Longrightarrow> raft_reach s0 (vs @ votes_cast ev s' st) s'"

inductive_cases raft_reach_NilE: "raft_reach s0 [] s"

lemmas raft_ops = TransitionToCandidate_def TransitionToLeader_def StepDown_def GrantVote_def
  SetStateChangeCallback_def on_state_change_def Let_def

lemma mk_Status_not_ok [simp]: "Status_IsOk (mk_Status c m) \<longleftrightarrow> c = kOk"
  by (simp add: Status_IsOk_def mk_Status_def)

lemma Status_Ok_ok [simp]: "Status_IsOk Status_Ok"
  by (simp add: Status_IsOk_def Status_Ok_def)

subsection \<open>Invariants\<close>

text \<open>Votes: nothing was voted in a later term, and a vote of the current term is remembered.\<close>

definition votes_ok :: "(u64 \<times> string) list \<Rightarrow> RaftState \<Rightarrow> bool" where
  "votes_ok vs s \<longleftrightarrow> (\<forall>(t, a) \<in> set vs. t \<le> rs_current_term s \<and> (t = rs_current_term s \<and> a \<noteq> '''' \<longrightarrow> rs_voted_for s = a))"

definition votes_unique :: "(u64 \<times> string) list \<Rightarrow> bool" where
  "votes_unique vs \<longleftrightarrow> (\<forall>t a b. (t, a) \<in> set vs \<and> (t, b) \<in> set vs \<and> a \<noteq> '''' \<and> b \<noteq> '''' \<longrightarrow> a = b)"

lemma votes_ok_less:
  "votes_ok vs s \<Longrightarrow> rs_current_term s < rs_current_term s' \<Longrightarrow> votes_ok vs s'"
  by (fastforce simp: votes_ok_def)

lemma votes_ok_same:
  "votes_ok vs s \<Longrightarrow> rs_current_term s' = rs_current_term s \<Longrightarrow> rs_voted_for s' = rs_voted_for s \<Longrightarrow> votes_ok vs s'"
  by (simp add: votes_ok_def)

lemma votes_unique_snoc:
  assumes "votes_unique vs" "\<And>b. (t, b) \<in> set vs \<Longrightarrow> b \<noteq> '''' \<Longrightarrow> a \<noteq> '''' \<Longrightarrow> a = b"
  shows "votes_unique (vs @ [(t, a)])"
  using assms unfolding votes_unique_def by auto

lemma raft_votes_step:
  assumes "votes_ok vs s" "votes_unique vs" "rs_current_term s \<noteq> - 1" "raft_apply s ev = (s', st)"
  shows "votes_ok (vs @ votes_cast ev s' st) s' \<and> votes_unique (vs @ votes_cast ev s' st)"
proof (cases ev)
  case BecomeCandidate
  show ?thesis
  proof (cases "rs_current_role s = kLeader")
    case True
    with assms BecomeCandidate show ?thesis by (auto simp: raft_ops)
  next
    case False
    let ?t = "rs_current_term s + 1"
    have t: "rs_current_term s < ?t"
      using assms(3) by (intro u64_less_plus_1) (simp add: word_order.not_eq_extremum)
    have s': "rs_current_term s' = ?t" "rs_voted_for s' = rs_self_id s" "rs_self_id s' = rs_self_id s" "Status_IsOk st"
      using assms(4) False BecomeCandidate by (auto simp: raft_ops)
    have "(?t, b) \<notin> set vs" for b
      using assms(1) t by (auto simp: votes_ok_def)
    then have "votes_unique (vs @ [(?t, rs_self_id s)])"
      using assms(2) by (intro votes_unique_snoc) auto
    moreover have "votes_ok vs s'" using votes_ok_less [OF assms(1)] t s' by simp
    ultimately show ?thesis using s' BecomeCandidate by (auto simp: votes_ok_def)
  qed
next
  case BecomeLeader
  with assms show ?thesis by (auto simp: raft_ops intro: votes_ok_same split: if_splits)
next
  case (StepDownTo t l)
  with assms show ?thesis
    by (auto simp: raft_ops not_less intro: votes_ok_same votes_ok_less split: if_splits)
next
  case (VoteFor c)
  show ?thesis
  proof (cases "rs_voted_for s = '''' \<or> rs_voted_for s = c")
    case True
    with assms(4) VoteFor have s': "s' = s\<lparr>rs_voted_for := c\<rparr>" "Status_IsOk st" by (auto simp: raft_ops)
    have prev: "b = rs_voted_for s" if "(rs_current_term s, b) \<in> set vs" "b \<noteq> ''''" for b
      using assms(1) that by (auto simp: votes_ok_def)
    then have "votes_unique (vs @ [(rs_current_term s, c)])"
      using assms(2) True by (intro votes_unique_snoc) auto
    moreover have "votes_ok vs s'" using assms(1) prev True by (fastforce simp: votes_ok_def s')
    ultimately show ?thesis using s' VoteFor by (auto simp: votes_ok_def)
  next
    case False
    with assms VoteFor show ?thesis by (auto simp: raft_ops)
  qed
next
  case (Register b)
  with assms show ?thesis by (auto simp: raft_ops intro: votes_ok_same)
qed

lemma raft_reach_votes:
  assumes "raft_reach s0 vs s" "votes_ok ws s0" "votes_unique ws"
  shows "votes_ok (ws @ vs) s \<and> votes_unique (ws @ vs)"
  using assms
proof (induction rule: raft_reach.induct)
  case (step vs s ev s' st)
  with raft_votes_step [of "ws @ vs" s ev s' st] show ?case by simp
qed simp

lemma no_votes: "votes_ok [] s" "votes_unique []"
  by (simp_all add: votes_ok_def votes_unique_def)

text \<open>Roles: a candidate has voted for itself and knows no leader, a leader is its own leader.\<close>

definition role_ok :: "RaftState \<Rightarrow> bool" where
  "role_ok s \<longleftrightarrow>
     (case rs_current_role s of
        kFollower \<Rightarrow> True
      | kCandidate \<Rightarrow> rs_voted_for s = rs_self_id s \<and> rs_leader_id s = ''''
      | kLeader \<Rightarrow> rs_voted_for s = rs_self_id s \<and> rs_leader_id s = rs_self_id s)"

definition legal_change :: "RaftRole \<times> RaftRole \<Rightarrow> bool" where
  "legal_change c \<longleftrightarrow> c \<in> {(kFollower, kCandidate), (kCandidate, kCandidate), (kCandidate, kLeader),
     (kCandidate, kFollower), (kLeader, kFollower)}"

lemma raft_apply_self: "raft_apply s ev = (s', st) \<Longrightarrow> rs_self_id s' = rs_self_id s"
  by (cases ev) (auto simp: raft_ops split: if_splits)

lemma raft_apply_role_ok:
  "raft_apply s ev = (s', st) \<Longrightarrow> rs_self_id s \<noteq> '''' \<Longrightarrow> role_ok s \<Longrightarrow> role_ok s'"
  by (cases ev; cases "rs_current_role s") (auto simp: raft_ops role_ok_def split: if_splits)

lemma raft_apply_legal:
  "raft_apply s ev = (s', st) \<Longrightarrow> list_all legal_change (rs_calls s) \<Longrightarrow> list_all legal_change (rs_calls s')"
  by (cases ev; cases "rs_current_role s") (auto simp: raft_ops legal_change_def split: if_splits)

lemma raft_apply_term:
  assumes "raft_apply s ev = (s', st)" "rs_current_term s \<noteq> - 1"
  shows "rs_current_term s \<le> rs_current_term s'"
proof -
  have "rs_current_term s \<le> rs_current_term s + 1"
    using u64_less_plus_1 [of "rs_current_term s"] assms(2) by (simp add: word_order.not_eq_extremum)
  with assms(1) show ?thesis by (cases ev) (auto simp: raft_ops split: if_splits)
qed

lemma raft_reach_invariants:
  assumes "raft_reach s0 vs s" "rs_self_id s0 \<noteq> ''''" "role_ok s0" "list_all legal_change (rs_calls s0)"
  shows "rs_self_id s = rs_self_id s0 \<and> role_ok s \<and> list_all legal_change (rs_calls s)
    \<and> rs_current_term s0 \<le> rs_current_term s"
  using assms
proof (induction rule: raft_reach.induct)
  case (step vs s ev s' st)
  then show ?case
    using raft_apply_self raft_apply_role_ok raft_apply_legal raft_apply_term order_trans by metis
qed simp

subsection \<open>Properties\<close>

text \<open>C11. One vote per term: in every run of a node, granted votes and the votes it gives itself as a
  candidate never name two different candidates in the same term, also across a restart that reloads the
  persisted term and vote. Candidate names are not empty and the term stays below its last value.\<close>

theorem Raft_one_vote_per_term:
  assumes "raft_reach s0 vs s"
    and "raft_reach (LoadState (RaftState_new self) (rs_current_term s) (rs_voted_for s)) vs' s'"
    and "(t, a) \<in> set (vs @ vs')" and "(t, b) \<in> set (vs @ vs')" and "a \<noteq> ''''" and "b \<noteq> ''''"
  shows "a = b"
proof -
  have 1: "votes_ok vs s \<and> votes_unique vs" using raft_reach_votes [OF assms(1) no_votes] by simp
  then have "votes_ok vs (LoadState (RaftState_new self) (rs_current_term s) (rs_voted_for s))"
    by (auto intro: votes_ok_same simp: LoadState_def)
  from raft_reach_votes [OF assms(2) this] 1 have "votes_unique (vs @ vs')" by blast
  with assms(3-6) show ?thesis unfolding votes_unique_def by blast
qed

theorem Raft_one_vote_per_term_witness:
  "\<exists>s s'. raft_reach (RaftState_new ''n1'') [(0, ''a'')] s
     \<and> raft_reach (LoadState (RaftState_new ''n1'') (rs_current_term s) (rs_voted_for s)) [(0, ''a'')] s'
     \<and> snd (hd [(0 :: u64, ''a'')]) = ''a''"
proof -
  let ?init = "RaftState_new ''n1''" and ?s = "(RaftState_new ''n1'')\<lparr>rs_voted_for := ''a''\<rparr>"
  have "raft_reach ?init ([] @ votes_cast (VoteFor ''a'') ?s Status_Ok) ?s"
    by (rule raft_reach.step [OF raft_reach.start]) (simp_all add: GrantVote_def RaftState_new_def)
  then have r: "raft_reach ?init [(0, ''a'')] ?s" by (simp add: RaftState_new_def)
  let ?l = "LoadState ?init (rs_current_term ?s) (rs_voted_for ?s)"
  have "raft_reach ?l ([] @ votes_cast (VoteFor ''a'') ?l Status_Ok) ?l"
    by (rule raft_reach.step [OF raft_reach.start]) (simp_all add: GrantVote_def RaftState_new_def LoadState_def)
  then have r': "raft_reach ?l [(0, ''a'')] ?l" by (simp add: RaftState_new_def LoadState_def)
  have "snd (hd [(0 :: u64, ''a'')]) = ''a''"
    by (rule Raft_one_vote_per_term [OF r r', where t = 0]) simp_all
  with r r' show ?thesis by blast
qed

text \<open>C24. The role machine: in every run from the initial state of a named node the term never decreases, a
  candidate has voted for itself and has no leader, a leader has voted for itself and is its own leader,
  and the callback has only seen legal role changes.\<close>

theorem Raft_role_invariants:
  assumes "raft_reach (RaftState_new self) vs s" and "self \<noteq> ''''"
    and "rs_current_term s \<noteq> - 1" and "raft_apply s ev = (s', st)"
  shows "role_ok s' \<and> rs_self_id s' = self \<and> list_all legal_change (rs_calls s')
    \<and> rs_current_term s \<le> rs_current_term s'"
proof -
  have "raft_reach (RaftState_new self) (vs @ votes_cast ev s' st) s'"
    using assms(1,3,4) by (rule raft_reach.step)
  from raft_reach_invariants [OF this] raft_apply_term [OF assms(4,3)] assms(2) show ?thesis
    by (simp add: RaftState_new_def role_ok_def)
qed

theorem Raft_role_invariants_witness:
  "role_ok (fst (raft_apply (RaftState_new ''n1'') BecomeCandidate))
   \<and> rs_current_role (fst (raft_apply (RaftState_new ''n1'') BecomeCandidate)) = kCandidate"
proof -
  obtain s st where a: "raft_apply (RaftState_new ''n1'') BecomeCandidate = (s, st)" by force
  from Raft_role_invariants [OF raft_reach.start _ _ a] have "role_ok s" by (simp add: RaftState_new_def)
  with a show ?thesis by (auto simp: raft_ops RaftState_new_def)
qed

text \<open>The term is a 64-bit counter without a check: a follower at the last term that stands for election
  is in term 0 afterwards, below every term it has voted in.\<close>

theorem Raft_term_wraps:
  assumes "rs_current_term s = - 1" and "rs_current_role s \<noteq> kLeader"
  shows "rs_current_term (fst (TransitionToCandidate s)) = 0 \<and> Status_IsOk (snd (TransitionToCandidate s))"
  using assms by (simp add: raft_ops)

theorem Raft_term_wraps_witness:
  "rs_current_term (fst (TransitionToCandidate (LoadState (RaftState_new ''n1'') (- 1) ''''))) = 0"
  using Raft_term_wraps [of "LoadState (RaftState_new ''n1'') (- 1) ''''"]
  by (simp add: LoadState_def RaftState_new_def)

end
