(* ===== verification/Hlc.thy ===== *)
theory Hlc
  imports Prelude
begin

text \<open>
  \<^verbatim>\<open>src/common/clock\<close>: the hybrid logical clock, and the two clocks it can run on. A timestamp packs 48 bits of
  physical microseconds and a 16-bit logical counter into a 64-bit word. The physical clock is foreign
  to the object: its reading is an argument of each operation. \<^verbatim>\<open>FakeClock\<close>, the clock of the
  tests, is modelled as its counter, and provides the interface \<^verbatim>\<open>Clock\<close> that histories of the hybrid
  clock are proved over.
\<close>

definition FakeClock_NowMicros :: "u64 \<Rightarrow> u64" where
  "FakeClock_NowMicros current_micros = current_micros"

definition FakeClock_Advance :: "u64 \<Rightarrow> u64 \<Rightarrow> u64" where
  "FakeClock_Advance current_micros micros = current_micros + micros"

definition FakeClock_SleepForMicros :: "u64 \<Rightarrow> u64 \<Rightarrow> u64" where
  "FakeClock_SleepForMicros current_micros micros = FakeClock_Advance current_micros micros"

text \<open>\<^verbatim>\<open>PhysicalClock\<close>: the system clock counts nanoseconds since 1970 in a signed 64-bit number, which the cast
  to microseconds truncates towards zero. How long the system lets a thread sleep is an argument; it is asked for
  a signed number of microseconds.\<close>

definition PhysicalClock_NowMicros :: "int \<Rightarrow> u64" where
  "PhysicalClock_NowMicros now = word_of_int (if now < 0 then - (- now div 1000) else now div 1000)"

definition PhysicalClock_SleepForMicros :: "(int \<Rightarrow> int \<Rightarrow> int) \<Rightarrow> int \<Rightarrow> u64 \<Rightarrow> int" where
  "PhysicalClock_SleepForMicros sleep_for now micros = sleep_for now (sint micros)"

definition GetPhysicalTime :: "u64 \<Rightarrow> u64" where
  "GetPhysicalTime hlc_time = drop_bit 16 hlc_time"

definition GetLogicalTime :: "u64 \<Rightarrow> u64" where
  "GetLogicalTime hlc_time = hlc_time AND 0xFFFF"

text \<open>The state of the clock is \<^verbatim>\<open>current_time_\<close>, which both operations also return.\<close>

definition HLC_Now :: "u64 \<Rightarrow> u64 \<Rightarrow> u64" where
  "HLC_Now current_time physical_time =
     (let current_physical = GetPhysicalTime current_time;
          current_logical = GetLogicalTime current_time
      in if physical_time > current_physical then push_bit 16 physical_time OR 0
         else push_bit 16 current_physical OR (current_logical + 1))"

definition HLC_Update :: "u64 \<Rightarrow> u64 \<Rightarrow> u64 \<Rightarrow> u64" where
  "HLC_Update current_time physical_time remote_time =
     (let current_physical = GetPhysicalTime current_time;
          current_logical = GetLogicalTime current_time;
          remote_physical = GetPhysicalTime remote_time;
          remote_logical = GetLogicalTime remote_time;
          max_physical = max physical_time (max current_physical remote_physical)
      in if max_physical = physical_time \<and> physical_time > current_physical \<and> physical_time > remote_physical
         then push_bit 16 physical_time OR 0
         else let max_logical = 0;
                  max_logical = (if max_physical = current_physical then max max_logical current_logical else max_logical);
                  max_logical = (if max_physical = remote_physical then max max_logical remote_logical else max_logical)
              in push_bit 16 max_physical OR (max_logical + 1))"

text \<open>The class \<^verbatim>\<open>Clock\<close> is an interface with the two operations \<open>now\<close> and \<open>sleep\<close>, and the object keeps a
  pointer to one. A history of a node: it sleeps, takes a timestamp for an event of its own, or receives a
  message with a timestamp. Each timestamp is listed with the operation and the reading of the clock.\<close>

datatype clock_op = Sleep_op u64 | Now_op | Update_op u64

fun hlc_run :: "('c \<Rightarrow> u64) \<Rightarrow> ('c \<Rightarrow> u64 \<Rightarrow> 'c) \<Rightarrow> u64 \<Rightarrow> 'c \<Rightarrow> clock_op list \<Rightarrow> (clock_op \<times> u64 \<times> u64) list" where
  "hlc_run now sleep current_time c [] = []"
| "hlc_run now sleep current_time c (Sleep_op d # ops) = hlc_run now sleep current_time (sleep c d) ops"
| "hlc_run now sleep current_time c (Now_op # ops) =
     (let t = HLC_Now current_time (now c) in (Now_op, now c, t) # hlc_run now sleep t c ops)"
| "hlc_run now sleep current_time c (Update_op remote_time # ops) =
     (let t = HLC_Update current_time (now c) remote_time
      in (Update_op remote_time, now c, t) # hlc_run now sleep t c ops)"

subsection \<open>Packing\<close>

lemma unat_pack:
  fixes p l :: u64
  assumes "unat p < 2 ^ 48" "unat l < 2 ^ 16"
  shows "unat (push_bit 16 p OR l) = unat p * 2 ^ 16 + unat l"
proof -
  have "\<not> bit l n" if "16 \<le> n" for n
  proof -
    have "l = take_bit 16 l"
      using assms(2) by (simp add: word_unat_eq_iff unsigned_take_bit_eq take_bit_nat_eq_self)
    then show ?thesis using that by (metis bit_take_bit_iff leD)
  qed
  then have "push_bit 16 p OR l = push_bit 16 p + l"
    by (intro disjunctive_add [symmetric]) (auto simp: bit_push_bit_iff)
  moreover have "unat (push_bit 16 p) = unat p * 2 ^ 16"
    using assms(1) by (simp add: push_bit_eq_mult unat_word_ariths)
  ultimately show ?thesis using assms by (simp add: unat_word_ariths)
qed

lemma unat_physical [simp]: "unat (GetPhysicalTime t) = unat t div 2 ^ 16"
  by (simp add: GetPhysicalTime_def drop_bit_eq_div unat_div_distrib)

lemma unat_logical [simp]: "unat (GetLogicalTime t) = unat t mod 2 ^ 16"
proof -
  have "GetLogicalTime t = take_bit 16 t"
    by (simp add: GetLogicalTime_def take_bit_eq_mask mask_eq_exp_minus_1)
  then show ?thesis by (simp add: take_bit_eq_mod unat_mod_distrib)
qed

lemma physical_bound: "unat t div 2 ^ 16 < 2 ^ 48" for t :: u64
proof -
  have "unat t < 2 ^ LENGTH(64)" by (rule unsigned_less)
  then show ?thesis by (simp add: less_mult_imp_div_less)
qed

lemma split_time: "unat t = unat t div 2 ^ 16 * 2 ^ 16 + unat t mod 2 ^ 16" for t :: u64
  by simp

lemma unat_less_max [simp]: "unat (max a b) = max (unat a) (unat b)" for a b :: u64
  by (simp add: max_def word_le_nat_alt)

lemma unat_logical_Suc:
  "unat t mod 2 ^ 16 < 0xFFFF \<Longrightarrow> unat (GetLogicalTime t + 1) = unat t mod 2 ^ 16 + 1" for t :: u64
  by (simp add: unat_word_ariths)

lemma HLC_Now_value:
  assumes "unat pt < 2 ^ 48" "unat cur mod 2 ^ 16 < 0xFFFF"
  shows "unat (HLC_Now cur pt) = (if unat pt > unat cur div 2 ^ 16 then unat pt * 2 ^ 16 else unat cur + 1)"
proof -
  have "unat (push_bit 16 pt OR 0) = unat pt * 2 ^ 16 + unat (0 :: u64)"
    using assms(1) by (intro unat_pack) simp_all
  moreover have "unat (push_bit 16 (GetPhysicalTime cur) OR (GetLogicalTime cur + 1))
      = unat (GetPhysicalTime cur) * 2 ^ 16 + unat (GetLogicalTime cur + 1)"
    using assms(2) physical_bound [of cur] unat_logical_Suc [of cur] by (intro unat_pack) simp_all
  moreover have "pt > GetPhysicalTime cur \<longleftrightarrow> unat pt > unat cur div 2 ^ 16" by (simp add: word_less_nat_alt)
  ultimately show ?thesis
    using unat_logical_Suc [OF assms(2)] split_time [of cur] by (simp add: HLC_Now_def Let_def)
qed

text \<open>The result of \<^verbatim>\<open>Update\<close>: the largest physical part, and one more than the largest logical part that
  belongs to it.\<close>

definition logical_at :: "nat \<Rightarrow> u64 \<Rightarrow> nat" where
  "logical_at m t = (if unat t div 2 ^ 16 = m then unat t mod 2 ^ 16 else 0)"

lemma HLC_Update_value:
  assumes "unat pt < 2 ^ 48" "unat cur mod 2 ^ 16 < 0xFFFF" "unat rem mod 2 ^ 16 < 0xFFFF"
  defines "m \<equiv> max (unat pt) (max (unat cur div 2 ^ 16) (unat rem div 2 ^ 16))"
  shows "unat (HLC_Update cur pt rem) =
    (if unat pt > unat cur div 2 ^ 16 \<and> unat pt > unat rem div 2 ^ 16 then unat pt * 2 ^ 16
     else m * 2 ^ 16 + max (logical_at m cur) (logical_at m rem) + 1)"
proof -
  define mp where "mp = max pt (max (GetPhysicalTime cur) (GetPhysicalTime rem))"
  define l1 where "l1 = (if mp = GetPhysicalTime cur then max 0 (GetLogicalTime cur) else 0)"
  define l2 where "l2 = (if mp = GetPhysicalTime rem then max l1 (GetLogicalTime rem) else l1)"
  have mp: "unat mp = m" by (simp add: m_def mp_def)
  have lt: "m < 2 ^ 48" using assms(1) physical_bound [of cur] physical_bound [of rem] by (simp add: m_def)
  have eq: "mp = GetPhysicalTime x \<longleftrightarrow> unat x div 2 ^ 16 = m" for x
    using mp by (metis unat_physical word_unat_eq_iff)
  have la: "unat l1 = logical_at m cur"
    unfolding l1_def eq logical_at_def by (simp add: max_def word_le_nat_alt)
  have l: "unat l2 = max (logical_at m cur) (logical_at m rem)"
    unfolding l2_def eq la [symmetric] logical_at_def [of m rem] by (simp add: max_def word_le_nat_alt)
  have lb: "logical_at m x < 0xFFFF" if "unat x mod 2 ^ 16 < 0xFFFF" for x
    using that by (simp add: logical_at_def)
  have b: "unat l2 < 0xFFFF" using l lb [OF assms(2)] lb [OF assms(3)] by simp
  have s: "unat (l2 + 1) = unat l2 + 1" using b by (simp add: unat_word_ariths)
  have pack: "unat (push_bit 16 mp OR (l2 + 1)) = unat mp * 2 ^ 16 + unat (l2 + 1)"
    using lt mp s b by (intro unat_pack) simp_all
  have pack0: "unat (push_bit 16 pt OR 0) = unat pt * 2 ^ 16 + unat (0 :: u64)"
    using assms(1) by (intro unat_pack) simp_all
  have c: "(mp = pt \<and> pt > GetPhysicalTime cur \<and> pt > GetPhysicalTime rem)
      \<longleftrightarrow> unat pt > unat cur div 2 ^ 16 \<and> unat pt > unat rem div 2 ^ 16"
    unfolding mp_def by (auto simp: word_less_nat_alt max_def word_le_nat_alt)
  have u: "HLC_Update cur pt rem =
      (if mp = pt \<and> pt > GetPhysicalTime cur \<and> pt > GetPhysicalTime rem
       then push_bit 16 mp OR 0 else push_bit 16 mp OR (l2 + 1))"
    unfolding HLC_Update_def Let_def l2_def l1_def mp_def by presburger
  show ?thesis
  proof (cases "unat pt > unat cur div 2 ^ 16 \<and> unat pt > unat rem div 2 ^ 16")
    case True
    then have "mp = pt" using c by blast
    with True show ?thesis unfolding u c using pack0 by simp
  next
    case False
    then show ?thesis unfolding u c using pack s l mp by (simp only: if_False add.assoc)
  qed
qed

subsection \<open>Single steps\<close>

text \<open>The clock moves forward: as long as physical readings fit the 48 bits of a timestamp and the logical
  counter is not exhausted, \<^verbatim>\<open>Now\<close> returns a timestamp after the previous one.\<close>

theorem HLC_Now_monotone:
  assumes "unat physical_time < 2 ^ 48" and "unat (GetLogicalTime current_time) < 0xFFFF"
  shows "current_time < HLC_Now current_time physical_time"
proof -
  have "unat current_time < unat (HLC_Now current_time physical_time)"
    using HLC_Now_value [of physical_time current_time] assms split_time [of current_time] by (simp split: if_splits)
  then show ?thesis by (simp add: word_less_nat_alt)
qed

theorem HLC_Now_monotone_witness: "(0 :: u64) < HLC_Now 0 1000"
  by (rule HLC_Now_monotone) (simp_all add: GetLogicalTime_def)

text \<open>Receiving keeps causality: if the physical reading fits 48 bits and neither logical counter is exhausted,
  \<^verbatim>\<open>Update\<close> returns a timestamp after both.\<close>

theorem HLC_Update_causal:
  assumes "unat physical_time < 2 ^ 48" and "unat (GetLogicalTime current_time) < 0xFFFF"
    and "unat (GetLogicalTime remote_time) < 0xFFFF"
  shows "current_time < HLC_Update current_time physical_time remote_time
    \<and> remote_time < HLC_Update current_time physical_time remote_time"
proof -
  let ?m = "max (unat physical_time) (max (unat current_time div 2 ^ 16) (unat remote_time div 2 ^ 16))"
  have val: "unat (HLC_Update current_time physical_time remote_time) =
    (if unat physical_time > unat current_time div 2 ^ 16 \<and> unat physical_time > unat remote_time div 2 ^ 16
     then unat physical_time * 2 ^ 16
     else ?m * 2 ^ 16 + max (logical_at ?m current_time) (logical_at ?m remote_time) + 1)"
    using assms by (intro HLC_Update_value) simp_all
  have below: "unat x < n * 2 ^ 16" if "unat x div 2 ^ 16 < n" for x :: u64 and n
    using that by (simp add: div_less_iff_less_mult)
  have at: "unat x \<le> n * 2 ^ 16 + logical_at n x" if "unat x div 2 ^ 16 \<le> n" for x :: u64 and n
    using that below [of x n] split_time [of x] by (cases "unat x div 2 ^ 16 = n") (auto simp: logical_at_def)
  have "unat x < unat (HLC_Update current_time physical_time remote_time)" if "x \<in> {current_time, remote_time}" for x
  proof (cases "unat physical_time > unat current_time div 2 ^ 16 \<and> unat physical_time > unat remote_time div 2 ^ 16")
    case True
    with that val below [of x "unat physical_time"] show ?thesis by auto
  next
    case False
    have "unat x div 2 ^ 16 \<le> ?m" using that by auto
    note at [OF this]
    moreover have "logical_at ?m x \<le> max (logical_at ?m current_time) (logical_at ?m remote_time)"
      using that by auto
    moreover have "unat (HLC_Update current_time physical_time remote_time)
        = ?m * 2 ^ 16 + max (logical_at ?m current_time) (logical_at ?m remote_time) + 1"
      by (simp only: val False if_False)
    ultimately show ?thesis by linarith
  qed
  then show ?thesis by (simp add: word_less_nat_alt)
qed

theorem HLC_Update_causal_witness:
  "(65536 :: u64) < HLC_Update 65536 1 131073 \<and> (131073 :: u64) < HLC_Update 65536 1 131073"
  by (rule HLC_Update_causal) (simp_all add: GetLogicalTime_def)

subsection \<open>Histories\<close>

lemma HLC_Now_logical:
  assumes "unat physical_time < 2 ^ 48" and "unat current_time mod 2 ^ 16 < 0xFFFF"
  shows "unat (HLC_Now current_time physical_time) mod 2 ^ 16 \<le> unat current_time mod 2 ^ 16 + 1"
    and "unat physical_time \<le> unat (HLC_Now current_time physical_time) div 2 ^ 16"
proof -
  have "Suc (unat current_time) div 2 ^ 16 = unat current_time div 2 ^ 16" using assms(2) by (simp add: div_Suc mod_Suc)
  with HLC_Now_value [OF assms] show "unat (HLC_Now current_time physical_time) mod 2 ^ 16 \<le> unat current_time mod 2 ^ 16 + 1"
      "unat physical_time \<le> unat (HLC_Now current_time physical_time) div 2 ^ 16"
    using assms(2) by (auto simp: mod_Suc)
qed

lemma HLC_Update_logical:
  assumes "unat physical_time < 2 ^ 48" and "unat current_time mod 2 ^ 16 \<le> n" and "unat remote_time mod 2 ^ 16 \<le> n"
    and "n < 0xFFFF"
  shows "unat (HLC_Update current_time physical_time remote_time) mod 2 ^ 16 \<le> n + 1"
    and "unat physical_time \<le> unat (HLC_Update current_time physical_time remote_time) div 2 ^ 16"
proof -
  define m where "m = max (unat physical_time) (max (unat current_time div 2 ^ 16) (unat remote_time div 2 ^ 16))"
  define l where "l = max (logical_at m current_time) (logical_at m remote_time)"
  have "logical_at m x \<le> n" if "unat x mod 2 ^ 16 \<le> n" for x using that by (simp add: logical_at_def)
  then have l: "l \<le> n" using assms(2,3) by (simp add: l_def)
  have "unat (HLC_Update current_time physical_time remote_time) =
    (if unat physical_time > unat current_time div 2 ^ 16 \<and> unat physical_time > unat remote_time div 2 ^ 16
     then unat physical_time * 2 ^ 16 else m * 2 ^ 16 + l + 1)"
    unfolding m_def l_def using assms by (intro HLC_Update_value) simp_all
  moreover have "(m * 2 ^ 16 + l + 1) mod 2 ^ 16 = l + 1" "(m * 2 ^ 16 + l + 1) div 2 ^ 16 = m"
    using l assms(4) by (simp_all only: add.assoc mod_mult_self3 div_mult_self3) simp_all
  moreover have "unat physical_time \<le> m" by (simp add: m_def)
  ultimately show "unat (HLC_Update current_time physical_time remote_time) mod 2 ^ 16 \<le> n + 1"
      "unat physical_time \<le> unat (HLC_Update current_time physical_time remote_time) div 2 ^ 16"
    using l by simp_all
qed

primrec sleep_of :: "clock_op \<Rightarrow> nat" where
  "sleep_of (Sleep_op d) = unat d"
| "sleep_of Now_op = 0"
| "sleep_of (Update_op r) = 0"

primrec remote_logical :: "clock_op \<Rightarrow> nat" where
  "remote_logical (Sleep_op d) = 0"
| "remote_logical Now_op = 0"
| "remote_logical (Update_op r) = unat (GetLogicalTime r)"

text \<open>A timestamp does not lag behind the clock, and is after the timestamp of the message that caused it.\<close>

fun event_ok :: "clock_op \<times> u64 \<times> u64 \<Rightarrow> bool" where
  "event_ok (op, reading, t) \<longleftrightarrow> reading \<le> GetPhysicalTime t \<and> (case op of Update_op r \<Rightarrow> r < t | _ \<Rightarrow> True)"

text \<open>What the hybrid clock relies on: \<open>fits n c\<close> says that the readings stay within 48 bits when the owner of
  the clock sleeps for \<open>n\<close> more microseconds, and a sleep takes at least as long as it was asked to.\<close>

locale clock_interface =
  fixes now :: "'c \<Rightarrow> u64" and sleep :: "'c \<Rightarrow> u64 \<Rightarrow> 'c" and fits :: "nat \<Rightarrow> 'c \<Rightarrow> bool"
  assumes fits_now: "fits n c \<Longrightarrow> unat (now c) < 2 ^ 48"
    and fits_sleep: "fits n c \<Longrightarrow> unat d \<le> n \<Longrightarrow> fits (n - unat d) (sleep c d)"
    and sleep_elapsed: "fits n c \<Longrightarrow> unat d \<le> n \<Longrightarrow> unat (now c) + unat d \<le> unat (now (sleep c d))"
begin

lemma now_step:
  assumes "fits n c" and "unat t mod 2 ^ 16 \<le> l" and "l < 0xFFFF"
  shows "t < HLC_Now t (now c) \<and> unat (HLC_Now t (now c)) mod 2 ^ 16 \<le> l + 1 \<and> event_ok (Now_op, now c, HLC_Now t (now c))"
  using HLC_Now_logical [OF fits_now [OF assms(1)], of t] HLC_Now_monotone [OF fits_now [OF assms(1)], of t] assms(2,3)
  by (simp add: word_le_nat_alt)

lemma update_step:
  assumes "fits n c" and "unat t mod 2 ^ 16 \<le> l" and "unat (GetLogicalTime r) \<le> l" and "l < 0xFFFF"
  shows "t < HLC_Update t (now c) r \<and> unat (HLC_Update t (now c) r) mod 2 ^ 16 \<le> l + 1
    \<and> event_ok (Update_op r, now c, HLC_Update t (now c) r)"
  using HLC_Update_logical [OF fits_now [OF assms(1)], of t l r] HLC_Update_causal [OF fits_now [OF assms(1)], of t r] assms(2-)
  by (simp add: word_le_nat_alt)

lemma run_ordered:
  assumes "fits n c" and "(\<Sum>op \<leftarrow> ops. sleep_of op) \<le> n" and "unat t mod 2 ^ 16 \<le> l"
    and "\<forall>op \<in> set ops. remote_logical op \<le> l" and "l + length ops \<le> 0xFFFF"
  defines "events \<equiv> hlc_run now sleep t c ops"
  shows "sorted_wrt (<) (t # map (\<lambda>(op, reading, t). t) events) \<and> list_all event_ok events
    \<and> sorted_wrt (\<le>) (now c # map (\<lambda>(op, reading, t). reading) events)"
  using assms(1-5) unfolding events_def
proof (induction ops arbitrary: n l t c)
  case (Cons op ops)
  show ?case
  proof (cases op)
    case (Sleep_op d)
    have d: "unat d \<le> n" using Cons.prems(2) Sleep_op by simp
    note ih = Cons.IH [OF fits_sleep [OF Cons.prems(1) d], of t l]
    have "now c \<le> now (sleep c d)" using sleep_elapsed [OF Cons.prems(1) d] by (simp add: word_le_nat_alt)
    with ih Cons.prems(2-) Sleep_op show ?thesis by force
  next
    case Now_op
    with Cons.prems have step: "t < HLC_Now t (now c)" "unat (HLC_Now t (now c)) mod 2 ^ 16 \<le> l + 1"
        "event_ok (Now_op, now c, HLC_Now t (now c))"
      using now_step [OF Cons.prems(1,3)] by auto
    note ih = Cons.IH [OF Cons.prems(1) _ step(2)]
    show ?thesis using ih step Cons.prems(2-) Now_op by (force simp: Let_def le_SucI)
  next
    case (Update_op r)
    with Cons.prems have step: "t < HLC_Update t (now c) r" "unat (HLC_Update t (now c) r) mod 2 ^ 16 \<le> l + 1"
        "event_ok (Update_op r, now c, HLC_Update t (now c) r)"
      using update_step [OF Cons.prems(1,3)] by auto
    note ih = Cons.IH [OF Cons.prems(1) _ step(2)]
    show ?thesis using ih step Cons.prems(2-) Update_op by (force simp: Let_def le_SucI)
  qed
qed simp

end

interpretation fake_clock: clock_interface FakeClock_NowMicros FakeClock_SleepForMicros "\<lambda>n c. unat c + n < 2 ^ 48"
  by unfold_locales (simp_all add: FakeClock_NowMicros_def FakeClock_SleepForMicros_def FakeClock_Advance_def unat_word_ariths)

subsection \<open>Properties\<close>

text \<open>C28. Timestamps follow causality: a node with a new hybrid clock, over a clock that starts anywhere, sleeps,
  stamps its own events and receives messages in any order. Every timestamp is after all timestamps before
  it, after the timestamp of the message that it answers, and not behind the physical reading, and the
  readings never go back. The readings stay within 48 bits, and the number of operations together with the
  logical counters of the messages within 16 bits.\<close>

theorem HLC_run_ordered:
  assumes "unat start + (\<Sum>op \<leftarrow> ops. sleep_of op) < 2 ^ 48" and "\<forall>op \<in> set ops. remote_logical op \<le> l"
    and "l + length ops \<le> 0xFFFF"
    and "events = hlc_run FakeClock_NowMicros FakeClock_SleepForMicros 0 start ops"
  shows "sorted_wrt (<) (map (\<lambda>(op, reading, t). t) events) \<and> list_all event_ok events
    \<and> sorted_wrt (\<le>) (map (\<lambda>(op, reading, t). reading) events)"
  using fake_clock.run_ordered [OF assms(1) order_refl, of 0 l] assms(2-) by simp

theorem HLC_run_ordered_witness:
  "map (\<lambda>(op, reading, t). t) (hlc_run FakeClock_NowMicros FakeClock_SleepForMicros 0 5 [Now_op, Now_op, Update_op 458753, Sleep_op 4, Now_op])
     = [327680, 327681, 458754, 589824]
   \<and> sorted_wrt (<) (map (\<lambda>(op, reading, t). t)
       (hlc_run FakeClock_NowMicros FakeClock_SleepForMicros 0 5 [Now_op, Now_op, Update_op 458753, Sleep_op 4, Now_op]))"
proof -
  have "remote_logical (Update_op 458753) = 1" by (simp add: GetLogicalTime_def)
  with HLC_run_ordered [of 5 "[Now_op, Now_op, Update_op 458753, Sleep_op 4, Now_op]" 1] show ?thesis
    by (simp add: HLC_Now_def HLC_Update_def GetPhysicalTime_def GetLogicalTime_def FakeClock_NowMicros_def
        FakeClock_SleepForMicros_def FakeClock_Advance_def max_def)
qed

lemma unat_PhysicalClock:
  assumes "0 \<le> now" and "now < 2 ^ 63"
  shows "unat (PhysicalClock_NowMicros now) = nat (now div 1000)"
proof -
  have "0 \<le> now div 1000" "now div 1000 < 2 ^ 64" using assms by simp_all
  with assms(1) show ?thesis by (simp add: PhysicalClock_NowMicros_def unat_eq_nat_uint uint_word_of_int_eq take_bit_int_eq_self)
qed

text \<open>A sleep of less than half the range takes at least the time that was asked for.\<close>

lemma PhysicalClock_sleep_elapsed:
  assumes "\<And>t d. t + 1000 * d \<le> sleep_for t d" and "unat micros < 2 ^ 63"
  shows "now + 1000 * int (unat micros) \<le> PhysicalClock_SleepForMicros sleep_for now micros"
proof -
  from assms(2) have "int (unat micros) < int (2 ^ 63)" by (rule iffD2 [OF of_nat_less_iff])
  then have lt: "uint micros < 2 ^ 63" by simp
  have ge: "- (2 ^ 63) \<le> uint micros" by (rule order_trans [OF _ uint_ge_0]) simp
  have "signed_take_bit 63 (uint micros) = uint micros" by (rule signed_take_bit_int_eq_self [OF ge lt])
  moreover have "sint micros = signed_take_bit (LENGTH(64) - Suc 0) (uint micros)" by (rule sint_uint)
  ultimately have "sint micros = uint micros" by simp
  with assms(1) [of now "uint micros"] show ?thesis unfolding PhysicalClock_SleepForMicros_def by simp
qed

text \<open>C29. Wall-clock time does not fit: microseconds since 1970 have exceeded 48 bits since 1978. From then on
  the clock keeps no logical part: over the system clock, two timestamps that are taken within one microsecond
  are the same.\<close>

theorem HLC_Now_repeats_on_wall_clock:
  assumes "1000 * 2 ^ 48 \<le> t1" and "t1 < 2 ^ 63" and "t2 div 1000 = t1 div 1000"
  shows "HLC_Now (HLC_Now current_time (PhysicalClock_NowMicros t1)) (PhysicalClock_NowMicros t2)
    = HLC_Now current_time (PhysicalClock_NowMicros t1)"
proof -
  have "(1000 * 2 ^ 48) div 1000 \<le> t1 div 1000" using assms(1) by (intro zdiv_mono1) simp_all
  then have micros: "2 ^ 48 \<le> t1 div 1000" by simp
  have "unat (PhysicalClock_NowMicros t1) = nat (t1 div 1000)" using assms(1,2) by (intro unat_PhysicalClock) simp_all
  with micros have big: "2 ^ 48 \<le> unat (PhysicalClock_NowMicros t1)" by simp
  have "0 \<le> t2"
  proof (rule ccontr)
    assume "\<not> 0 \<le> t2"
    then have "t2 div 1000 < 0" by (simp add: pos_imp_zdiv_neg_iff)
    with micros assms(3) show False by simp
  qed
  then have same: "PhysicalClock_NowMicros t2 = PhysicalClock_NowMicros t1"
    using assms(1,3) by (simp add: PhysicalClock_NowMicros_def)
  have "GetPhysicalTime t < PhysicalClock_NowMicros t1" for t
    using big physical_bound [of t] by (simp add: word_less_nat_alt)
  then show ?thesis by (simp add: HLC_Now_def Let_def same)
qed

theorem HLC_Now_repeats_on_wall_clock_witness:
  "HLC_Now (HLC_Now 0 (PhysicalClock_NowMicros 1784000000000000001)) (PhysicalClock_NowMicros 1784000000000000900)
   = HLC_Now 0 (PhysicalClock_NowMicros 1784000000000000001)"
  by (rule HLC_Now_repeats_on_wall_clock) simp_all

text \<open>An exhausted logical counter runs into the physical part: at an odd physical time the next
  timestamp is smaller than the current one.\<close>

theorem HLC_Now_counter_overflow:
  assumes "physical_time \<le> GetPhysicalTime current_time" and "GetLogicalTime current_time = 0xFFFF"
    and "odd (GetPhysicalTime current_time)"
  shows "HLC_Now current_time physical_time < current_time"
proof -
  let ?p = "GetPhysicalTime current_time"
  have p0: "bit ?p 0" using assms(3) by (simp add: bit_0)
  have "bit (push_bit 16 ?p) n" if "bit (push_bit 16 1 :: u64) n" for n
  proof -
    from that have "16 \<le> n \<and> bit (1 :: u64) (n - 16)" by (simp only: bit_push_bit_iff)
    then have "n = 16" by (simp add: bit_1_iff)
    with p0 show ?thesis by (simp add: bit_push_bit_iff)
  qed
  then have "push_bit 16 ?p OR push_bit 16 1 = push_bit 16 ?p"
    by (intro bit_eqI) (auto simp only: bit_or_iff)
  moreover have "push_bit 16 1 = (0x10000 :: u64)" by simp
  ultimately have "push_bit 16 ?p OR 0x10000 = push_bit 16 ?p" by (simp only:)
  then have now: "HLC_Now current_time physical_time = push_bit 16 ?p OR 0"
    using assms(1,2) by (simp add: HLC_Now_def Let_def)
  have "unat (push_bit 16 ?p OR 0) = unat ?p * 2 ^ 16 + unat (0 :: u64)"
    using physical_bound [of current_time] by (intro unat_pack) simp_all
  moreover have "unat current_time mod 2 ^ 16 = 0xFFFF"
    using assms(2) unat_logical [of current_time] by simp
  ultimately show ?thesis
    using split_time [of current_time] by (simp add: now word_less_nat_alt)
qed

theorem HLC_Now_counter_overflow_witness: "HLC_Now 0x1FFFF 1 < (0x1FFFF :: u64)"
  by (rule HLC_Now_counter_overflow) (simp_all add: GetPhysicalTime_def GetLogicalTime_def)

end
