(* ===== verification/Decimal.thy ===== *)
theory Decimal
  imports Prelude
begin

text \<open>
  Decimal output of integers, as \<^verbatim>\<open>std::to_string\<close> and \<^verbatim>\<open>operator<<\<close> print them and as
  file names and cache keys use it: the digits of a number, zero padding to a field width, and that
  the number can be recovered from either.
\<close>

definition digit :: "nat \<Rightarrow> char" where
  "digit d = char_of (48 + d)"

fun to_string_nat :: "nat \<Rightarrow> string" where
  "to_string_nat n = (if n < 10 then [digit n] else to_string_nat (n div 10) @ [digit (n mod 10)])"

declare to_string_nat.simps [simp del]

definition to_string_u64 :: "u64 \<Rightarrow> string" where
  "to_string_u64 w = to_string_nat (unat w)"

definition to_string_int :: "int \<Rightarrow> string" where
  "to_string_int i = (if i < 0 then CHR ''-'' # to_string_nat (nat (- i)) else to_string_nat (nat i))"

text \<open>\<^verbatim>\<open>std::setw(w) << std::setfill(c)\<close> in front of a value.\<close>

definition pad_left :: "nat \<Rightarrow> char \<Rightarrow> string \<Rightarrow> string" where
  "pad_left w c s = replicate (w - length s) c @ s"

subsection \<open>Reading back\<close>

definition digits_value :: "string \<Rightarrow> nat" where
  "digits_value s = foldl (\<lambda>a c. 10 * a + (of_char c - 48)) 0 s"

definition is_digit :: "char \<Rightarrow> bool" where
  "is_digit c \<longleftrightarrow> (of_char c :: nat) \<in> {48 ..< 58}"

lemma of_char_digit: "d < 10 \<Longrightarrow> (of_char (digit d) :: nat) = 48 + d"
  by (simp add: digit_def)

lemma is_digit_digit: "d < 10 \<Longrightarrow> is_digit (digit d)"
  by (simp add: is_digit_def of_char_digit)

lemma to_string_nat_digits: "list_all is_digit (to_string_nat n)"
  by (induction n rule: to_string_nat.induct) (subst to_string_nat.simps, simp add: is_digit_digit)

lemma digits_value_to_string [simp]: "digits_value (to_string_nat n) = n"
proof (induction n rule: to_string_nat.induct)
  case (1 n)
  then show ?case
    by (subst to_string_nat.simps) (simp add: digits_value_def of_char_digit)
qed

lemma digits_value_zeros: "digits_value (replicate k (CHR ''0'') @ s) = digits_value s"
  by (induction k) (simp_all add: digits_value_def)

lemma to_string_nat_inject [simp]: "to_string_nat m = to_string_nat n \<longleftrightarrow> m = n"
  by (metis digits_value_to_string)

lemma to_string_u64_inject [simp]: "to_string_u64 m = to_string_u64 n \<longleftrightarrow> m = n"
  by (simp add: to_string_u64_def word_unat_eq_iff)

lemma pad_zeros_inject: "pad_left w (CHR ''0'') (to_string_u64 m) = pad_left w (CHR ''0'') (to_string_u64 n) \<longleftrightarrow> m = n"
proof
  assume "pad_left w (CHR ''0'') (to_string_u64 m) = pad_left w (CHR ''0'') (to_string_u64 n)"
  then have "digits_value (pad_left w (CHR ''0'') (to_string_u64 m)) = digits_value (pad_left w (CHR ''0'') (to_string_u64 n))"
    by simp
  then show "m = n" by (simp add: pad_left_def digits_value_zeros to_string_u64_def word_unat_eq_iff)
qed simp

text \<open>A string that ends in a separator and a number determines both parts.\<close>

lemma split_at_last_separator:
  assumes "p @ c # s = q @ c # t" "c \<notin> set s" "c \<notin> set t"
  shows "p = q \<and> s = t"
proof -
  have "takeWhile (\<lambda>x. x \<noteq> c) (rev (p @ c # s)) = rev s" "takeWhile (\<lambda>x. x \<noteq> c) (rev (q @ c # t)) = rev t"
    using assms(2,3) by (simp_all add: takeWhile_append1 takeWhile_tail)
      (metis (mono_tags, lifting) append.right_neutral set_rev takeWhile.simps(2) takeWhile_append2)+
  then have "s = t" using assms(1) by (metis rev_rev_ident)
  then show ?thesis using assms(1) by simp
qed

lemma separator_not_digit: "\<not> is_digit c \<Longrightarrow> c \<notin> set (to_string_u64 n)"
  using to_string_nat_digits [of "unat n"] by (auto simp: to_string_u64_def list_all_iff)

lemma length_to_string_nat: "n < 10 ^ Suc d \<Longrightarrow> length (to_string_nat n) \<le> Suc d"
proof (induction d arbitrary: n)
  case 0
  then show ?case by (simp add: to_string_nat.simps [of n])
next
  case (Suc d)
  then have "n div 10 < 10 ^ Suc d" by (simp add: less_mult_imp_div_less)
  from Suc.IH [OF this] show ?case by (simp add: to_string_nat.simps [of n])
qed

lemma length_to_string_u64: "length (to_string_u64 w) \<le> 20"
proof -
  have "unat w < 2 ^ LENGTH(64)" by (rule unsigned_less)
  then have "unat w < 10 ^ Suc 19" by simp
  from length_to_string_nat [OF this] show ?thesis by (simp add: to_string_u64_def)
qed

end
