(* ===== verification/Block_Cache.thy ===== *)
theory Block_Cache
  imports Decimal Ordered_Table
begin

text \<open>
  \<^verbatim>\<open>src/storage/cache/block_cache.{h,cpp}\<close>: an LRU cache. A list iterator is the identity of a list
  node: it stays valid when the node moves and dangles once the node is erased, so the list is a
  sequence of identified nodes and following an iterator that dangles is a fault (\<^const>\<open>None\<close>). The
  lookup takes the lock twice; its two critical sections are separate operations, between which other
  threads may run.
\<close>

record CacheItem =
  ci_key :: string
  ci_data :: bytes

record BlockCache =
  bc_capacity_bytes :: nat
  bc_current_size_bytes :: nat
  bc_lru_list :: "(nat \<times> CacheItem) list"
  bc_hash_map :: "string \<rightharpoonup> nat"
  bc_hits :: u64
  bc_misses :: u64
  bc_fresh :: nat

text \<open>The capacity is computed in 64 bits.\<close>

definition BlockCache_new :: "u64 \<Rightarrow> BlockCache" where
  "BlockCache_new capacity_mb =
     \<lparr>bc_capacity_bytes = unat (capacity_mb * 1024 * 1024), bc_current_size_bytes = 0, bc_lru_list = [],
      bc_hash_map = Map.empty, bc_hits = 0, bc_misses = 0, bc_fresh = 0\<rparr>"

definition MakeCacheKey :: "string \<Rightarrow> u64 \<Rightarrow> string" where
  "MakeCacheKey sstable_filepath block_offset = sstable_filepath @ '':'' @ to_string_u64 block_offset"

definition item_size :: "CacheItem \<Rightarrow> nat" where
  "item_size it = length (ci_key it) + length (ci_data it)"

definition list_erase :: "nat \<Rightarrow> (nat \<times> CacheItem) list \<Rightarrow> (nat \<times> CacheItem) list" where
  "list_erase node xs = filter (\<lambda>e. fst e \<noteq> node) xs"

definition list_splice_front :: "nat \<Rightarrow> (nat \<times> CacheItem) list \<Rightarrow> (nat \<times> CacheItem) list option" where
  "list_splice_front node xs = do { it \<leftarrow> map_of xs node; Some ((node, it) # list_erase node xs) }"

text \<open>The section under the shared lock, and whether it found the key.\<close>

definition Get_lookup :: "BlockCache \<Rightarrow> string \<Rightarrow> BlockCache \<times> bool" where
  "Get_lookup c k = (case bc_hash_map c k of None \<Rightarrow> (c\<lparr>bc_misses := bc_misses c + 1\<rparr>, False) | Some _ \<Rightarrow> (c, True))"

text \<open>The section under the exclusive lock.\<close>

definition Get_promote :: "BlockCache \<Rightarrow> string \<Rightarrow> (BlockCache \<times> bytes option) option" where
  "Get_promote c k =
     (case bc_hash_map c k of
        None \<Rightarrow> Some (c\<lparr>bc_misses := bc_misses c + 1\<rparr>, None)
      | Some node \<Rightarrow>
          do { lru_list \<leftarrow> list_splice_front node (bc_lru_list c);
               it \<leftarrow> map_of lru_list node;
               Some (c\<lparr>bc_lru_list := lru_list, bc_hits := bc_hits c + 1\<rparr>, Some (ci_data it)) })"

definition BlockCache_Get :: "BlockCache \<Rightarrow> string \<Rightarrow> (BlockCache \<times> bytes option) option" where
  "BlockCache_Get c k =
     (case Get_lookup c k of (c, found) \<Rightarrow> if found then Get_promote c k else Some (c, None))"

function evict :: "BlockCache \<Rightarrow> BlockCache" where
  "evict c =
     (if bc_current_size_bytes c > bc_capacity_bytes c \<and> bc_lru_list c \<noteq> [] then
        let it = snd (last (bc_lru_list c)) in
        evict (c\<lparr>bc_hash_map := (bc_hash_map c)(ci_key it := None), bc_lru_list := butlast (bc_lru_list c),
                 bc_current_size_bytes := bc_current_size_bytes c - item_size it\<rparr>)
      else c)"
  by pat_completeness auto
termination
  by (relation "measure (\<lambda>c. length (bc_lru_list c))") auto

declare evict.simps [simp del]

definition Put_remove_old :: "BlockCache \<Rightarrow> string \<Rightarrow> BlockCache option" where
  "Put_remove_old c k =
     (case bc_hash_map c k of
        None \<Rightarrow> Some c
      | Some node \<Rightarrow>
          do { it \<leftarrow> map_of (bc_lru_list c) node;
               Some (c\<lparr>bc_current_size_bytes := bc_current_size_bytes c - item_size it,
                       bc_lru_list := list_erase node (bc_lru_list c),
                       bc_hash_map := (bc_hash_map c)(k := None)\<rparr>) })"

definition BlockCache_Put :: "BlockCache \<Rightarrow> string \<Rightarrow> bytes \<Rightarrow> BlockCache option" where
  "BlockCache_Put c k block_data =
     (let size = length k + length block_data in
      if size > bc_capacity_bytes c then Some c
      else do { c \<leftarrow> Put_remove_old c k;
                Some (evict (c\<lparr>bc_lru_list := (bc_fresh c, \<lparr>ci_key = k, ci_data = block_data\<rparr>) # bc_lru_list c,
                               bc_hash_map := (bc_hash_map c)(k \<mapsto> bc_fresh c),
                               bc_current_size_bytes := bc_current_size_bytes c + size,
                               bc_fresh := bc_fresh c + 1\<rparr>)) })"

subsection \<open>The abstract cache: items by recency\<close>

definition cache_items :: "BlockCache \<Rightarrow> CacheItem list" where
  "cache_items c = map snd (bc_lru_list c)"

definition total_size :: "CacheItem list \<Rightarrow> nat" where
  "total_size xs = sum_list (map item_size xs)"

text \<open>The longest prefix that fits into a number of bytes.\<close>

fun lru_fit :: "nat \<Rightarrow> CacheItem list \<Rightarrow> CacheItem list" where
  "lru_fit cap [] = []"
| "lru_fit cap (x # xs) = (if item_size x \<le> cap then x # lru_fit (cap - item_size x) xs else [])"

definition lru_remove :: "string \<Rightarrow> CacheItem list \<Rightarrow> CacheItem list" where
  "lru_remove k xs = filter (\<lambda>x. ci_key x \<noteq> k) xs"

definition lru_put :: "nat \<Rightarrow> string \<Rightarrow> bytes \<Rightarrow> CacheItem list \<Rightarrow> CacheItem list" where
  "lru_put cap k d xs = (if length k + length d > cap then xs
     else lru_fit cap (\<lparr>ci_key = k, ci_data = d\<rparr> # lru_remove k xs))"

definition lru_get :: "string \<Rightarrow> CacheItem list \<Rightarrow> CacheItem list \<times> bytes option" where
  "lru_get k xs = (case List.find (\<lambda>x. ci_key x = k) xs of
     None \<Rightarrow> (xs, None) | Some x \<Rightarrow> (x # lru_remove k xs, Some (ci_data x)))"

text \<open>Nodes and keys are distinct, the hash map points to the node of each key, sizes are exact.\<close>

definition linked :: "BlockCache \<Rightarrow> bool" where
  "linked c \<longleftrightarrow> distinct (map fst (bc_lru_list c)) \<and> distinct (map (ci_key \<circ> snd) (bc_lru_list c))
     \<and> (\<forall>k node. bc_hash_map c k = Some node \<longleftrightarrow> (\<exists>it. (node, it) \<in> set (bc_lru_list c) \<and> ci_key it = k))
     \<and> (\<forall>e \<in> set (bc_lru_list c). fst e < bc_fresh c)
     \<and> bc_current_size_bytes c = total_size (cache_items c)"

definition BlockCache_wf :: "BlockCache \<Rightarrow> bool" where
  "BlockCache_wf c \<longleftrightarrow> linked c \<and> bc_current_size_bytes c \<le> bc_capacity_bytes c"

lemma BlockCache_new_wf [simp]: "BlockCache_wf (BlockCache_new mb)" "cache_items (BlockCache_new mb) = []"
  by (simp_all add: BlockCache_wf_def linked_def BlockCache_new_def cache_items_def total_size_def)

lemma total_size_simps [simp]:
  "total_size [] = 0" "total_size (x # xs) = item_size x + total_size xs" "total_size (xs @ ys) = total_size xs + total_size ys"
  by (simp_all add: total_size_def)

lemma lru_fit_all: "total_size xs \<le> cap \<Longrightarrow> lru_fit cap xs = xs"
  by (induction xs arbitrary: cap) auto

lemma lru_fit_snoc: "total_size (xs @ [x]) > cap \<Longrightarrow> lru_fit cap (xs @ [x]) = lru_fit cap xs"
  by (induction xs arbitrary: cap) auto

text \<open>Evicting from the back keeps the longest prefix that fits.\<close>

lemma linked_butlast:
  assumes "linked c" "bc_lru_list c \<noteq> []"
  defines "it \<equiv> snd (last (bc_lru_list c))"
  shows "linked (c\<lparr>bc_hash_map := (bc_hash_map c)(ci_key it := None), bc_lru_list := butlast (bc_lru_list c),
      bc_current_size_bytes := bc_current_size_bytes c - item_size it\<rparr>)"
proof -
  obtain xs n where l: "bc_lru_list c = xs @ [(n, it)]"
    using assms(2) unfolding it_def by (metis append_butlast_last_id prod.collapse)
  note a = assms(1)[unfolded linked_def l]
  show ?thesis using a
    by (auto simp: linked_def l cache_items_def image_iff)
qed

lemma evict_ok:
  assumes "linked c"
  shows "BlockCache_wf (evict c) \<and> cache_items (evict c) = lru_fit (bc_capacity_bytes c) (cache_items c)
     \<and> bc_capacity_bytes (evict c) = bc_capacity_bytes c"
  using assms
proof (induction c rule: evict.induct)
  case (1 c)
  show ?case
  proof (cases "bc_current_size_bytes c > bc_capacity_bytes c \<and> bc_lru_list c \<noteq> []")
    case True
    let ?it = "snd (last (bc_lru_list c))"
    let ?c = "c\<lparr>bc_hash_map := (bc_hash_map c)(ci_key ?it := None), bc_lru_list := butlast (bc_lru_list c),
      bc_current_size_bytes := bc_current_size_bytes c - item_size ?it\<rparr>"
    have "cache_items c = cache_items ?c @ [?it]"
      using True by (simp add: cache_items_def) (metis append_butlast_last_id list.simps(8,9) map_append)
    moreover have "total_size (cache_items c) > bc_capacity_bytes c" using True 1(2) by (simp add: linked_def)
    ultimately have "lru_fit (bc_capacity_bytes c) (cache_items c) = lru_fit (bc_capacity_bytes c) (cache_items ?c)"
      by (metis lru_fit_snoc)
    with 1(1) [OF True refl linked_butlast] 1(2) True show ?thesis
      by (simp add: evict.simps [of c] Let_def)
  next
    case False
    with 1(2) have "bc_current_size_bytes c \<le> bc_capacity_bytes c" by (auto simp: linked_def cache_items_def)
    with False 1(2) show ?thesis
      by (simp add: evict.simps [of c] BlockCache_wf_def) (simp add: linked_def lru_fit_all)
  qed
qed

text \<open>What an iterator of the hash map points to.\<close>

lemma linked_lookup:
  assumes "linked c" "bc_hash_map c k = Some node"
  obtains xs it ys where "bc_lru_list c = xs @ (node, it) # ys" "ci_key it = k" "map_of (bc_lru_list c) node = Some it"
    "list_erase node (bc_lru_list c) = xs @ ys" "lru_remove k (cache_items c) = map snd (xs @ ys)"
    "List.find (\<lambda>x. ci_key x = k) (cache_items c) = Some it"
proof -
  obtain it where it: "(node, it) \<in> set (bc_lru_list c)" "ci_key it = k" using assms by (auto simp: linked_def)
  then obtain xs ys where l: "bc_lru_list c = xs @ (node, it) # ys" by (meson split_list)
  have d: "distinct (map fst (xs @ (node, it) # ys))" "distinct (map (ci_key \<circ> snd) (xs @ (node, it) # ys))"
    using assms(1) l by (auto simp: linked_def)
  from d(1) have e: "filter (\<lambda>e. fst e \<noteq> node) xs = xs" "filter (\<lambda>e. fst e \<noteq> node) ys = ys"
    by (auto simp: filter_id_conv)
  from d(2) it(2) have nk: "\<forall>e \<in> set xs \<union> set ys. ci_key (snd e) \<noteq> k" by (auto simp: image_iff)
  then have r: "filter (\<lambda>x. ci_key x \<noteq> k) (map snd xs) = map snd xs" "filter (\<lambda>x. ci_key x \<noteq> k) (map snd ys) = map snd ys"
    by (auto simp: filter_id_conv)
  have "List.find (\<lambda>x. ci_key x = k) (map snd xs) = None" using nk by (auto simp: find_None_iff)
  then have "List.find (\<lambda>x. ci_key x = k) (map snd xs @ it # map snd ys) = Some it"
    using it(2) nk by (induction xs) auto
  moreover have "map_of (xs @ (node, it) # ys) node = Some it" using d(1) by (intro map_of_is_SomeI) auto
  ultimately show thesis
    using that [OF l it(2)] e r it by (simp add: l list_erase_def lru_remove_def cache_items_def)
qed

lemma linked_miss:
  assumes "linked c" "bc_hash_map c k = None"
  shows "\<forall>x \<in> set (cache_items c). ci_key x \<noteq> k" "lru_remove k (cache_items c) = cache_items c"
    "List.find (\<lambda>x. ci_key x = k) (cache_items c) = None"
proof -
  show 1: "\<forall>x \<in> set (cache_items c). ci_key x \<noteq> k"
  proof
    fix x assume "x \<in> set (cache_items c)"
    then obtain n where "(n, x) \<in> set (bc_lru_list c)" by (auto simp: cache_items_def)
    then have "bc_hash_map c (ci_key x) = Some n" using assms(1) unfolding linked_def by blast
    with assms(2) show "ci_key x \<noteq> k" by auto
  qed
  then show "lru_remove k (cache_items c) = cache_items c" "List.find (\<lambda>x. ci_key x = k) (cache_items c) = None"
    by (auto simp: lru_remove_def filter_id_conv find_None_iff)
qed

lemma Put_remove_old_ok:
  assumes "linked c"
  shows "\<exists>c'. Put_remove_old c k = Some c' \<and> linked c' \<and> cache_items c' = lru_remove k (cache_items c)
     \<and> bc_hash_map c' k = None \<and> bc_capacity_bytes c' = bc_capacity_bytes c \<and> bc_fresh c' = bc_fresh c"
proof (cases "bc_hash_map c k")
  case None
  with assms linked_miss [OF assms None] show ?thesis by (simp add: Put_remove_old_def)
next
  case (Some node)
  obtain xs it ys where l: "bc_lru_list c = xs @ (node, it) # ys" "ci_key it = k"
    "map_of (bc_lru_list c) node = Some it" "list_erase node (bc_lru_list c) = xs @ ys"
    "lru_remove k (cache_items c) = map snd (xs @ ys)"
    "List.find (\<lambda>x. ci_key x = k) (cache_items c) = Some it" by (rule linked_lookup [OF assms Some])
  let ?c = "c\<lparr>bc_current_size_bytes := bc_current_size_bytes c - item_size it,
      bc_lru_list := xs @ ys, bc_hash_map := (bc_hash_map c)(k := None)\<rparr>"
  have "linked ?c"
    using assms l(1,2) by (auto simp: linked_def cache_items_def image_iff)
  then show ?thesis using Some l by (simp add: Put_remove_old_def) (simp add: cache_items_def)
qed

lemma linked_push:
  assumes "linked c" "bc_hash_map c k = None"
  shows "linked (c\<lparr>bc_lru_list := (bc_fresh c, \<lparr>ci_key = k, ci_data = d\<rparr>) # bc_lru_list c,
      bc_hash_map := (bc_hash_map c)(k \<mapsto> bc_fresh c),
      bc_current_size_bytes := bc_current_size_bytes c + (length k + length d), bc_fresh := bc_fresh c + 1\<rparr>)"
proof -
  note l = assms(1)[unfolded linked_def]
  have nk: "\<forall>e \<in> set (bc_lru_list c). ci_key (snd e) \<noteq> k"
    using linked_miss(1) [OF assms] by (auto simp: cache_items_def)
  have nf: "\<forall>e \<in> set (bc_lru_list c). fst e \<noteq> bc_fresh c" using l by auto
  have hm: "(((bc_hash_map c)(k \<mapsto> bc_fresh c)) k' = Some node)
      = (\<exists>it. (node, it) \<in> set ((bc_fresh c, \<lparr>ci_key = k, ci_data = d\<rparr>) # bc_lru_list c) \<and> ci_key it = k')" for k' node
  proof (cases "k' = k")
    case True
    with nk show ?thesis by force
  next
    case False
    have "(bc_hash_map c k' = Some node) = (\<exists>it. (node, it) \<in> set (bc_lru_list c) \<and> ci_key it = k')"
      using l by blast
    with False show ?thesis by auto
  qed
  have d: "bc_fresh c \<notin> fst ` set (bc_lru_list c)" "k \<notin> (ci_key \<circ> snd) ` set (bc_lru_list c)"
    using nf nk by auto
  have sz: "bc_current_size_bytes c + (length k + length d)
      = total_size (\<lparr>ci_key = k, ci_data = d\<rparr> # cache_items c)"
    using l by (simp add: item_size_def)
  show ?thesis unfolding linked_def
    using l hm d sz by (simp add: cache_items_def less_Suc_eq)
qed

lemma BlockCache_Put_ok:
  assumes "BlockCache_wf c"
  shows "\<exists>c'. BlockCache_Put c k d = Some c' \<and> BlockCache_wf c'
     \<and> cache_items c' = lru_put (bc_capacity_bytes c) k d (cache_items c) \<and> bc_capacity_bytes c' = bc_capacity_bytes c"
proof (cases "length k + length d > bc_capacity_bytes c")
  case True
  with assms show ?thesis by (simp add: BlockCache_Put_def lru_put_def)
next
  case False
  obtain c1 where c1: "Put_remove_old c k = Some c1" "linked c1" "cache_items c1 = lru_remove k (cache_items c)"
    "bc_hash_map c1 k = None" "bc_capacity_bytes c1 = bc_capacity_bytes c"
    using Put_remove_old_ok [of c k] assms by (auto simp: BlockCache_wf_def)
  note e = evict_ok [OF linked_push [OF c1(2,4), of d]]
  from e have "cache_items (evict (c1\<lparr>bc_lru_list := (bc_fresh c1, \<lparr>ci_key = k, ci_data = d\<rparr>) # bc_lru_list c1,
      bc_hash_map := (bc_hash_map c1)(k \<mapsto> bc_fresh c1),
      bc_current_size_bytes := bc_current_size_bytes c1 + (length k + length d), bc_fresh := bc_fresh c1 + 1\<rparr>))
    = lru_put (bc_capacity_bytes c) k d (cache_items c)"
    using False c1(3,5) by (simp add: lru_put_def cache_items_def)
  with e c1 False show ?thesis by (simp add: BlockCache_Put_def Let_def)
qed

lemma Get_promote_ok:
  assumes "BlockCache_wf c"
  shows "\<exists>c'. Get_promote c k = Some (c', snd (lru_get k (cache_items c))) \<and> BlockCache_wf c'
     \<and> cache_items c' = fst (lru_get k (cache_items c)) \<and> bc_capacity_bytes c' = bc_capacity_bytes c"
proof (cases "bc_hash_map c k")
  case None
  with assms linked_miss(3) [of c k] show ?thesis
    by (auto simp: Get_promote_def BlockCache_wf_def linked_def lru_get_def cache_items_def)
next
  case (Some node)
  have lc: "linked c" using assms by (simp add: BlockCache_wf_def)
  obtain xs it ys where l: "bc_lru_list c = xs @ (node, it) # ys" "ci_key it = k"
    "map_of (bc_lru_list c) node = Some it" "list_erase node (bc_lru_list c) = xs @ ys"
    "lru_remove k (cache_items c) = map snd (xs @ ys)"
    "List.find (\<lambda>x. ci_key x = k) (cache_items c) = Some it" by (rule linked_lookup [OF lc Some])
  let ?c = "c\<lparr>bc_lru_list := (node, it) # xs @ ys, bc_hits := bc_hits c + 1\<rparr>"
  have "set (bc_lru_list ?c) = set (bc_lru_list c)" "bc_hash_map ?c = bc_hash_map c" using l(1) by auto
  then have "BlockCache_wf ?c"
    using assms unfolding BlockCache_wf_def linked_def by (simp add: l(1) cache_items_def)
  then show ?thesis
    using Some l by (simp add: Get_promote_def list_splice_front_def lru_get_def) (simp add: cache_items_def)
qed

lemma BlockCache_Get_ok:
  assumes "BlockCache_wf c"
  shows "\<exists>c'. BlockCache_Get c k = Some (c', snd (lru_get k (cache_items c))) \<and> BlockCache_wf c'
     \<and> cache_items c' = fst (lru_get k (cache_items c)) \<and> bc_capacity_bytes c' = bc_capacity_bytes c"
proof (cases "bc_hash_map c k")
  case None
  with assms linked_miss(3) [of c k] show ?thesis
    by (auto simp: BlockCache_Get_def Get_lookup_def BlockCache_wf_def linked_def lru_get_def cache_items_def)
next
  case (Some node)
  with Get_promote_ok [OF assms] show ?thesis by (simp add: BlockCache_Get_def Get_lookup_def)
qed

lemma Get_lookup_ok:
  "BlockCache_wf c \<Longrightarrow> BlockCache_wf (fst (Get_lookup c k)) \<and> cache_items (fst (Get_lookup c k)) = cache_items c
     \<and> bc_capacity_bytes (fst (Get_lookup c k)) = bc_capacity_bytes c"
  by (auto simp: Get_lookup_def BlockCache_wf_def linked_def cache_items_def split: option.split)

subsection \<open>Critical sections in any order\<close>

datatype cache_step = Lookup_step string | Promote_step string | Insert_step string bytes

fun cache_run :: "BlockCache \<Rightarrow> cache_step \<Rightarrow> BlockCache option" where
  "cache_run c (Lookup_step k) = Some (fst (Get_lookup c k))"
| "cache_run c (Promote_step k) = map_option fst (Get_promote c k)"
| "cache_run c (Insert_step k d) = BlockCache_Put c k d"

lemma cache_run_ok:
  "BlockCache_wf c \<Longrightarrow> \<exists>c'. cache_run c s = Some c' \<and> BlockCache_wf c' \<and> bc_capacity_bytes c' = bc_capacity_bytes c"
  using Get_lookup_ok Get_promote_ok BlockCache_Put_ok by (cases s) fastforce+

lemma cache_runs_ok:
  "BlockCache_wf c \<Longrightarrow> \<exists>c'. run_ops cache_run c ss = Some c' \<and> BlockCache_wf c' \<and> bc_capacity_bytes c' = bc_capacity_bytes c"
proof (induction ss arbitrary: c)
  case (Cons s ss)
  with cache_run_ok [OF Cons.prems, of s] show ?case by (metis (no_types, lifting) bind.bind_lunit run_ops.simps(2))
qed simp

subsection \<open>Properties\<close>

text \<open>C20. No interleaving breaks the cache: whatever sequence of critical sections (lookups,
  promotions, insertions, of any threads) runs on a new cache, no dangling iterator is followed, the
  byte counter is the exact size of what is stored and never exceeds the capacity, and no key is
  stored twice.\<close>

theorem BlockCache_interleaving_safe:
  "\<exists>c. run_ops cache_run (BlockCache_new mb) ss = Some c
     \<and> bc_current_size_bytes c = total_size (cache_items c) \<and> bc_current_size_bytes c \<le> bc_capacity_bytes c
     \<and> bc_capacity_bytes c = unat mb * 2 ^ 20 mod 2 ^ 64 \<and> distinct (map ci_key (cache_items c))"
proof -
  have cap: "bc_capacity_bytes (BlockCache_new mb) = unat mb * 2 ^ 20 mod 2 ^ 64"
    by (simp add: BlockCache_new_def unat_word_ariths mult.assoc mod_mult_left_eq)
  obtain c where "run_ops cache_run (BlockCache_new mb) ss = Some c" "BlockCache_wf c"
    "bc_capacity_bytes c = bc_capacity_bytes (BlockCache_new mb)"
    using cache_runs_ok [OF BlockCache_new_wf(1)] by blast
  with cap show ?thesis by (auto simp: BlockCache_wf_def linked_def cache_items_def comp_def)
qed

text \<open>C19. The cache is a least-recently-used cache: on every reachable state, insertion and lookup do
  to the sequence of items by recency what the reference does: a hit moves the item to the front, an
  insertion puts its item in front of all others and keeps the longest prefix that fits.\<close>

theorem BlockCache_refines_lru:
  "\<exists>c. run_ops cache_run (BlockCache_new mb) ss = Some c
     \<and> (\<forall>k d. \<exists>c1. BlockCache_Put c k d = Some c1
            \<and> cache_items c1 = lru_put (bc_capacity_bytes c) k d (cache_items c))
     \<and> (\<forall>k. \<exists>c2. BlockCache_Get c k = Some (c2, snd (lru_get k (cache_items c)))
            \<and> cache_items c2 = fst (lru_get k (cache_items c)))"
proof -
  obtain c where "run_ops cache_run (BlockCache_new mb) ss = Some c" "BlockCache_wf c"
    using cache_runs_ok [OF BlockCache_new_wf(1)] by blast
  with BlockCache_Put_ok BlockCache_Get_ok show ?thesis by blast
qed

text \<open>The cache key of a block determines its file and its offset.\<close>

lemma MakeCacheKey_inject: "MakeCacheKey p off = MakeCacheKey q off' \<longleftrightarrow> p = q \<and> off = off'"
proof
  assume "MakeCacheKey p off = MakeCacheKey q off'"
  moreover have "\<not> is_digit (CHR '':'')" by (simp add: is_digit_def)
  ultimately show "p = q \<and> off = off'"
    using split_at_last_separator [of p "CHR '':''" "to_string_u64 off" q "to_string_u64 off'"] separator_not_digit
    by (simp add: MakeCacheKey_def)
qed simp

end
