(* ===== verification/N_Way_Merge.thy ===== *)
theory N_Way_Merge
  imports Block Leveled_Compaction "HOL-Library.Multiset"
begin

text \<open>
  The in-memory part of \<^verbatim>\<open>CompactionManager::MergeFiles\<close>
  (\<^verbatim>\<open>src/storage/compaction/compaction_manager.cpp\<close>): a priority queue holds the next entry of every
  input file, the smallest key first and among equal keys the highest sequence number. The queue is a
  list in the order of its comparison; of two equivalent elements the one pushed later comes out first,
  which \<^verbatim>\<open>std::priority_queue\<close> leaves open, so the lemmas on values assume that the files have
  different sequence numbers. The theory proves that the queue delivers all entries in merge order, and
  what the removal of duplicates makes of them.
\<close>

record MergeItem =
  mi_entry :: BlockEntry
  mi_seq :: u64

abbreviation mi_key :: "MergeItem \<Rightarrow> key" where
  "mi_key it \<equiv> be_key (mi_entry it)"

definition MergeItem_greater :: "MergeItem \<Rightarrow> MergeItem \<Rightarrow> bool" where
  "MergeItem_greater a b = (if mi_key a \<noteq> mi_key b then mi_key a > mi_key b else mi_seq a < mi_seq b)"

type_synonym merge_heap = "(MergeItem \<times> nat) list"
type_synonym merge_files = "(BlockEntry list \<times> nat) list"

fun heap_push :: "MergeItem \<times> nat \<Rightarrow> merge_heap \<Rightarrow> merge_heap" where
  "heap_push x [] = [x]"
| "heap_push x (y # ys) = (if MergeItem_greater (fst x) (fst y) then y # heap_push x ys else x # y # ys)"

text \<open>The loop that puts the first entry of each file into the queue, over the indices \<open>ixs\<close>.\<close>

fun seed_heap :: "SSTableMeta list \<Rightarrow> nat list \<Rightarrow> merge_files \<Rightarrow> merge_heap \<Rightarrow> merge_files \<times> merge_heap" where
  "seed_heap inputs [] file_data h = (file_data, h)"
| "seed_heap inputs (i # ixs) file_data h =
     (if fst (file_data ! i) \<noteq> [] then
        seed_heap inputs ixs (file_data[i := (fst (file_data ! i), 1)])
          (heap_push (\<lparr>mi_entry = fst (file_data ! i) ! 0, mi_seq = sm_sequence_number (inputs ! i)\<rparr>, i) h)
      else seed_heap inputs ixs file_data h)"

text \<open>Pushing the entry that follows in the file of the entry just taken.\<close>

definition push_next :: "SSTableMeta list \<Rightarrow> merge_files \<Rightarrow> merge_heap \<Rightarrow> nat \<Rightarrow> merge_files \<times> merge_heap" where
  "push_next inputs file_data h file_idx =
     (let next_idx = snd (file_data ! file_idx) in
      if next_idx < length (fst (file_data ! file_idx)) then
        (file_data[file_idx := (fst (file_data ! file_idx), next_idx + 1)],
         heap_push (\<lparr>mi_entry = fst (file_data ! file_idx) ! next_idx,
                     mi_seq = sm_sequence_number (inputs ! file_idx)\<rparr>, file_idx) h)
      else (file_data, h))"

text \<open>How many entries have not been taken yet.\<close>

definition merge_left :: "merge_files \<Rightarrow> merge_heap \<Rightarrow> nat" where
  "merge_left file_data h = length h + sum_list (map (\<lambda>(es, n). length es - n) file_data)"

lemma length_heap_push [simp]: "length (heap_push x h) = Suc (length h)"
  by (induction h) auto

lemma mset_heap_push [simp]: "mset (heap_push x h) = add_mset x (mset h)"
  by (induction h) auto

lemma set_heap_push [simp]: "set (heap_push x h) = insert x (set h)"
  by (induction h) auto

lemma merge_left_Cons [simp]: "merge_left file_data (x # h) = Suc (merge_left file_data h)"
  by (simp add: merge_left_def)

lemma merge_left_push_next:
  assumes "i < length file_data"
  shows "merge_left (fst (push_next inputs file_data h i)) (snd (push_next inputs file_data h i)) = merge_left file_data h"
proof -
  let ?f = "\<lambda>(es, n). length es - n"
  obtain es n where e: "file_data ! i = (es, n)" by force
  have "sum_list (map ?f (file_data[i := (es, n + 1)])) + 1 = sum_list (map ?f file_data)" if "n < length es"
  proof -
    have l: "i < length (map ?f file_data)" using assms by simp
    have "map ?f (file_data[i := (es, n + 1)]) = (map ?f file_data)[i := length es - Suc n]"
      by (simp add: map_update)
    then have "sum_list (map ?f (file_data[i := (es, n + 1)]))
        = sum_list (map ?f file_data) + (length es - Suc n) - map ?f file_data ! i"
      using sum_list_update [OF l, of "length es - Suc n"] by simp
    moreover have "map ?f file_data ! i = length es - n" using assms e by simp
    moreover have "map ?f file_data ! i \<le> sum_list (map ?f file_data)"
      using nth_mem [OF l] by (intro member_le_sum_list) auto
    ultimately show ?thesis using that by linarith
  qed
  then show ?thesis
    by (auto simp: push_next_def e Let_def merge_left_def)
qed

text \<open>The entries in the order in which the queue delivers them.\<close>

function merge_stream :: "SSTableMeta list \<Rightarrow> merge_files \<Rightarrow> merge_heap \<Rightarrow> MergeItem list option" where
  "merge_stream inputs file_data [] = Some []"
| "merge_stream inputs file_data ((item, i) # h) =
     (if i < length file_data then
        map_option (Cons item)
          (merge_stream inputs (fst (push_next inputs file_data h i)) (snd (push_next inputs file_data h i)))
      else None)"
  by pat_completeness auto
termination
  by (relation "measure (\<lambda>(_, file_data, h). merge_left file_data h)") (simp_all add: case_prod_beta merge_left_push_next)

subsection \<open>The merge order\<close>

definition merge_le :: "MergeItem \<Rightarrow> MergeItem \<Rightarrow> bool" where
  "merge_le a b \<longleftrightarrow> \<not> MergeItem_greater a b"

lemma merge_le_iff: "merge_le a b \<longleftrightarrow> mi_key a < mi_key b \<or> mi_key a = mi_key b \<and> mi_seq b \<le> mi_seq a"
  by (auto simp: merge_le_def MergeItem_greater_def)

lemma merge_le_trans: "merge_le a b \<Longrightarrow> merge_le b c \<Longrightarrow> merge_le a c"
  by (auto simp: merge_le_iff intro: less_trans order_trans)

lemma merge_le_refl [simp]: "merge_le a a"
  by (simp add: merge_le_iff)

lemma greater_le: "MergeItem_greater a b \<Longrightarrow> merge_le b a"
  by (auto simp: merge_le_iff MergeItem_greater_def split: if_splits)

lemma sorted_heap_push:
  "sorted_wrt (\<lambda>a b. merge_le (fst a) (fst b)) h \<Longrightarrow> sorted_wrt (\<lambda>a b. merge_le (fst a) (fst b)) (heap_push x h)"
proof (induction h)
  case (Cons y h)
  then show ?case
    using greater_le merge_le_trans by (auto simp: merge_le_def [symmetric])
qed simp

text \<open>The entries of file \<open>i\<close> that have not entered the queue.\<close>

definition file_items :: "SSTableMeta list \<Rightarrow> nat \<Rightarrow> BlockEntry list \<Rightarrow> MergeItem list" where
  "file_items inputs i es = map (\<lambda>e. \<lparr>mi_entry = e, mi_seq = sm_sequence_number (inputs ! i)\<rparr>) es"

definition file_rest :: "SSTableMeta list \<Rightarrow> merge_files \<Rightarrow> nat \<Rightarrow> MergeItem list" where
  "file_rest inputs fd i = file_items inputs i (drop (snd (fd ! i)) (fst (fd ! i)))"

lemma push_next_done:
  "file_rest inputs fd i = [] \<Longrightarrow> push_next inputs fd h i = (fd, h)"
  by (simp add: push_next_def Let_def file_rest_def file_items_def)

lemma push_next_more:
  assumes "file_rest inputs fd i = r # rs" "i < length fd"
  shows "\<exists>fd'. push_next inputs fd h i = (fd', heap_push (r, i) h) \<and> length fd' = length fd
     \<and> file_rest inputs fd' = (file_rest inputs fd)(i := rs)"
proof -
  obtain es n where e: "fd ! i = (es, n)" by force
  have "drop n es \<noteq> []" using assms e by (auto simp: file_rest_def file_items_def)
  then have n: "n < length es" by simp
  then have "drop n es = es ! n # drop (Suc n) es" by (rule Cons_nth_drop_Suc [symmetric])
  then have r: "r = \<lparr>mi_entry = es ! n, mi_seq = sm_sequence_number (inputs ! i)\<rparr>" "rs = file_items inputs i (drop (Suc n) es)"
    using assms(1) e by (auto simp: file_rest_def file_items_def)
  show ?thesis
    using n r assms(2) by (auto simp: push_next_def e file_rest_def fun_eq_iff nth_list_update)
qed

lemma merge_stream_total:
  "\<forall>x \<in> set h. snd x < length fd \<Longrightarrow> \<exists>s. merge_stream inputs fd h = Some s"
proof (induction inputs fd h rule: merge_stream.induct)
  case (2 inputs fd item i h)
  have i: "i < length fd" using 2(2) by simp
  have "\<forall>x \<in> set (snd (push_next inputs fd h i)). snd x < length (fst (push_next inputs fd h i))"
    using 2(2) by (auto simp: push_next_def Let_def)
  from 2(1) [OF i this] i show ?case by auto
qed simp

text \<open>The queue is in order, every file is, and what a file still holds follows its entry in the queue.\<close>

definition merge_inv :: "SSTableMeta list \<Rightarrow> merge_files \<Rightarrow> merge_heap \<Rightarrow> bool" where
  "merge_inv inputs fd h \<longleftrightarrow> sorted_wrt (\<lambda>a b. merge_le (fst a) (fst b)) h \<and> (\<forall>x \<in> set h. snd x < length fd)
     \<and> (\<forall>i < length fd. sorted_wrt merge_le (file_rest inputs fd i))
     \<and> (\<forall>i < length fd. \<forall>r \<in> set (file_rest inputs fd i). \<exists>it. (it, i) \<in> set h \<and> merge_le it r)"

lemma merge_inv_push_next:
  assumes inv: "merge_inv inputs fd ((item, i) # h)"
  shows "merge_inv inputs (fst (push_next inputs fd h i)) (snd (push_next inputs fd h i))"
proof (cases "file_rest inputs fd i")
  case Nil
  with inv show ?thesis
    by (auto simp: merge_inv_def push_next_done) (metis empty_iff empty_set)
next
  case (Cons r rs)
  have i: "i < length fd" using inv by (simp add: merge_inv_def)
  from push_next_more [OF Cons i] obtain fd' where p: "push_next inputs fd h i = (fd', heap_push (r, i) h)" "length fd' = length fd"
    "file_rest inputs fd' = (file_rest inputs fd)(i := rs)" by blast
  have "sorted_wrt merge_le (r # rs)" using inv i Cons by (metis merge_inv_def)
  with inv i p show ?thesis
    by (auto simp: merge_inv_def sorted_heap_push)
qed

definition merge_items :: "SSTableMeta list \<Rightarrow> merge_files \<Rightarrow> merge_heap \<Rightarrow> MergeItem multiset" where
  "merge_items inputs fd h = mset (map fst h) + (\<Sum>i < length fd. mset (file_rest inputs fd i))"

lemma push_next_items:
  assumes "i < length fd"
  shows "merge_items inputs (fst (push_next inputs fd h i)) (snd (push_next inputs fd h i)) = merge_items inputs fd h"
proof (cases "file_rest inputs fd i")
  case Nil
  then show ?thesis by (simp add: push_next_done)
next
  case (Cons r rs)
  then obtain fd' where p: "push_next inputs fd h i = (fd', heap_push (r, i) h)" "length fd' = length fd"
    "file_rest inputs fd' = (file_rest inputs fd)(i := rs)"
    using push_next_more [OF Cons assms] by blast
  have "(\<Sum>j < length fd. mset (file_rest inputs fd j)) = add_mset r (mset rs) + (\<Sum>j \<in> {..<length fd} - {i}. mset (file_rest inputs fd j))"
    using assms Cons by (subst sum.remove [of _ i]) auto
  moreover have "(\<Sum>j < length fd. mset (file_rest inputs fd' j)) = mset rs + (\<Sum>j \<in> {..<length fd} - {i}. mset (file_rest inputs fd j))"
    using assms by (subst sum.remove [of _ i]) (auto simp: p(3))
  ultimately show ?thesis using p by (simp add: merge_items_def)
qed

lemma merge_stream_mset:
  "merge_inv inputs fd h \<Longrightarrow> merge_stream inputs fd h = Some s \<Longrightarrow> mset s = merge_items inputs fd h"
proof (induction inputs fd h arbitrary: s rule: merge_stream.induct)
  case (1 inputs fd)
  then have "\<forall>i < length fd. file_rest inputs fd i = []" by (simp add: merge_inv_def)
  with 1 show ?case by (simp add: merge_items_def)
next
  case (2 inputs fd item i h)
  then have i: "i < length fd" by (simp add: merge_inv_def)
  then obtain s' where s: "merge_stream inputs (fst (push_next inputs fd h i)) (snd (push_next inputs fd h i)) = Some s'" "s = item # s'"
    using 2(3) by auto
  from 2(1) [OF i merge_inv_push_next [OF 2(2)] s(1)] push_next_items [OF i] s(2) show ?case
    by (simp add: merge_items_def)
qed

lemma merge_stream_sorted:
  "merge_inv inputs fd h \<Longrightarrow> merge_stream inputs fd h = Some s \<Longrightarrow> sorted_wrt merge_le s"
proof (induction inputs fd h arbitrary: s rule: merge_stream.induct)
  case (2 inputs fd item i h)
  let ?fd = "fst (push_next inputs fd h i)" and ?h = "snd (push_next inputs fd h i)"
  have i: "i < length fd" using 2(2) by (simp add: merge_inv_def)
  then obtain s' where s: "merge_stream inputs ?fd ?h = Some s'" "s = item # s'"
    using 2(3) by auto
  have "sorted_wrt merge_le s'" using 2(1) [OF i merge_inv_push_next [OF 2(2)] s(1)] .
  moreover have "merge_le item x" if "x \<in> set s'" for x
  proof -
    have "x \<in># mset s" using that s(2) by simp
    then have "x = item \<or> x \<in> fst ` set h \<or> (\<exists>j < length fd. x \<in> set (file_rest inputs fd j))"
      using merge_stream_mset [OF 2(2,3)] by (auto simp: merge_items_def set_mset_sum)
    then show ?thesis
    proof (elim disjE exE conjE)
      fix j assume j: "j < length fd" "x \<in> set (file_rest inputs fd j)"
      then obtain it where "(it, j) \<in> set ((item, i) # h)" "merge_le it x" using 2(2) unfolding merge_inv_def by blast
      moreover have "merge_le item it" using 2(2) calculation(1) by (auto simp: merge_inv_def)
      ultimately show "merge_le item x" using merge_le_trans by blast
    qed (use 2(2) in \<open>auto simp: merge_inv_def\<close>)
  qed
  ultimately show ?case by (simp add: s(2))
qed simp

subsection \<open>Seeding\<close>

text \<open>While the queue is being seeded the files of the remaining indices \<open>ixs\<close> are untouched.\<close>

definition seed_inv :: "SSTableMeta list \<Rightarrow> nat list \<Rightarrow> merge_files \<Rightarrow> merge_heap \<Rightarrow> bool" where
  "seed_inv inputs ixs fd h \<longleftrightarrow> sorted_wrt (\<lambda>a b. merge_le (fst a) (fst b)) h \<and> (\<forall>x \<in> set h. snd x < length fd)
     \<and> (\<forall>i < length fd. sorted_wrt merge_le (file_rest inputs fd i))
     \<and> (\<forall>i < length fd. i \<notin> set ixs \<longrightarrow> (\<forall>r \<in> set (file_rest inputs fd i). \<exists>it. (it, i) \<in> set h \<and> merge_le it r))
     \<and> distinct ixs \<and> (\<forall>i \<in> set ixs. i < length fd \<and> snd (fd ! i) = 0)"

lemma seed_heap_Cons:
  "snd (fd ! i) = 0 \<Longrightarrow> seed_heap inputs (i # ixs) fd h
    = seed_heap inputs ixs (fst (push_next inputs fd h i)) (snd (push_next inputs fd h i))"
  by (simp add: push_next_def Let_def)

lemma seed_inv_push_next:
  assumes inv: "seed_inv inputs (i # ixs) fd h"
  shows "seed_inv inputs ixs (fst (push_next inputs fd h i)) (snd (push_next inputs fd h i))"
proof (cases "file_rest inputs fd i")
  case Nil
  with inv show ?thesis by (auto simp: seed_inv_def push_next_done)
next
  case (Cons r rs)
  have i: "i < length fd" using inv by (simp add: seed_inv_def)
  from push_next_more [OF Cons i] obtain fd' where p: "push_next inputs fd h i = (fd', heap_push (r, i) h)" "length fd' = length fd"
    "file_rest inputs fd' = (file_rest inputs fd)(i := rs)" by blast
  have "sorted_wrt merge_le (r # rs)" using inv i Cons by (metis seed_inv_def)
  moreover have "\<forall>j \<in> set ixs. snd (fd' ! j) = 0"
    using inv p(1) by (auto simp: seed_inv_def push_next_def Let_def nth_list_update split: if_splits)
  ultimately show ?thesis
    using inv i p by (auto simp: seed_inv_def sorted_heap_push)
qed

lemma seed_heap_ok:
  assumes "seed_inv inputs ixs fd h" "seed_heap inputs ixs fd h = (fd', h')"
  shows "merge_inv inputs fd' h' \<and> merge_items inputs fd' h' = merge_items inputs fd h"
  using assms
proof (induction ixs arbitrary: fd h)
  case Nil
  then show ?case by (simp add: seed_inv_def merge_inv_def)
next
  case (Cons i ixs)
  have i: "i < length fd" "snd (fd ! i) = 0" using Cons.prems(1) by (simp_all add: seed_inv_def)
  from Cons.IH [OF seed_inv_push_next [OF Cons.prems(1)]] Cons.prems(2) push_next_items [OF i(1), of inputs h]
  show ?case by (simp only: seed_heap_Cons [OF i(2)])
qed

text \<open>All entries of all files with the sequence numbers of their files.\<close>

definition input_items :: "SSTableMeta list \<Rightarrow> BlockEntry list list \<Rightarrow> MergeItem multiset" where
  "input_items inputs datas = (\<Sum>i < length datas. mset (file_items inputs i (datas ! i)))"

lemma sorted_file_items:
  "sorted_wrt (<) (map be_key es) \<Longrightarrow> sorted_wrt merge_le (file_items inputs i es)"
  by (induction es) (auto simp: file_items_def merge_le_iff)

lemma merge_stream_ok:
  assumes sorted: "\<forall>es \<in> set datas. sorted_wrt (<) (map be_key es)"
    and seed: "seed_heap inputs [0 ..< length datas] (map (\<lambda>es. (es, 0)) datas) [] = (fd, h)"
  shows "\<exists>s. merge_stream inputs fd h = Some s \<and> sorted_wrt merge_le s \<and> mset s = input_items inputs datas
     \<and> (\<forall>x \<in> set h. snd x < length fd)"
proof -
  let ?fd = "map (\<lambda>es. (es, 0)) datas"
  have rest: "file_rest inputs ?fd i = file_items inputs i (datas ! i)" if "i < length datas" for i
    using that by (simp add: file_rest_def)
  have "seed_inv inputs [0 ..< length datas] ?fd []"
    using sorted by (auto simp: seed_inv_def rest sorted_file_items)
  from seed_heap_ok [OF this seed] have inv: "merge_inv inputs fd h" "merge_items inputs fd h = input_items inputs datas"
    by (simp_all add: merge_items_def input_items_def rest)
  then obtain s where "merge_stream inputs fd h = Some s"
    using merge_stream_total [of h fd inputs] by (auto simp: merge_inv_def)
  with merge_stream_sorted [OF inv(1)] merge_stream_mset [OF inv(1)] inv show ?thesis
    by (auto simp: merge_inv_def)
qed

subsection \<open>Removing duplicates\<close>

text \<open>What the drain loop emits for a sequence of entries, after having emitted \<open>last_key\<close>.\<close>

fun dedup :: "bool \<Rightarrow> key \<Rightarrow> MergeItem list \<Rightarrow> BlockEntry list" where
  "dedup bottom last_key [] = []"
| "dedup bottom last_key (it # its) =
     (if mi_key it = last_key then dedup bottom last_key its
      else if be_tombstone (mi_entry it) \<and> bottom then dedup bottom (mi_key it) its
      else mi_entry it # dedup bottom (mi_key it) its)"

lemma dedup_subset: "set (dedup bottom l s) \<subseteq> mi_entry ` set s"
proof (induction s arbitrary: l)
  case (Cons it s)
  from Cons [of l] Cons [of "mi_key it"] show ?case by auto
qed simp

lemma dedup_keys_above:
  "sorted_wrt merge_le s \<Longrightarrow> \<forall>it \<in> set s. l \<le> mi_key it \<Longrightarrow> e \<in> set (dedup bottom l s) \<Longrightarrow> l < be_key e"
proof (induction s arbitrary: l)
  case (Cons it s)
  have le: "\<forall>x \<in> set s. mi_key it \<le> mi_key x" using Cons.prems(1) by (auto simp: merge_le_iff)
  show ?case
  proof (cases "mi_key it = l")
    case True
    with Cons show ?thesis by simp
  next
    case False
    with Cons.prems(2) have "l < mi_key it" by (simp add: order.strict_iff_order)
    with Cons.IH [OF _ le] Cons.prems False show ?thesis by (auto split: if_splits intro: less_trans)
  qed
qed simp

lemma dedup_sorted:
  "sorted_wrt merge_le s \<Longrightarrow> sorted_wrt (<) (map be_key (dedup bottom l s))"
proof (induction s arbitrary: l)
  case (Cons it s)
  have "\<forall>x \<in> set s. mi_key it \<le> mi_key x" using Cons.prems by (auto simp: merge_le_iff)
  with Cons dedup_keys_above [of s "mi_key it" _ bottom] show ?case by auto
qed simp

lemma dedup_find:
  "sorted_wrt merge_le s \<Longrightarrow> \<forall>it \<in> set s. l \<le> mi_key it \<Longrightarrow> k \<noteq> l \<Longrightarrow>
   List.find (\<lambda>e. be_key e = k) (dedup bottom l s) =
     (case List.find (\<lambda>it. mi_key it = k) s of None \<Rightarrow> None
      | Some it \<Rightarrow> if be_tombstone (mi_entry it) \<and> bottom then None else Some (mi_entry it))"
proof (induction s arbitrary: l)
  case (Cons it s)
  have le: "\<forall>x \<in> set s. mi_key it \<le> mi_key x" using Cons.prems(1) by (auto simp: merge_le_iff)
  show ?case
  proof (cases "k = mi_key it")
    case True
    have "List.find (\<lambda>e. be_key e = k) (dedup bottom k s) = None"
      using dedup_keys_above [OF _ le, of _ bottom] Cons.prems(1) True by (auto simp: find_None_iff) (metis less_irrefl)
    with True Cons.prems show ?thesis by auto
  next
    case False
    with Cons.IH [of l] Cons.IH [of "mi_key it"] Cons.prems le show ?thesis by auto
  qed
qed simp

subsection \<open>The reference: the newest version of a key\<close>

fun newest :: "key \<Rightarrow> (u64 \<times> BlockEntry list) list \<Rightarrow> (u64 \<times> BlockEntry) option" where
  "newest k [] = None"
| "newest k ((seq, es) # files) =
     (case (List.find (\<lambda>e. be_key e = k) es, newest k files) of
        (None, r) \<Rightarrow> r
      | (Some e, None) \<Rightarrow> Some (seq, e)
      | (Some e, Some (seq', e')) \<Rightarrow> if seq' > seq then Some (seq', e') else Some (seq, e))"

lemma newest_None: "newest k files = None \<longleftrightarrow> (\<forall>(seq, es) \<in> set files. \<forall>e \<in> set es. be_key e \<noteq> k)"
proof (induction k files rule: newest.induct)
  case (2 k seq es files)
  show ?case
  proof (cases "List.find (\<lambda>e. be_key e = k) es")
    case None
    then have "\<forall>e \<in> set es. be_key e \<noteq> k" by (auto simp: find_None_iff)
    with None 2 show ?thesis by simp
  next
    case (Some e)
    then have "e \<in> set es" "be_key e = k" by (auto simp: find_Some_iff)
    with Some show ?thesis by (auto split: option.splits)
  qed
qed simp

lemma newest_Some:
  "newest k files = Some (seq, e) \<Longrightarrow> be_key e = k \<and> (\<exists>es. (seq, es) \<in> set files \<and> e \<in> set es)
     \<and> (\<forall>(seq', es') \<in> set files. (\<exists>e' \<in> set es'. be_key e' = k) \<longrightarrow> seq' \<le> seq)"
proof (induction k files arbitrary: seq e rule: newest.induct)
  case (2 k q es files)
  show ?case
  proof (cases "List.find (\<lambda>e. be_key e = k) es")
    case None
    with 2 show ?thesis by (auto simp: find_None_iff)
  next
    case (Some e1)
    then have e1: "e1 \<in> set es" "be_key e1 = k" by (auto simp: find_Some_iff)
    show ?thesis
    proof (cases "newest k files")
      case None
      with 2 Some e1 show ?thesis by (fastforce simp: newest_None)
    next
      case (Some p)
      then obtain q2 e2 where p: "newest k files = Some (q2, e2)" by (cases p) auto
      have ih: "be_key e2 = k" "\<exists>es. (q2, es) \<in> set files \<and> e2 \<in> set es"
        "\<forall>(seq', es') \<in> set files. (\<exists>e' \<in> set es'. be_key e' = k) \<longrightarrow> seq' \<le> q2"
        using "2.IH" [OF p] by auto
      show ?thesis
      proof (cases "q2 > q")
        case True
        with 2(2) p \<open>List.find _ es = Some e1\<close> have "seq = q2" "e = e2" by auto
        with ih True show ?thesis by auto
      next
        case False
        with 2(2) p \<open>List.find _ es = Some e1\<close> have "seq = q" "e = e1" by auto
        with ih False e1 show ?thesis by (auto intro: order_trans)
      qed
    qed
  qed
qed simp

lemma input_items_member:
  assumes "length inputs = length datas"
  shows "it \<in># input_items inputs datas
    \<longleftrightarrow> (\<exists>es. (mi_seq it, es) \<in> set (zip (map sm_sequence_number inputs) datas) \<and> mi_entry it \<in> set es)"
proof
  assume "it \<in># input_items inputs datas"
  then obtain i where i: "i < length datas" "it \<in> set (file_items inputs i (datas ! i))"
    by (auto simp: input_items_def set_mset_sum)
  then have "(mi_seq it, datas ! i) \<in> set (zip (map sm_sequence_number inputs) datas)" "mi_entry it \<in> set (datas ! i)"
    using assms by (auto simp: file_items_def set_zip intro: exI [of _ i])
  then show "\<exists>es. (mi_seq it, es) \<in> set (zip (map sm_sequence_number inputs) datas) \<and> mi_entry it \<in> set es" by blast
next
  assume "\<exists>es. (mi_seq it, es) \<in> set (zip (map sm_sequence_number inputs) datas) \<and> mi_entry it \<in> set es"
  then obtain i where i: "i < length datas" "mi_seq it = sm_sequence_number (inputs ! i)" "mi_entry it \<in> set (datas ! i)"
    using assms by (auto simp: in_set_zip)
  then have "it \<in> set (file_items inputs i (datas ! i))"
    by (cases it) (auto simp: file_items_def image_iff)
  with i(1) show "it \<in># input_items inputs datas" by (auto simp: input_items_def set_mset_sum)
qed

text \<open>The first entry of a key in merge order is the newest one.\<close>

lemma stream_find_newest:
  assumes len: "length inputs = length datas" and d: "distinct (map sm_sequence_number inputs)"
    and datas: "\<forall>es \<in> set datas. sorted_wrt (<) (map be_key es)"
    and s: "sorted_wrt merge_le s" "mset s = input_items inputs datas"
  shows "map_option (\<lambda>it. (mi_seq it, mi_entry it)) (List.find (\<lambda>it. mi_key it = k) s)
    = newest k (zip (map sm_sequence_number inputs) datas)"
proof -
  let ?files = "zip (map sm_sequence_number inputs) datas"
  have mem: "it \<in> set s \<longleftrightarrow> (\<exists>es. (mi_seq it, es) \<in> set ?files \<and> mi_entry it \<in> set es)" for it
    using input_items_member [OF len, of it] s(2) by (metis set_mset_mset)
  show ?thesis
  proof (cases "List.find (\<lambda>it. mi_key it = k) s")
    case None
    have "\<forall>(seq, es) \<in> set ?files. \<forall>e \<in> set es. be_key e \<noteq> k"
    proof clarify
      fix seq es e assume "(seq, es) \<in> set ?files" "e \<in> set es" "k = be_key e"
      with mem [of "\<lparr>mi_entry = e, mi_seq = seq\<rparr>"] have "\<lparr>mi_entry = e, mi_seq = seq\<rparr> \<in> set s" by auto
      with None \<open>k = be_key e\<close> show False by (auto simp: find_None_iff)
    qed
    with None show ?thesis by (simp add: newest_None [symmetric])
  next
    case (Some it)
    then obtain i where i: "i < length s" "s ! i = it" "mi_key it = k" "\<forall>j < i. mi_key (s ! j) \<noteq> k"
      by (auto simp: find_Some_iff)
    then obtain es where es: "(mi_seq it, es) \<in> set ?files" "mi_entry it \<in> set es" using mem nth_mem by blast
    have max: "mi_seq x \<le> mi_seq it" if x: "x \<in> set s" "mi_key x = k" for x
    proof -
      obtain j where j: "j < length s" "s ! j = x" using x by (auto simp: in_set_conv_nth)
      then consider "j = i" | "i < j" using i(4) x(2) by (metis linorder_neqE_nat)
      then show ?thesis
        using sorted_wrt_nth_less [OF s(1), of i j] i j x(2) by cases (auto simp: merge_le_iff)
    qed
    have "newest k ?files \<noteq> None" using es i(3) by (auto simp: newest_None)
    then obtain q e where n: "newest k ?files = Some (q, e)" by auto
    note ns = newest_Some [OF n]
    then obtain es' where es': "(q, es') \<in> set ?files" "e \<in> set es'" by blast
    have "mi_seq it \<le> q" using ns es i(3) by blast
    moreover have "\<lparr>mi_entry = e, mi_seq = q\<rparr> \<in> set s" using mem es' by auto
    then have "q \<le> mi_seq it" using max [of "\<lparr>mi_entry = e, mi_seq = q\<rparr>"] ns by auto
    ultimately have q: "q = mi_seq it" by simp
    have "distinct (map fst ?files)" using d len by simp
    with es' es q have "es' = es" by (metis eq_key_imp_eq_value)
    moreover have "es \<in> set datas" using es(1) by (rule set_zip_rightD)
    then have "inj_on be_key (set es)" using datas strict_sorted_iff distinct_map by blast
    moreover have "be_key e = mi_key it" using ns i(3) by simp
    ultimately have "e = mi_entry it" using es'(2) es(2) inj_onD [of be_key "set es" e "mi_entry it"] by blast
    with Some n q show ?thesis by simp
  qed
qed

text \<open>The merge, in one statement: the emitted entries are sorted, and a lookup in them finds the newest
  version of the key. A key that is empty is never found, because the loop starts as if it had already
  emitted it.\<close>

lemma dedup_merge_lookup:
  assumes "length inputs = length datas" "distinct (map sm_sequence_number inputs)"
    "\<forall>es \<in> set datas. sorted_wrt (<) (map be_key es)"
    "sorted_wrt merge_le s" "mset s = input_items inputs datas"
  shows "sorted_wrt (<) (map be_key (dedup bottom '''' s))"
    and "List.find (\<lambda>e. be_key e = k) (dedup bottom '''' s)
      = (if k = '''' then None else
         case newest k (zip (map sm_sequence_number inputs) datas) of None \<Rightarrow> None
         | Some (_, e) \<Rightarrow> if be_tombstone e \<and> bottom then None else Some e)"
proof -
  show "sorted_wrt (<) (map be_key (dedup bottom '''' s))" by (rule dedup_sorted [OF assms(4)])
  have ge: "\<forall>it \<in> set s. '''' \<le> mi_key it" by simp
  have "List.find (\<lambda>e. be_key e = '''') (dedup bottom '''' s) = None"
    using dedup_keys_above [OF assms(4) ge] by (auto simp: find_None_iff) (metis less_irrefl)
  with dedup_find [OF assms(4) ge, of k bottom] stream_find_newest [OF assms, of k, symmetric]
  show "List.find (\<lambda>e. be_key e = k) (dedup bottom '''' s)
      = (if k = '''' then None else
         case newest k (zip (map sm_sequence_number inputs) datas) of None \<Rightarrow> None
         | Some (_, e) \<Rightarrow> if be_tombstone e \<and> bottom then None else Some e)"
    by (auto split: option.splits)
qed

end
