(* ===== verification/Compaction_Manager.thy ===== *)
theory Compaction_Manager
  imports N_Way_Merge SSTable_Reader Decimal
begin

text \<open>
  \<^verbatim>\<open>src/storage/compaction/compaction_manager.{h,cpp}\<close>: the catalogue of table files, the choice
  of a level and of the files to compact, the merge of those files into new ones, and the exchange of
  the old for the new in the catalogue. The mutexes make every catalogue operation one step; the merge
  runs under its own lock. \<^verbatim>\<open>std::sort\<close> is an argument, as it does not fix the order of equivalent
  elements. The duration in the statistics is left out. Each output goes through a skip list, whose
  generator has a fixed seed: its numbers are the argument \<open>mt\<close>.
\<close>

type_synonym sorter = "(SSTableMeta \<Rightarrow> SSTableMeta \<Rightarrow> bool) \<Rightarrow> SSTableMeta list \<Rightarrow> SSTableMeta list"

record CompactionStats =
  cs_source_level :: int
  cs_target_level :: int
  cs_files_read :: nat
  cs_files_written :: nat
  cs_bytes_read :: u64
  cs_bytes_written :: u64
  cs_keys_merged :: u64
  cs_tombstones_dropped :: u64
  cs_duplicate_keys_dropped :: u64

definition CompactionStats_new :: CompactionStats where
  "CompactionStats_new = \<lparr>cs_source_level = 0, cs_target_level = 0, cs_files_read = 0, cs_files_written = 0,
     cs_bytes_read = 0, cs_bytes_written = 0, cs_keys_merged = 0, cs_tombstones_dropped = 0,
     cs_duplicate_keys_dropped = 0\<rparr>"

record CompactionManager =
  cm_data_dir :: string
  cm_max_level :: int
  cm_files :: "SSTableMeta list"
  cm_next_file_number :: u64

definition CompactionManager_new :: "string \<Rightarrow> int \<Rightarrow> CompactionManager" where
  "CompactionManager_new data_dir max_level =
     \<lparr>cm_data_dir = data_dir, cm_max_level = max_level, cm_files = [], cm_next_file_number = 1\<rparr>"

subsection \<open>The catalogue\<close>

definition AddFile :: "CompactionManager \<Rightarrow> SSTableMeta \<Rightarrow> CompactionManager \<times> Status" where
  "AddFile cm meta =
     (if sm_level meta < 0 \<or> sm_level meta \<ge> cm_max_level cm
      then (cm, mk_Status kInvalidArgument (''Invalid level: '' @ to_string_int (sm_level meta)))
      else (cm\<lparr>cm_files := cm_files cm @ [meta]\<rparr>, Status_Ok))"

definition RemoveFile :: "CompactionManager \<Rightarrow> path \<Rightarrow> CompactionManager" where
  "RemoveFile cm filepath = cm\<lparr>cm_files := filter (\<lambda>f. sm_filepath f \<noteq> filepath) (cm_files cm)\<rparr>"

definition GetFilesAtLevel :: "sorter \<Rightarrow> CompactionManager \<Rightarrow> int \<Rightarrow> SSTableMeta list" where
  "GetFilesAtLevel srt cm level =
     srt (\<lambda>a b. sm_smallest_key a < sm_smallest_key b) (filter (\<lambda>f. sm_level f = level) (cm_files cm))"

definition TotalBytesAtLevel :: "CompactionManager \<Rightarrow> int \<Rightarrow> u64" where
  "TotalBytesAtLevel cm level =
     foldl (\<lambda>total f. if sm_level f = level then total + sm_file_size_bytes f else total) 0 (cm_files cm)"

definition Level0FileCount :: "CompactionManager \<Rightarrow> nat" where
  "Level0FileCount cm = length (filter (\<lambda>f. sm_level f = 0) (cm_files cm))"

definition AllFiles :: "CompactionManager \<Rightarrow> SSTableMeta list" where
  "AllFiles cm = cm_files cm"

definition PickCompactionLevel :: "CompactionManager \<Rightarrow> int" where
  "PickCompactionLevel cm =
     (if length (filter (\<lambda>f. sm_level f = 0) (cm_files cm)) \<ge> kLevel0CompactionTrigger then 0
      else case List.find (\<lambda>level. TotalBytesAtLevel cm level > MaxBytesForLevel level) [1 .. cm_max_level cm - 2] of
             Some level \<Rightarrow> level
           | None \<Rightarrow> - 1)"

definition NeedsCompaction :: "CompactionManager \<Rightarrow> bool" where
  "NeedsCompaction cm \<longleftrightarrow> PickCompactionLevel cm \<noteq> - 1"

definition SelectCompactionFiles ::
  "sorter \<Rightarrow> CompactionManager \<Rightarrow> int \<Rightarrow> SSTableMeta list \<times> SSTableMeta list" where
  "SelectCompactionFiles srt cm source_level =
     (let source_files = GetFilesAtLevel srt cm source_level in
      if source_files = [] then ([], [])
      else let inputs = (if source_level = 0 then source_files else [hd source_files]);
               range_lo = foldl (\<lambda>lo f. if sm_smallest_key f < lo then sm_smallest_key f else lo)
                            (sm_smallest_key (hd inputs)) inputs;
               range_hi = foldl (\<lambda>hi f. if sm_largest_key f > hi then sm_largest_key f else hi)
                            (sm_largest_key (hd inputs)) inputs;
               target_files = GetFilesAtLevel srt cm (source_level + 1)
           in (inputs, filter (\<lambda>f. OverlapsWith f range_lo range_hi) target_files))"

text \<open>The counter is atomic and wraps.\<close>

definition GenerateOutputPath :: "CompactionManager \<Rightarrow> int \<Rightarrow> CompactionManager \<times> path" where
  "GenerateOutputPath cm level =
     (cm\<lparr>cm_next_file_number := cm_next_file_number cm + 1\<rparr>,
      cm_data_dir cm @ ''/level'' @ to_string_int level @ ''_''
        @ pad_left 8 (CHR ''0'') (to_string_u64 (cm_next_file_number cm)) @ ''.sst'')"

subsection \<open>Merging files\<close>

definition put_block_entry :: "(nat \<Rightarrow> u32) \<Rightarrow> SkipList \<Rightarrow> BlockEntry \<Rightarrow> SkipList option" where
  "put_block_entry mt sl e =
     (if be_tombstone e then SkipList_Delete mt sl (be_key e) else SkipList_Put mt sl (be_key e) (be_value e))"

definition WriteVectorToSSTable ::
  "io \<Rightarrow> (nat \<Rightarrow> u32) \<Rightarrow> fs \<Rightarrow> path \<Rightarrow> BlockEntry list \<Rightarrow> (fs \<times> Status) option" where
  "WriteVectorToSSTable io mt fs p entries =
     (if entries = [] then Some (fs, mk_Status kInvalidArgument ''Cannot write empty SSTable'')
      else do { sl \<leftarrow> run_ops (put_block_entry mt) SkipList_new entries;
                iter \<leftarrow> SkipList_Begin sl;
                SSTableWriter_Write io fs p (sl_heap sl) iter })"

text \<open>Reading the inputs: the entries of every file, and the statistics. The first file that cannot be
  opened or read ends the merge.\<close>

fun read_inputs :: "io \<Rightarrow> fs \<Rightarrow> SSTableMeta list \<Rightarrow> CompactionStats \<Rightarrow> (BlockEntry list list \<times> CompactionStats) ErrorOr option" where
  "read_inputs io fs [] stats = Some (Value ([], stats))"
| "read_inputs io fs (meta # inputs) stats =
     do { reader_or \<leftarrow> SSTableReader_Open io fs (sm_filepath meta);
          case reader_or of
            Error st \<Rightarrow> Some (Error st)
          | Value reader \<Rightarrow>
              do { all_or \<leftarrow> SSTableReader_ReadAll io fs reader;
                   case all_or of
                     Error st \<Rightarrow> Some (Error st)
                   | Value all \<Rightarrow>
                       do { rest \<leftarrow> read_inputs io fs inputs
                              (stats\<lparr>cs_keys_merged := cs_keys_merged stats + to_u64 (length all),
                                     cs_bytes_read := cs_bytes_read stats + sm_file_size_bytes meta\<rparr>);
                            Some (assign_or_return rest (\<lambda>(datas, stats). Value (all # datas, stats))) } } }"

text \<open>What the merge loop writes to.\<close>

record merge_out =
  mo_fs :: fs
  mo_cm :: CompactionManager
  mo_stats :: CompactionStats
  mo_metas :: "SSTableMeta list"
  mo_entries :: "BlockEntry list"
  mo_last_key :: key
  mo_estimate :: u64
  mo_path :: path

definition flush_output :: "io \<Rightarrow> (nat \<Rightarrow> u32) \<Rightarrow> int \<Rightarrow> merge_out \<Rightarrow> (merge_out \<times> Status) option" where
  "flush_output io mt target_level out =
     (if mo_entries out = [] then Some (out, Status_Ok)
      else do {
        (fs, ws) \<leftarrow> WriteVectorToSSTable io mt (mo_fs out) (mo_path out) (mo_entries out);
        let out = out\<lparr>mo_fs := fs\<rparr>;
        if \<not> Status_IsOk ws then Some (out, ws)
        else let out_meta = \<lparr>sm_filepath = mo_path out, sm_level = target_level,
                   sm_smallest_key = be_key (hd (mo_entries out)), sm_largest_key = be_key (last (mo_entries out)),
                   sm_file_size_bytes = (case fs (mo_path out) of Some bs \<Rightarrow> to_u64 (length bs) | None \<Rightarrow> mo_estimate out),
                   sm_sequence_number = cm_next_file_number (mo_cm out)\<rparr>;
                 stats = mo_stats out;
                 (cm, p) = GenerateOutputPath (mo_cm out) target_level
             in Some (out\<lparr>mo_metas := mo_metas out @ [out_meta],
                   mo_stats := stats\<lparr>cs_files_written := cs_files_written stats + 1,
                                     cs_bytes_written := cs_bytes_written stats + sm_file_size_bytes out_meta\<rparr>,
                   mo_entries := [], mo_estimate := 0, mo_cm := cm, mo_path := p\<rparr>, Status_Ok) })"

definition kOutputSplitBytes :: u64 where "kOutputSplitBytes = 64 * 1024 * 1024"

text \<open>One entry taken from the queue.\<close>

definition emit_item :: "io \<Rightarrow> (nat \<Rightarrow> u32) \<Rightarrow> bool \<Rightarrow> int \<Rightarrow> merge_out \<Rightarrow> MergeItem \<Rightarrow> (merge_out \<times> Status) option" where
  "emit_item io mt is_bottom_level target_level out item =
     (let stats = mo_stats out in
      if mi_key item = mo_last_key out
      then Some (out\<lparr>mo_stats := stats\<lparr>cs_duplicate_keys_dropped := cs_duplicate_keys_dropped stats + 1\<rparr>\<rparr>, Status_Ok)
      else let out = out\<lparr>mo_last_key := mi_key item\<rparr> in
        if be_tombstone (mi_entry item) \<and> is_bottom_level
        then Some (out\<lparr>mo_stats := stats\<lparr>cs_tombstones_dropped := cs_tombstones_dropped stats + 1\<rparr>\<rparr>, Status_Ok)
        else let out = out\<lparr>mo_estimate := mo_estimate out
                     + to_u64 (4 + length (mi_key item) + 4 + length (be_value (mi_entry item)) + 1),
                   mo_entries := mo_entries out @ [mi_entry item]\<rparr> in
          if mo_estimate out \<ge> kOutputSplitBytes then flush_output io mt target_level out
          else Some (out, Status_Ok))"

text \<open>The loop over the queue; \<^const>\<open>None\<close> is an index out of range.\<close>

function drain_heap :: "io \<Rightarrow> (nat \<Rightarrow> u32) \<Rightarrow> SSTableMeta list \<Rightarrow> bool \<Rightarrow> int \<Rightarrow> merge_files \<Rightarrow> merge_heap
    \<Rightarrow> merge_out \<Rightarrow> (merge_out \<times> Status) option" where
  "drain_heap io mt inputs is_bottom_level target_level file_data [] out = Some (out, Status_Ok)"
| "drain_heap io mt inputs is_bottom_level target_level file_data ((item, file_idx) # heap) out =
     (if file_idx < length file_data then
        (case push_next inputs file_data heap file_idx of (file_data', heap') \<Rightarrow>
           do { (out, s) \<leftarrow> emit_item io mt is_bottom_level target_level out item;
                if \<not> Status_IsOk s then Some (out, s)
                else drain_heap io mt inputs is_bottom_level target_level file_data' heap' out })
      else None)"
  by pat_completeness auto
termination
proof (relation "measure (\<lambda>(_, _, _, _, _, file_data, heap, _). merge_left file_data heap)", goal_cases)
  case (2 io mt inputs b t fd item i heap out fd' heap' x)
  from 2(2) have "push_next inputs fd heap i = (fd', heap')" by simp
  with 2(1) merge_left_push_next [of i fd inputs heap] show ?case by simp
qed simp

definition MergeFiles :: "io \<Rightarrow> (nat \<Rightarrow> u32) \<Rightarrow> fs \<Rightarrow> CompactionManager \<Rightarrow> SSTableMeta list \<Rightarrow> int \<Rightarrow> CompactionStats
    \<Rightarrow> (fs \<times> CompactionManager \<times> (SSTableMeta list \<times> CompactionStats) ErrorOr) option" where
  "MergeFiles io mt fs cm inputs target_level stats =
     do { read \<leftarrow> read_inputs io fs inputs stats;
          case read of
            Error st \<Rightarrow> Some (fs, cm, Error st)
          | Value (datas, stats) \<Rightarrow>
              let (file_data, heap) = seed_heap inputs [0 ..< length datas] (map (\<lambda>es. (es, 0)) datas) [];
                  is_bottom_level = (target_level = cm_max_level cm - 1);
                  (cm, p) = GenerateOutputPath cm target_level;
                  out = \<lparr>mo_fs = fs, mo_cm = cm, mo_stats = stats, mo_metas = [], mo_entries = [],
                         mo_last_key = '''', mo_estimate = 0, mo_path = p\<rparr>
              in do { (out, s) \<leftarrow> drain_heap io mt inputs is_bottom_level target_level file_data heap out;
                      if \<not> Status_IsOk s then Some (mo_fs out, mo_cm out, Error s)
                      else do { (out, s) \<leftarrow> flush_output io mt target_level out;
                                if \<not> Status_IsOk s then Some (mo_fs out, mo_cm out, Error s)
                                else Some (mo_fs out, mo_cm out, Value (mo_metas out, mo_stats out)) } } }"

subsection \<open>A compaction\<close>

definition assign_sequences :: "SSTableMeta list \<Rightarrow> SSTableMeta list \<Rightarrow> SSTableMeta list" where
  "assign_sequences source_files target_files =
     (let total_inputs = length source_files + length target_files in
      map (\<lambda>i. (source_files ! i)\<lparr>sm_sequence_number := to_u64 (total_inputs - i)\<rparr>) [0 ..< length source_files]
      @ map (\<lambda>i. (target_files ! i)\<lparr>sm_sequence_number := to_u64 i\<rparr>) [0 ..< length target_files])"

fun add_files :: "CompactionManager \<Rightarrow> SSTableMeta list \<Rightarrow> CompactionManager \<times> Status" where
  "add_files cm [] = (cm, Status_Ok)"
| "add_files cm (meta # metas) =
     (case AddFile cm meta of (cm, s) \<Rightarrow> if \<not> Status_IsOk s then (cm, s) else add_files cm metas)"

fun remove_inputs :: "fs \<Rightarrow> CompactionManager \<Rightarrow> SSTableMeta list \<Rightarrow> fs \<times> CompactionManager" where
  "remove_inputs fs cm [] = (fs, cm)"
| "remove_inputs fs cm (old_file # olds) =
     remove_inputs (fs(sm_filepath old_file := None)) (RemoveFile cm (sm_filepath old_file)) olds"

definition RunCompaction :: "sorter \<Rightarrow> io \<Rightarrow> (nat \<Rightarrow> u32) \<Rightarrow> fs \<Rightarrow> CompactionManager
    \<Rightarrow> (fs \<times> CompactionManager \<times> CompactionStats ErrorOr) option" where
  "RunCompaction srt io mt fs cm =
     (let source_level = PickCompactionLevel cm in
      if source_level = - 1 then Some (fs, cm, Error (mk_Status kNotFound ''No compaction needed''))
      else let stats = CompactionStats_new\<lparr>cs_source_level := source_level, cs_target_level := source_level + 1\<rparr>;
               (source_files, target_files) = SelectCompactionFiles srt cm source_level in
        if source_files = []
        then Some (fs, cm, Error (mk_Status kNotFound ''No source files selected for compaction''))
        else let all_inputs = assign_sequences source_files target_files;
                 stats = stats\<lparr>cs_files_read := length all_inputs\<rparr>
          in do { (fs, cm, r) \<leftarrow> MergeFiles io mt fs cm all_inputs (source_level + 1) stats;
                  case r of
                    Error st \<Rightarrow> Some (fs, cm, Error st)
                  | Value (new_files, stats) \<Rightarrow>
                      (case add_files cm new_files of (cm, s) \<Rightarrow>
                         if \<not> Status_IsOk s then Some (fs, cm, Error s)
                         else case remove_inputs fs cm all_inputs of (fs, cm) \<Rightarrow> Some (fs, cm, Value stats)) })"

subsection \<open>The loop consumes the merge stream\<close>

fun emit_all :: "io \<Rightarrow> (nat \<Rightarrow> u32) \<Rightarrow> bool \<Rightarrow> int \<Rightarrow> merge_out \<Rightarrow> MergeItem list \<Rightarrow> (merge_out \<times> Status) option" where
  "emit_all io mt bottom target out [] = Some (out, Status_Ok)"
| "emit_all io mt bottom target out (item # items) =
     do { (out, s) \<leftarrow> emit_item io mt bottom target out item;
          if \<not> Status_IsOk s then Some (out, s) else emit_all io mt bottom target out items }"

lemma drain_heap_stream:
  "merge_stream inputs fd h = Some s \<Longrightarrow> drain_heap io mt inputs bottom target fd h out = emit_all io mt bottom target out s"
proof (induction inputs fd h arbitrary: s out rule: merge_stream.induct)
  case (2 inputs fd item i h)
  then have i: "i < length fd" by (simp split: if_splits)
  obtain fd' h' where p: "push_next inputs fd h i = (fd', h')" by force
  with 2(2) i obtain s' where s: "merge_stream inputs fd' h' = Some s'" "s = item # s'" by auto
  from 2(1) [OF i] p s have ih: "drain_heap io mt inputs bottom target fd' h' out = emit_all io mt bottom target out s'" for out
    by simp
  show ?case by (simp add: i p s(2) ih cong: if_cong)
qed simp

subsection \<open>Writing one output file\<close>

definition entry_table_op :: "BlockEntry \<Rightarrow> table_op" where
  "entry_table_op e = (if be_tombstone e then Delete_op (be_key e) else Put_op (be_key e) (be_value e))"

lemma run_ops_map: "run_ops (\<lambda>t x. upd t (g x)) t xs = run_ops upd t (map g xs)"
  by (induction xs arbitrary: t) simp_all

lemma put_block_entry_apply: "put_block_entry mt = (\<lambda>sl e. SkipList_apply mt sl (entry_table_op e))"
  by (simp add: put_block_entry_def entry_table_op_def fun_eq_iff)

lemma fold_ordered_put_sorted:
  "sorted_wrt (<) (map fst acc @ map kf xs) \<Longrightarrow>
   fold (\<lambda>x. ordered_put (kf x) (vf x)) xs acc = acc @ map (\<lambda>x. (kf x, vf x)) xs"
proof (induction xs arbitrary: acc)
  case (Cons x xs)
  have "\<forall>e \<in> set acc. fst e < kf x" using Cons.prems by (auto simp: sorted_wrt_append)
  then have "ordered_put (kf x) (vf x) acc = acc @ [(kf x, vf x)]"
    by (auto simp: ordered_put_def filter_id_conv filter_empty_conv)
  with Cons show ?case by simp
qed simp

lemma op_key_entry_table_op: "op_key (entry_table_op e) = be_key e"
  by (simp add: entry_table_op_def)

lemma block_entry_of_table_op:
  "(be_tombstone e \<longrightarrow> be_value e = []) \<Longrightarrow> block_entry_of (op_key (entry_table_op e), op_value (entry_table_op e)) = e"
  by (simp add: entry_table_op_def block_entry_of_def)

lemma WriteVectorToSSTable_fine:
  assumes io: "io_fine io" and "es \<noteq> []" and srt: "sorted_wrt (<) (map be_key es)"
    and tomb: "\<forall>e \<in> set es. be_tombstone e \<longrightarrow> be_value e = []" and small: "sum_list (map EncodedSize es) \<le> 2 ^ 28"
  shows "\<exists>bs. WriteVectorToSSTable io mt fs p es = Some (fs(p \<mapsto> bs), Status_Ok) \<and> table_file (fs(p \<mapsto> bs)) p es"
proof -
  let ?ops = "map entry_table_op es" and ?kvs = "map (\<lambda>x. (op_key x, op_value x)) (map entry_table_op es)"
  obtain sl where sl: "run_ops (SkipList_apply mt) SkipList_new ?ops = Some sl"
    "SkipList_entries sl = Some (fold (\<lambda>x. ordered_put (op_key x) (op_value x)) ?ops [])"
    using skip_list.run_ops_ok [OF SkipList_new_wf SkipList_new_entries, of mt ?ops] by blast
  have "map op_key ?ops = map be_key es" by (simp add: op_key_entry_table_op)
  then have "fold (\<lambda>x. ordered_put (op_key x) (op_value x)) ?ops [] = ?kvs"
    using fold_ordered_put_sorted [of "[]" op_key ?ops op_value] srt by (simp only: map_map list.map(1) append_Nil)
  with sl(2) obtain it where it: "SkipList_Begin sl = Some it" "Iterator_drain (sl_heap sl) it = Some ?kvs"
    by (auto simp: SkipList_entries_def split: bind_splits)
  have es: "map block_entry_of ?kvs = es" using tomb by (simp add: block_entry_of_table_op map_idI)
  obtain bloom where b: "table_ok bloom es" using table_ok_small [OF small] by blast
  have "SSTableWriter_Write io fs p (sl_heap sl) it = Some (fs(p \<mapsto> SSTable_image bloom es), Status_Ok)"
    using SSTableWriter_Write_fine [OF io it(2), of bloom fs p] b assms(2) unfolding es by (simp add: table_ok_def)
  then have "WriteVectorToSSTable io mt fs p es = Some (fs(p \<mapsto> SSTable_image bloom es), Status_Ok)"
    using assms(2) sl(1) it(1) by (simp add: WriteVectorToSSTable_def put_block_entry_apply run_ops_map)
  moreover have "table_file (fs(p \<mapsto> SSTable_image bloom es)) p es"
    using b srt tomb by (auto simp: table_file_def)
  ultimately show ?thesis by blast
qed

subsection \<open>Splitting the output into files\<close>

text \<open>The name of output number \<open>n\<close>.\<close>

definition output_path :: "string \<Rightarrow> int \<Rightarrow> u64 \<Rightarrow> path" where
  "output_path dir level n = dir @ ''/level'' @ to_string_int level @ ''_'' @ pad_left 8 (CHR ''0'') (to_string_u64 n) @ ''.sst''"

lemma GenerateOutputPath_eq:
  "GenerateOutputPath cm level = (cm\<lparr>cm_next_file_number := cm_next_file_number cm + 1\<rparr>,
     output_path (cm_data_dir cm) level (cm_next_file_number cm))"
  by (simp add: GenerateOutputPath_def output_path_def)

lemma output_path_inject [simp]: "output_path dir level m = output_path dir level n \<longleftrightarrow> m = n"
  by (auto simp: output_path_def pad_zeros_inject)

fun batches :: "u64 \<Rightarrow> BlockEntry list \<Rightarrow> BlockEntry list \<Rightarrow> BlockEntry list list" where
  "batches est acc [] = (if acc = [] then [] else [acc])"
| "batches est acc (e # es) =
     (if est + to_u64 (EncodedSize e) \<ge> kOutputSplitBytes then (acc @ [e]) # batches 0 [] es
      else batches (est + to_u64 (EncodedSize e)) (acc @ [e]) es)"

lemma concat_batches: "concat (batches est acc es) = acc @ es"
  by (induction est acc es rule: batches.induct) auto

definition batch_ok :: "BlockEntry list \<Rightarrow> bool" where
  "batch_ok es \<longleftrightarrow> es \<noteq> [] \<and> sorted_wrt (<) (map be_key es)
     \<and> (\<forall>e \<in> set es. be_tombstone e \<longrightarrow> be_value e = []) \<and> sum_list (map EncodedSize es) \<le> 2 ^ 28"

text \<open>With entries up to 128 MB every file stays below 256 MB.\<close>

lemma batches_small:
  assumes "\<forall>e \<in> set (acc @ es). EncodedSize e \<le> 2 ^ 27"
    "unat est = sum_list (map EncodedSize acc)" "est < kOutputSplitBytes"
  shows "\<forall>b \<in> set (batches est acc es). sum_list (map EncodedSize b) \<le> 2 ^ 28"
  using assms
proof (induction est acc es rule: batches.induct)
  case (1 est acc)
  then show ?case by (auto simp: kOutputSplitBytes_def word_less_nat_alt)
next
  case (2 est acc e es)
  have e: "EncodedSize e \<le> 2 ^ 27" "unat est < 2 ^ 26" using 2 by (auto simp: kOutputSplitBytes_def word_less_nat_alt)
  then have u: "unat (est + to_u64 (EncodedSize e)) = unat est + EncodedSize e" by (simp add: unat_word_ariths)
  show ?case
  proof (cases "est + to_u64 (EncodedSize e) \<ge> kOutputSplitBytes")
    case True
    then show ?thesis using 2(1) [OF True] 2(3,4) e by (simp add: kOutputSplitBytes_def)
  next
    case False
    then show ?thesis using 2(2) [OF False] 2(3,4) u by simp
  qed
qed

lemma batches_ok:
  assumes "sorted_wrt (<) (map be_key es)" "\<forall>e \<in> set es. (be_tombstone e \<longrightarrow> be_value e = []) \<and> EncodedSize e \<le> 2 ^ 27"
  shows "\<forall>b \<in> set (batches 0 [] es). batch_ok b"
proof
  fix b assume b: "b \<in> set (batches 0 [] es)"
  then obtain xs ys where "concat (batches 0 [] es) = xs @ b @ ys"
    by (metis concat.simps(2) concat_append split_list)
  then have es: "es = xs @ b @ ys" by (simp add: concat_batches)
  have "x \<noteq> []" if "x \<in> set (batches est acc es)" for x est acc and es :: "BlockEntry list"
    using that by (induction est acc es rule: batches.induct) (auto split: if_splits)
  moreover have "sum_list (map EncodedSize b) \<le> 2 ^ 28"
    using batches_small [of "[]" es 0] assms(2) b by (simp add: kOutputSplitBytes_def)
  ultimately show "batch_ok b"
    using assms b unfolding batch_ok_def es by (auto simp: sorted_wrt_append)
qed

subsection \<open>The merge on a working disk\<close>

text \<open>The output with number \<open>n\<close> is open: its path is chosen and the counter has moved past it.\<close>

definition out_at :: "merge_out \<Rightarrow> int \<Rightarrow> u64 \<Rightarrow> bool" where
  "out_at out target n \<longleftrightarrow> mo_path out = output_path (cm_data_dir (mo_cm out)) target n
     \<and> cm_next_file_number (mo_cm out) = n + 1"

text \<open>A catalogue entry describes the file it names.\<close>

definition meta_describes :: "fs \<Rightarrow> int \<Rightarrow> SSTableMeta \<Rightarrow> BlockEntry list \<Rightarrow> bool" where
  "meta_describes fs level m es \<longleftrightarrow> table_file fs (sm_filepath m) es \<and> es \<noteq> [] \<and> sm_level m = level
     \<and> sm_smallest_key m = be_key (hd es) \<and> sm_largest_key m = be_key (last es)"

lemma meta_describes_cong: "fs' (sm_filepath m) = fs (sm_filepath m) \<Longrightarrow> meta_describes fs' level m es = meta_describes fs level m es"
  by (simp add: meta_describes_def table_file_cong [of fs' "sm_filepath m" fs])

lemma flush_output_fine:
  assumes io: "io_fine io" and ok: "batch_ok (mo_entries out)" and at: "out_at out target n"
  shows "\<exists>out' m. flush_output io mt target out = Some (out', Status_Ok) \<and> mo_metas out' = mo_metas out @ [m]
     \<and> meta_describes (mo_fs out') target m (mo_entries out) \<and> sm_filepath m = output_path (cm_data_dir (mo_cm out)) target n
     \<and> (\<forall>q. q \<noteq> sm_filepath m \<longrightarrow> mo_fs out' q = mo_fs out q) \<and> out_at out' target (n + 1)
     \<and> mo_entries out' = [] \<and> mo_estimate out' = 0 \<and> mo_last_key out' = mo_last_key out
     \<and> cm_files (mo_cm out') = cm_files (mo_cm out) \<and> cm_data_dir (mo_cm out') = cm_data_dir (mo_cm out)
     \<and> cm_max_level (mo_cm out') = cm_max_level (mo_cm out)"
proof -
  obtain bs where w: "WriteVectorToSSTable io mt (mo_fs out) (mo_path out) (mo_entries out)
      = Some ((mo_fs out)(mo_path out \<mapsto> bs), Status_Ok)" "table_file ((mo_fs out)(mo_path out \<mapsto> bs)) (mo_path out) (mo_entries out)"
    using WriteVectorToSSTable_fine [OF io, of "mo_entries out"] ok unfolding batch_ok_def by blast
  have ne: "mo_entries out \<noteq> []" using ok by (simp add: batch_ok_def)
  show ?thesis
    using w ne at
    by (simp add: flush_output_def Status_IsOk_def Status_Ok_def GenerateOutputPath_eq Let_def out_at_def meta_describes_def)
qed

definition finish :: "io \<Rightarrow> (nat \<Rightarrow> u32) \<Rightarrow> bool \<Rightarrow> int \<Rightarrow> merge_out \<Rightarrow> MergeItem list \<Rightarrow> (merge_out \<times> Status) option" where
  "finish io mt bottom target out s =
     do { (out, st) \<leftarrow> emit_all io mt bottom target out s;
          if \<not> Status_IsOk st then Some (out, st) else flush_output io mt target out }"

lemma finish_Cons:
  assumes "emit_item io mt bottom target out it = Some (out', Status_Ok)"
  shows "finish io mt bottom target out (it # s) = finish io mt bottom target out' s"
  using assms by (simp add: finish_def Status_IsOk_def Status_Ok_def)

text \<open>What a finished merge has done, relative to a state with output \<open>n\<close> open: it has written the
  batches \<open>B\<close>.\<close>

definition wrote :: "int \<Rightarrow> u64 \<Rightarrow> merge_out \<Rightarrow> BlockEntry list list \<Rightarrow> merge_out \<Rightarrow> bool" where
  "wrote target n out B out' \<longleftrightarrow> (\<exists>metas. mo_metas out' = mo_metas out @ metas
     \<and> list_all2 (meta_describes (mo_fs out') target) metas B
     \<and> map sm_filepath metas = map (\<lambda>j. output_path (cm_data_dir (mo_cm out)) target (n + of_nat j)) [0 ..< length B]
     \<and> (\<forall>q. q \<notin> sm_filepath ` set metas \<longrightarrow> mo_fs out' q = mo_fs out q))
     \<and> cm_files (mo_cm out') = cm_files (mo_cm out) \<and> cm_data_dir (mo_cm out') = cm_data_dir (mo_cm out)
     \<and> cm_max_level (mo_cm out') = cm_max_level (mo_cm out)"

lemma wrote_Cons:
  assumes m: "meta_describes (mo_fs out1) target m b" "sm_filepath m = output_path (cm_data_dir (mo_cm out)) target n"
    and q: "\<forall>q. q \<noteq> sm_filepath m \<longrightarrow> mo_fs out1 q = mo_fs out q" and ms: "mo_metas out1 = mo_metas out @ [m]"
    and cm: "cm_files (mo_cm out1) = cm_files (mo_cm out)" "cm_data_dir (mo_cm out1) = cm_data_dir (mo_cm out)"
      "cm_max_level (mo_cm out1) = cm_max_level (mo_cm out)"
    and w: "wrote target (n + 1) out1 B out'" and len: "Suc (length B) < 2 ^ 64"
  shows "wrote target n out (b # B) out'"
proof -
  let ?dir = "cm_data_dir (mo_cm out)"
  obtain metas where me: "mo_metas out' = mo_metas out1 @ metas" "list_all2 (meta_describes (mo_fs out') target) metas B"
    "map sm_filepath metas = map (\<lambda>j. output_path ?dir target (n + 1 + of_nat j)) [0 ..< length B]"
    "\<forall>q. q \<notin> sm_filepath ` set metas \<longrightarrow> mo_fs out' q = mo_fs out1 q"
    using w cm(2) unfolding wrote_def by auto
  have paths: "sm_filepath ` set metas = (\<lambda>j. output_path ?dir target (n + 1 + of_nat j)) ` {0 ..< length B}"
    using arg_cong [OF me(3), of set] by simp
  have "n \<noteq> n + 1 + of_nat j" if "j < length B" for j
  proof
    assume "n = n + 1 + of_nat j"
    then have "(of_nat (Suc j) :: u64) = 0" by (simp add: add.assoc)
    then have "unat (of_nat (Suc j) :: u64) = 0" by simp
    moreover have "unat (of_nat (Suc j) :: u64) = Suc j" using that len unat_to_u64 [of "Suc j"] by (simp add: to_u64_def)
    ultimately show False by simp
  qed
  then have "sm_filepath m \<notin> sm_filepath ` set metas" by (auto simp: paths m(2))
  then have "mo_fs out' (sm_filepath m) = mo_fs out1 (sm_filepath m)" using me(4) by blast
  then have "meta_describes (mo_fs out') target m b" using m(1) meta_describes_cong by blast
  moreover have "[0 ..< Suc (length B)] = 0 # map Suc [0 ..< length B]" by (simp add: map_Suc_upt upt_conv_Cons del: upt_Suc)
  then have "map sm_filepath (m # metas) = map (\<lambda>j. output_path ?dir target (n + of_nat j)) [0 ..< length (b # B)]"
    using me(3) m(2) by (simp add: add.assoc del: upt_Suc)
  moreover have "mo_metas out' = mo_metas out @ (m # metas)" using me(1) ms by simp
  moreover have "\<forall>r. r \<notin> sm_filepath ` set (m # metas) \<longrightarrow> mo_fs out' r = mo_fs out r" using me(4) q by simp
  ultimately show ?thesis
    using me(2) w cm unfolding wrote_def by (auto intro!: exI [of _ "m # metas"])
qed

text \<open>Writing out a batch, and what a merge that goes on from there has written in all.\<close>

lemma flush_output_wrote:
  assumes "io_fine io" and "batch_ok (mo_entries out)" and "out_at out target n"
  shows "\<exists>out1. flush_output io mt target out = Some (out1, Status_Ok) \<and> out_at out1 target (n + 1)
    \<and> mo_entries out1 = [] \<and> mo_estimate out1 = 0 \<and> mo_last_key out1 = mo_last_key out
    \<and> (\<forall>B out'. wrote target (n + 1) out1 B out' \<longrightarrow> Suc (length B) < 2 ^ 64 \<longrightarrow> wrote target n out (mo_entries out # B) out')"
proof -
  obtain out1 m where f: "flush_output io mt target out = Some (out1, Status_Ok)"
    "mo_metas out1 = mo_metas out @ [m]" "meta_describes (mo_fs out1) target m (mo_entries out)"
    "sm_filepath m = output_path (cm_data_dir (mo_cm out)) target n" "\<forall>q. q \<noteq> sm_filepath m \<longrightarrow> mo_fs out1 q = mo_fs out q"
    "cm_files (mo_cm out1) = cm_files (mo_cm out)" "cm_data_dir (mo_cm out1) = cm_data_dir (mo_cm out)"
    "cm_max_level (mo_cm out1) = cm_max_level (mo_cm out)" "out_at out1 target (n + 1)" "mo_entries out1 = []" "mo_estimate out1 = 0"
    "mo_last_key out1 = mo_last_key out"
    using flush_output_fine [OF assms, of mt] by blast
  with wrote_Cons [OF f(3,4,5,2,6,7,8)] show ?thesis by blast
qed

lemma wrote_Nil: "wrote target n out [] out"
  by (simp add: wrote_def)

lemma wrote_cong:
  "mo_fs out1 = mo_fs out \<Longrightarrow> mo_metas out1 = mo_metas out \<Longrightarrow> mo_cm out1 = mo_cm out \<Longrightarrow>
   wrote target n out1 B out' = wrote target n out B out'"
  by (simp add: wrote_def)

lemma finish_end:
  assumes "io_fine io" and "out_at out target n" and "mo_entries out \<noteq> [] \<Longrightarrow> batch_ok (mo_entries out)"
  shows "\<exists>out'. finish io mt bottom target out [] = Some (out', Status_Ok)
    \<and> wrote target n out (if mo_entries out = [] then [] else [mo_entries out]) out'"
proof (cases "mo_entries out = []")
  case True
  then show ?thesis by (simp add: finish_def Status_IsOk_def Status_Ok_def flush_output_def wrote_Nil)
next
  case False
  then obtain out1 where "flush_output io mt target out = Some (out1, Status_Ok)"
      "\<forall>B out'. wrote target (n + 1) out1 B out' \<longrightarrow> Suc (length B) < 2 ^ 64 \<longrightarrow> wrote target n out (mo_entries out # B) out'"
    using flush_output_wrote [OF assms(1) assms(3) assms(2), of mt] by blast
  from spec [OF this(2), of "[]"] this(1) have "flush_output io mt target out = Some (out1, Status_Ok)"
      "wrote target n out [mo_entries out] out1" by (simp_all add: wrote_Nil)
  with False show ?thesis by (simp add: finish_def Status_IsOk_def Status_Ok_def wrote_Nil)
qed

lemma finish_fine:
  assumes io: "io_fine io"
  shows "out_at out target n \<Longrightarrow> \<forall>b \<in> set (batches (mo_estimate out) (mo_entries out) (dedup bottom (mo_last_key out) s)). batch_ok b \<Longrightarrow>
    length (batches (mo_estimate out) (mo_entries out) (dedup bottom (mo_last_key out) s)) < 2 ^ 64 \<Longrightarrow>
    \<exists>out'. finish io mt bottom target out s = Some (out', Status_Ok)
      \<and> wrote target n out (batches (mo_estimate out) (mo_entries out) (dedup bottom (mo_last_key out) s)) out'"
proof (induction s arbitrary: out n)
  case Nil
  then show ?case using finish_end [OF io Nil(1)] by simp
next
  case (Cons it s)
  let ?e = "mi_entry it" and ?est = "mo_estimate out + to_u64 (EncodedSize (mi_entry it))"
  let ?out = "out\<lparr>mo_last_key := mi_key it, mo_estimate := ?est, mo_entries := mo_entries out @ [?e]\<rparr>"
  consider (dup) "mi_key it = mo_last_key out"
    | (tomb) "mi_key it \<noteq> mo_last_key out" "be_tombstone ?e \<and> bottom"
    | (keep) "mi_key it \<noteq> mo_last_key out" "\<not> (be_tombstone ?e \<and> bottom)" "\<not> ?est \<ge> kOutputSplitBytes"
    | (split) "mi_key it \<noteq> mo_last_key out" "\<not> (be_tombstone ?e \<and> bottom)" "?est \<ge> kOutputSplitBytes" by blast
  then show ?case
  proof cases
    case dup
    let ?o = "out\<lparr>mo_stats := (mo_stats out)\<lparr>cs_duplicate_keys_dropped := cs_duplicate_keys_dropped (mo_stats out) + 1\<rparr>\<rparr>"
    have "emit_item io mt bottom target out it = Some (?o, Status_Ok)" using dup by (simp add: emit_item_def Let_def)
    then show ?thesis using Cons.IH [of ?o n] Cons.prems dup wrote_cong [of ?o out] by (simp add: finish_Cons out_at_def)
  next
    case tomb
    let ?o = "out\<lparr>mo_last_key := mi_key it,
      mo_stats := (mo_stats out)\<lparr>cs_tombstones_dropped := cs_tombstones_dropped (mo_stats out) + 1\<rparr>\<rparr>"
    have "emit_item io mt bottom target out it = Some (?o, Status_Ok)" using tomb by (simp add: emit_item_def Let_def)
    then show ?thesis using Cons.IH [of ?o n] Cons.prems tomb wrote_cong [of ?o out] by (simp add: finish_Cons out_at_def)
  next
    case keep
    have "emit_item io mt bottom target out it = Some (?out, Status_Ok)"
      using keep by (auto simp: emit_item_def Let_def EncodedSize_def add.assoc)
    note fin = finish_Cons [OF this]
    have B: "batches (mo_estimate out) (mo_entries out) (dedup bottom (mo_last_key out) (it # s))
        = batches ?est (mo_entries out @ [?e]) (dedup bottom (mi_key it) s)"
      using keep by auto
    show ?thesis using Cons.IH [of ?out n] Cons.prems wrote_cong [of ?out out] unfolding B fin by (simp add: out_at_def)
  next
    case split
    let ?B = "batches 0 [] (dedup bottom (mi_key it) s)"
    have B: "batches (mo_estimate out) (mo_entries out) (dedup bottom (mo_last_key out) (it # s)) = mo_entries ?out # ?B"
      using split by auto
    have at: "out_at ?out target n" "batch_ok (mo_entries ?out)" using Cons.prems B by (simp_all add: out_at_def)
    obtain out1 where f: "flush_output io mt target ?out = Some (out1, Status_Ok)" "out_at out1 target (n + 1)"
        "mo_entries out1 = []" "mo_estimate out1 = 0" "mo_last_key out1 = mo_last_key ?out"
        "\<forall>B out'. wrote target (n + 1) out1 B out' \<longrightarrow> Suc (length B) < 2 ^ 64 \<longrightarrow> wrote target n ?out (mo_entries ?out # B) out'"
      using flush_output_wrote [OF io at(2,1), of mt] by blast
    obtain out' where o: "finish io mt bottom target out1 s = Some (out', Status_Ok)" "wrote target (n + 1) out1 ?B out'"
      using Cons.IH [OF f(2)] f(3-5) Cons.prems B by auto
    have "wrote target n out (mo_entries ?out # ?B) out'"
      using f(6) o(2) Cons.prems(3) B wrote_cong [of ?out out] by simp
    moreover have "emit_item io mt bottom target out it = Some (out1, Status_Ok)"
      using split f(1) by (auto simp: emit_item_def Let_def EncodedSize_def add.assoc)
    ultimately show ?thesis using o(1) unfolding B by (simp only: finish_Cons) blast
  qed
qed

subsection \<open>The whole merge\<close>

lemma read_inputs_fine:
  assumes io: "io_fine io" and "list_all2 (table_file fs) (map sm_filepath inputs) datas"
  shows "\<exists>stats'. read_inputs io fs inputs stats = Some (Value (datas, stats'))"
  using assms(2) unfolding list_all2_map1
proof (induction arbitrary: stats rule: list_all2_induct)
  case (Cons m ms es ess)
  obtain r where "SSTableReader_Open io fs (sm_filepath m) = Some (Value r)" "SSTableReader_ReadAll io fs r = Some (Value es)"
    using table_file_read [OF Cons(1), of io] io by auto
  with Cons(3) [of "stats\<lparr>cs_keys_merged := cs_keys_merged stats + to_u64 (length es),
      cs_bytes_read := cs_bytes_read stats + sm_file_size_bytes m\<rparr>"] show ?case by auto
qed simp

lemma length_batches: "length (batches est acc es) \<le> length acc + length es"
proof (induction est acc es rule: batches.induct)
  case (1 est acc)
  then show ?case by (cases acc) auto
qed auto

lemma size_input_items: "size (input_items inputs datas) = length (concat datas)"
proof -
  have "size (\<Sum>i < n. mset (file_items inputs i (datas ! i))) = (\<Sum>i < n. length (datas ! i))" for n
    by (induction n) (auto simp: file_items_def)
  then show ?thesis
    by (simp add: input_items_def length_concat sum_list_sum_nth atLeast0LessThan)
qed

lemma length_dedup: "length (dedup bottom l s) \<le> length s"
  by (induction s arbitrary: l) (auto intro: le_SucI)

text \<open>The reference for a lookup in the merged files.\<close>

definition merged_lookup :: "bool \<Rightarrow> SSTableMeta list \<Rightarrow> BlockEntry list list \<Rightarrow> key \<Rightarrow> BlockEntry option" where
  "merged_lookup bottom inputs datas k =
     (if k = '''' then None else
      case newest k (zip (map sm_sequence_number inputs) datas) of None \<Rightarrow> None
      | Some (_, e) \<Rightarrow> if be_tombstone e \<and> bottom then None else Some e)"

lemma MergeFiles_fine:
  assumes io: "io_fine io" and files: "list_all2 (table_file fs) (map sm_filepath inputs) datas"
    and seqs: "distinct (map sm_sequence_number inputs)"
    and small: "\<forall>es \<in> set datas. \<forall>e \<in> set es. EncodedSize e \<le> 2 ^ 27" "length (concat datas) < 2 ^ 64"
  shows "\<exists>fs' cm' metas stats' B. MergeFiles io mt fs cm inputs target stats = Some (fs', cm', Value (metas, stats'))
    \<and> list_all2 (meta_describes fs' target) metas B \<and> sorted_wrt (<) (map be_key (concat B))
    \<and> (\<forall>k. List.find (\<lambda>e. be_key e = k) (concat B) = merged_lookup (target = cm_max_level cm - 1) inputs datas k)
    \<and> map sm_filepath metas
        = map (\<lambda>j. output_path (cm_data_dir cm) target (cm_next_file_number cm + of_nat j)) [0 ..< length B]
    \<and> (\<forall>q. q \<notin> sm_filepath ` set metas \<longrightarrow> fs' q = fs q) \<and> length B \<le> length (concat datas)
    \<and> cm_files cm' = cm_files cm \<and> cm_data_dir cm' = cm_data_dir cm \<and> cm_max_level cm' = cm_max_level cm"
proof -
  let ?bottom = "target = cm_max_level cm - 1"
  obtain stats1 where rd: "read_inputs io fs inputs stats = Some (Value (datas, stats1))"
    using read_inputs_fine [OF io files] by blast
  have len: "length inputs = length datas" using list_all2_lengthD [OF files] by simp
  have tf: "\<forall>es \<in> set datas. sorted_wrt (<) (map be_key es) \<and> (\<forall>e \<in> set es. be_tombstone e \<longrightarrow> be_value e = [])"
    using files by (induction rule: list_all2_induct) (auto simp: table_file_def)
  obtain fd h where seed: "seed_heap inputs [0 ..< length datas] (map (\<lambda>es. (es, 0)) datas) [] = (fd, h)" by force
  have sd: "\<forall>es \<in> set datas. sorted_wrt (<) (map be_key es)" using tf by blast
  obtain s where s: "merge_stream inputs fd h = Some s" "sorted_wrt merge_le s" "mset s = input_items inputs datas"
    using merge_stream_ok [OF sd seed] by blast
  let ?es = "dedup ?bottom '''' s"
  note merge = dedup_merge_lookup [OF len seqs sd s(2,3)]
  have "\<exists>es \<in> set datas. e \<in> set es" if mem: "e \<in> set ?es" for e
  proof -
    obtain it where it: "it \<in> set s" "e = mi_entry it" using mem dedup_subset [of ?bottom "[]" s] by blast
    then have "it \<in># input_items inputs datas" using s(3) by (metis set_mset_mset)
    then obtain es where "(mi_seq it, es) \<in> set (zip (map sm_sequence_number inputs) datas)" "mi_entry it \<in> set es"
      using input_items_member [OF len] by blast
    with it(2) show ?thesis by (metis set_zip_rightD)
  qed
  then have es: "\<forall>e \<in> set ?es. (be_tombstone e \<longrightarrow> be_value e = []) \<and> EncodedSize e \<le> 2 ^ 27" using tf small(1) by blast
  let ?B = "batches 0 [] ?es"
  let ?out = "\<lparr>mo_fs = fs, mo_cm = cm\<lparr>cm_next_file_number := cm_next_file_number cm + 1\<rparr>, mo_stats = stats1, mo_metas = [],
     mo_entries = [], mo_last_key = '''', mo_estimate = 0, mo_path = output_path (cm_data_dir cm) target (cm_next_file_number cm)\<rparr>"
  have "length s = length (concat datas)" using size_input_items [of inputs datas] s(3) by (metis size_mset)
  then have lb: "length ?B \<le> length (concat datas)"
    using length_batches [of 0 "[]" ?es] length_dedup [of ?bottom "[]" s] by simp
  then obtain out' where o: "finish io mt ?bottom target ?out s = Some (out', Status_Ok)"
    "wrote target (cm_next_file_number cm) ?out ?B out'"
    using finish_fine [OF io, of ?out target "cm_next_file_number cm" ?bottom s mt] batches_ok [OF merge(1) es] small(2)
    by (auto simp: out_at_def)
  then have "MergeFiles io mt fs cm inputs target stats = Some (mo_fs out', mo_cm out', Value (mo_metas out', mo_stats out'))"
    by (auto simp: MergeFiles_def rd seed GenerateOutputPath_eq drain_heap_stream [OF s(1)] finish_def Let_def
        Status_IsOk_def Status_Ok_def split: bind_splits if_splits)
  with o(2) merge lb show ?thesis
    by (auto simp: wrote_def concat_batches merged_lookup_def)
qed

subsection \<open>The order in which versions win\<close>

text \<open>The first of some files that has an entry for the key.\<close>

fun first_hit :: "key \<Rightarrow> BlockEntry list list \<Rightarrow> BlockEntry option" where
  "first_hit k [] = None"
| "first_hit k (es # ess) = (case List.find (\<lambda>e. be_key e = k) es of Some e \<Rightarrow> Some e | None \<Rightarrow> first_hit k ess)"

lemma first_hit_append: "first_hit k (xs @ ys) = (case first_hit k xs of Some e \<Rightarrow> Some e | None \<Rightarrow> first_hit k ys)"
  by (induction xs) (auto split: option.split)

lemma newest_append:
  assumes "\<forall>a \<in> set xs. \<forall>b \<in> set ys. fst b < fst a"
  shows "newest k (xs @ ys) = (case newest k xs of Some p \<Rightarrow> Some p | None \<Rightarrow> newest k ys)"
  using assms
proof (induction xs)
  case (Cons x xs)
  obtain q es where x: "x = (q, es)" by force
  have "q' < q" if "newest k ys = Some (q', e')" for q' e'
    using newest_Some [OF that] Cons.prems x by fastforce
  with Cons show ?case by (auto simp: x split: option.splits)
qed simp

lemma newest_descending:
  assumes "sorted_wrt (\<lambda>a b. b < a) (map fst fs)"
  shows "map_option snd (newest k fs) = first_hit k (map snd fs)"
  using assms
proof (induction fs)
  case (Cons f fs)
  obtain q es where f: "f = (q, es)" by force
  have "newest k ([f] @ fs) = (case newest k [f] of Some p \<Rightarrow> Some p | None \<Rightarrow> newest k fs)"
    using Cons.prems by (intro newest_append) auto
  with Cons show ?case by (auto simp: f split: option.splits)
qed simp

lemma newest_ascending:
  assumes "sorted_wrt (<) (map fst fs)"
  shows "map_option snd (newest k fs) = first_hit k (rev (map snd fs))"
  using assms
proof (induction fs)
  case (Cons f fs)
  obtain q es where f: "f = (q, es)" by force
  have "q < q'" if "newest k fs = Some (q', e')" for q' e'
    using newest_Some [OF that] Cons.prems f by fastforce
  with Cons show ?case by (auto simp: f first_hit_append split: option.splits)
qed simp

lemma to_u64_less: "m < n \<Longrightarrow> n < 2 ^ 64 \<Longrightarrow> to_u64 m < to_u64 n"
  by (simp add: word_less_nat_alt)

lemma assign_sequences_props:
  "map sm_filepath (assign_sequences S T) = map sm_filepath (S @ T)"
  "map sm_sequence_number (assign_sequences S T)
    = map (\<lambda>i. to_u64 (length S + length T - i)) [0 ..< length S] @ map to_u64 [0 ..< length T]"
  "length (assign_sequences S T) = length S + length T"
  by (simp_all add: assign_sequences_def Let_def comp_def)
     (metis (mono_tags, lifting) map_eq_conv map_map map_nth comp_def)

lemma newest_assigned:
  assumes "length ds = length S" "length dt = length T" "length S + length T < 2 ^ 64"
  shows "distinct (map sm_sequence_number (assign_sequences S T))"
    and "map_option snd (newest k (zip (map sm_sequence_number (assign_sequences S T)) (ds @ dt))) = first_hit k (ds @ rev dt)"
proof -
  let ?qs = "map (\<lambda>i. to_u64 (length S + length T - i)) [0 ..< length S]" and ?qt = "map to_u64 [0 ..< length T]"
  have s: "sorted_wrt (\<lambda>a b. b < a) ?qs" "sorted_wrt (<) ?qt"
    using assms(3) by (auto simp: sorted_wrt_iff_nth_less intro!: to_u64_less)
  have ts: "b < a" if "a \<in> set ?qs" "b \<in> set ?qt" for a b
    using that assms(3) by (auto intro!: to_u64_less)
  have dd: "distinct ?qs" "distinct ?qt"
    using s(1,2) by (auto simp: distinct_conv_nth sorted_wrt_iff_nth_less) (metis less_irrefl linorder_neqE_nat)+
  have "set ?qs \<inter> set ?qt = {}" using ts by (meson disjoint_iff less_irrefl)
  with dd show "distinct (map sm_sequence_number (assign_sequences S T))" by (simp add: assign_sequences_props)
  have z: "zip (?qs @ ?qt) (ds @ dt) = zip ?qs ds @ zip ?qt dt" using assms(1) by simp
  have "newest k (zip ?qs ds @ zip ?qt dt)
      = (case newest k (zip ?qs ds) of Some p \<Rightarrow> Some p | None \<Rightarrow> newest k (zip ?qt dt))"
    using ts by (intro newest_append) (metis fst_conv in_set_zipE prod.collapse)
  moreover have "map_option snd (newest k (zip ?qs ds)) = first_hit k ds"
    using newest_descending [of "zip ?qs ds"] s(1) assms(1) by simp
  moreover have "map_option snd (newest k (zip ?qt dt)) = first_hit k (rev dt)"
    using newest_ascending [of "zip ?qt dt"] s(2) assms(2) by simp
  ultimately show "map_option snd (newest k (zip (map sm_sequence_number (assign_sequences S T)) (ds @ dt))) = first_hit k (ds @ rev dt)"
    unfolding assign_sequences_props(2) z by (auto simp: first_hit_append split: option.splits)
qed

text \<open>What a compaction of files with the entries \<open>ds\<close> and \<open>dt\<close> answers for a key.\<close>

definition compacted_lookup :: "bool \<Rightarrow> BlockEntry list list \<Rightarrow> BlockEntry list list \<Rightarrow> key \<Rightarrow> BlockEntry option" where
  "compacted_lookup bottom ds dt k =
     (if k = '''' then None else
      case first_hit k (ds @ rev dt) of None \<Rightarrow> None
      | Some e \<Rightarrow> if be_tombstone e \<and> bottom then None else Some e)"

lemma merged_lookup_assigned:
  assumes "length ds = length S" "length dt = length T" "length S + length T < 2 ^ 64"
  shows "merged_lookup bottom (assign_sequences S T) (ds @ dt) k = compacted_lookup bottom ds dt k"
  using newest_assigned(2) [OF assms, of k, symmetric]
  by (auto simp: merged_lookup_def compacted_lookup_def split: option.splits)

subsection \<open>A whole compaction\<close>

lemma add_files_ok:
  "\<forall>m \<in> set metas. 0 \<le> sm_level m \<and> sm_level m < cm_max_level cm \<Longrightarrow>
   add_files cm metas = (cm\<lparr>cm_files := cm_files cm @ metas\<rparr>, Status_Ok)"
  by (induction metas arbitrary: cm) (simp_all add: AddFile_def Status_IsOk_def Status_Ok_def)

lemma remove_inputs_ok:
  "remove_inputs fs cm olds = (\<lambda>q. if q \<in> sm_filepath ` set olds then None else fs q,
     cm\<lparr>cm_files := filter (\<lambda>f. sm_filepath f \<notin> sm_filepath ` set olds) (cm_files cm)\<rparr>)"
  by (induction olds arbitrary: fs cm) (auto simp: RemoveFile_def fun_eq_iff intro!: filter_cong)

lemma PickCompactionLevel_range:
  "PickCompactionLevel cm = - 1 \<or> PickCompactionLevel cm = 0 \<or> 1 \<le> PickCompactionLevel cm \<and> PickCompactionLevel cm \<le> cm_max_level cm - 2"
  by (auto simp: PickCompactionLevel_def find_Some_iff split: option.splits)

text \<open>The exchange of the files \<open>S\<close> and \<open>T\<close>, with the entries \<open>ds\<close> and \<open>dt\<close>, by the files of
  \<open>metas\<close>, with the entries \<open>B\<close>.\<close>

definition exchanged :: "int \<Rightarrow> SSTableMeta list \<Rightarrow> SSTableMeta list \<Rightarrow> BlockEntry list list \<Rightarrow> BlockEntry list list \<Rightarrow>
    fs \<Rightarrow> CompactionManager \<Rightarrow> fs \<Rightarrow> CompactionManager \<Rightarrow> SSTableMeta list \<Rightarrow> BlockEntry list list \<Rightarrow> bool" where
  "exchanged lvl S T ds dt fs cm fs' cm' metas B \<longleftrightarrow>
    cm_files cm' = filter (\<lambda>f. sm_filepath f \<notin> sm_filepath ` set (S @ T)) (cm_files cm) @ metas
    \<and> list_all2 (meta_describes fs' (lvl + 1)) metas B
    \<and> sorted_wrt (<) (map be_key (concat B))
    \<and> (\<forall>k. List.find (\<lambda>e. be_key e = k) (concat B) = compacted_lookup (lvl + 1 = cm_max_level cm - 1) ds dt k)
    \<and> (\<forall>q. q \<notin> sm_filepath ` set metas \<longrightarrow> fs' q = (if q \<in> sm_filepath ` set (S @ T) then None else fs q))
    \<and> cm_data_dir cm' = cm_data_dir cm \<and> cm_max_level cm' = cm_max_level cm
    \<and> sm_filepath ` set metas \<subseteq> range (output_path (cm_data_dir cm) (lvl + 1)) \<and> length metas \<le> length (concat (ds @ dt))"

text \<open>Numbers that were not handed out yet name no file that is there.\<close>

lemma fresh_outputs_disjoint:
  assumes paths: "map sm_filepath metas = map (\<lambda>j. output_path dir lvl (next + of_nat j)) [0 ..< n]"
    and fresh: "\<forall>m \<in> olds. \<forall>i. sm_filepath m = output_path dir lvl i \<longrightarrow> i < next" and n: "unat next + n < 2 ^ 64"
  shows "sm_filepath ` set metas \<inter> sm_filepath ` olds = {}"
proof (rule equals0I)
  fix p assume p: "p \<in> sm_filepath ` set metas \<inter> sm_filepath ` olds"
  then have "p \<in> set (map sm_filepath metas)" by simp
  then obtain j where j: "j < n" "p = output_path dir lvl (next + of_nat j)" unfolding paths by auto
  obtain x where "x \<in> olds" "sm_filepath x = p" using p by (metis IntD2 imageE)
  with j(2) fresh have "next + of_nat j < next" by blast
  moreover have "unat (next + of_nat j) = unat next + j"
    using j(1) n unat_to_u64 [of j] by (simp add: unat_word_ariths to_u64_def)
  ultimately show False by (simp add: word_less_nat_alt)
qed

lemma RunCompaction_fine:
  assumes io: "io_fine io" and pick: "PickCompactionLevel cm = lvl" "lvl \<noteq> - 1" "1 < cm_max_level cm"
    and sel: "SelectCompactionFiles srt cm lvl = (S, T)" "S \<noteq> []"
    and files: "list_all2 (table_file fs) (map sm_filepath (S @ T)) (ds @ dt)" "length ds = length S"
    and small: "\<forall>es \<in> set (ds @ dt). \<forall>e \<in> set es. EncodedSize e \<le> 2 ^ 27" "length (concat (ds @ dt)) < 2 ^ 64"
      "length S + length T < 2 ^ 64"
    and fresh: "\<forall>m \<in> set (S @ T). \<forall>n. sm_filepath m = output_path (cm_data_dir cm) (lvl + 1) n \<longrightarrow> n < cm_next_file_number cm"
      "unat (cm_next_file_number cm) + length (concat (ds @ dt)) < 2 ^ 64"
  shows "\<exists>fs' cm' stats metas B. RunCompaction srt io mt fs cm = Some (fs', cm', Value stats)
    \<and> exchanged lvl S T ds dt fs cm fs' cm' metas B"
proof -
  let ?in = "assign_sequences S T" and ?stats = "CompactionStats_new\<lparr>cs_source_level := lvl, cs_target_level := lvl + 1,
    cs_files_read := length (assign_sequences S T)\<rparr>"
  have lens: "length ds = length S" "length dt = length T" using files list_all2_lengthD [OF files(1)] by auto
  note na = newest_assigned(1) [OF lens small(3)]
  have "list_all2 (table_file fs) (map sm_filepath ?in) (ds @ dt)"
    using files(1) by (simp only: assign_sequences_props(1))
  from MergeFiles_fine [OF io this na small(1,2), of mt cm "lvl + 1" ?stats] obtain fs1 cm1 metas stats' B
    where m: "MergeFiles io mt fs cm ?in (lvl + 1) ?stats = Some (fs1, cm1, Value (metas, stats'))"
    "list_all2 (meta_describes fs1 (lvl + 1)) metas B" "sorted_wrt (<) (map be_key (concat B))"
    "\<forall>k. List.find (\<lambda>e. be_key e = k) (concat B) = merged_lookup (lvl + 1 = cm_max_level cm - 1) ?in (ds @ dt) k"
    "map sm_filepath metas = map (\<lambda>j. output_path (cm_data_dir cm) (lvl + 1) (cm_next_file_number cm + of_nat j)) [0 ..< length B]"
    "\<forall>q. q \<notin> sm_filepath ` set metas \<longrightarrow> fs1 q = fs q" "length B \<le> length (concat (ds @ dt))"
    "cm_files cm1 = cm_files cm" "cm_data_dir cm1 = cm_data_dir cm" "cm_max_level cm1 = cm_max_level cm" by blast
  have disj: "sm_filepath ` set metas \<inter> sm_filepath ` set (S @ T) = {}"
    using fresh m(7) by (intro fresh_outputs_disjoint [OF m(5)]) auto
  have lv: "0 \<le> lvl + 1" "lvl + 1 < cm_max_level cm" using PickCompactionLevel_range [of cm] pick by auto
  have "\<forall>x \<in> set metas. sm_level x = lvl + 1"
    using m(2) by (induction rule: list_all2_induct) (auto simp: meta_describes_def)
  then have add: "add_files cm1 metas = (cm1\<lparr>cm_files := cm_files cm @ metas\<rparr>, Status_Ok)"
    using add_files_ok [of metas cm1] lv m(8,10) by simp
  have ins: "sm_filepath ` set ?in = sm_filepath ` set (S @ T)"
    using arg_cong [OF assign_sequences_props(1), of set S T] by (simp add: image_Un)
  let ?fs = "\<lambda>q. if q \<in> sm_filepath ` set (S @ T) then None else fs1 q"
  have same: "?fs (sm_filepath x) = fs1 (sm_filepath x)" if "x \<in> set metas" for x
    using disj that by auto
  have md: "list_all2 (meta_describes ?fs (lvl + 1)) metas B"
    by (rule list.rel_mono_strong [OF m(2)]) (use same meta_describes_cong [where fs = fs1 and fs' = ?fs] in blast)
  have keep: "filter (\<lambda>f. sm_filepath f \<notin> sm_filepath ` set (S @ T)) metas = metas"
    using disj by (intro filter_True) auto
  let ?cm = "cm1\<lparr>cm_files := filter (\<lambda>f. sm_filepath f \<notin> sm_filepath ` set (S @ T)) (cm_files cm @ metas)\<rparr>"
  have run: "RunCompaction srt io mt fs cm = Some (?fs, ?cm, Value stats')"
    using pick sel m(1) add
    by (simp add: RunCompaction_def Let_def remove_inputs_ok ins Status_IsOk_def Status_Ok_def)
  have "cm_files ?cm = filter (\<lambda>f. sm_filepath f \<notin> sm_filepath ` set (S @ T)) (cm_files cm) @ metas"
    using keep by simp
  moreover have "\<forall>k. List.find (\<lambda>e. be_key e = k) (concat B) = compacted_lookup (lvl + 1 = cm_max_level cm - 1) ds dt k"
    using m(4) merged_lookup_assigned [OF lens small(3)] by simp
  moreover have "\<forall>q. q \<notin> sm_filepath ` set metas \<longrightarrow> ?fs q = (if q \<in> sm_filepath ` set (S @ T) then None else fs q)"
    using m(6) by simp
  moreover have "cm_data_dir ?cm = cm_data_dir cm" "cm_max_level ?cm = cm_max_level cm" using m(9,10) by simp_all
  moreover have "sm_filepath ` set metas \<subseteq> range (output_path (cm_data_dir cm) (lvl + 1))"
    using arg_cong [OF m(5), of set] by auto
  moreover have "length metas \<le> length (concat (ds @ dt))" using m(7) list_all2_lengthD [OF m(2)] by simp
  ultimately have "exchanged lvl S T ds dt fs cm ?fs ?cm metas B" using md m(3) unfolding exchanged_def by blast
  with run show ?thesis by blast
qed

subsection \<open>The reference merge\<close>

text \<open>Every key of the inputs once, in order, with the version a lookup should find.\<close>

definition merge_reference :: "bool \<Rightarrow> SSTableMeta list \<Rightarrow> BlockEntry list list \<Rightarrow> BlockEntry list" where
  "merge_reference bottom inputs datas =
     List.map_filter (merged_lookup bottom inputs datas) (sort (remdups (map be_key (concat datas))))"

lemma sorted_find_member:
  assumes "sorted_wrt (<) (map be_key es)"
  shows "List.find (\<lambda>e. be_key e = k) es = Some e \<longleftrightarrow> e \<in> set es \<and> be_key e = k"
proof -
  have "distinct (map be_key es)" using assms strict_sorted_iff by blast
  then show ?thesis by (induction es) auto
qed

lemma sorted_find_unique:
  assumes "sorted_wrt (<) (map be_key xs)" "sorted_wrt (<) (map be_key ys)"
    "\<forall>k. List.find (\<lambda>e. be_key e = k) xs = List.find (\<lambda>e. be_key e = k) ys"
  shows "xs = ys"
proof -
  have "e \<in> set xs \<longleftrightarrow> e \<in> set ys" for e
    using sorted_find_member [OF assms(1), of "be_key e" e] sorted_find_member [OF assms(2), of "be_key e" e] assms(3) by auto
  then have s: "set xs = set ys" by blast
  then have k: "map be_key xs = map be_key ys"
    using strict_sorted_equal [OF assms(1,2)] by simp
  have "inj_on be_key (set xs)" using assms(1) strict_sorted_iff distinct_map by blast
  with s k show ?thesis by (metis map_inj_on Un_absorb)
qed

lemma merged_lookup_key: "merged_lookup bottom inputs datas k = Some e \<Longrightarrow> be_key e = k \<and> (\<exists>es \<in> set datas. e \<in> set es)"
  using newest_Some [of k "zip (map sm_sequence_number inputs) datas"]
  by (auto simp: merged_lookup_def split: if_splits option.splits) (metis set_zip_rightD)+

lemma find_map_filter:
  assumes "\<forall>k e. f k = Some e \<longrightarrow> be_key e = k"
  shows "List.find (\<lambda>e. be_key e = k) (List.map_filter f ks) = (if k \<in> set ks then f k else None)"
proof (induction ks)
  case (Cons x ks)
  with assms show ?case by (cases "f x") (auto simp: List.map_filter_simps)
qed (simp add: List.map_filter_simps)

lemma sorted_map_filter:
  assumes "sorted_wrt (<) ks" "\<forall>k e. f k = Some e \<longrightarrow> be_key e = k"
  shows "sorted_wrt (<) (map be_key (List.map_filter f ks))"
  using assms(1)
proof (induction ks)
  case (Cons k ks)
  have "\<forall>e \<in> set (List.map_filter f ks). be_key e \<in> set ks"
    using assms(2) by (induction ks) (auto simp: List.map_filter_simps split: option.splits)
  with Cons assms(2) show ?case by (auto simp: List.map_filter_simps split: option.split)
qed (simp add: List.map_filter_simps)

lemma merge_reference_unique:
  assumes "sorted_wrt (<) (map be_key es)"
    "\<forall>k. List.find (\<lambda>e. be_key e = k) es = merged_lookup bottom inputs datas k"
  shows "es = merge_reference bottom inputs datas"
proof (rule sorted_find_unique [OF assms(1)])
  let ?f = "merged_lookup bottom inputs datas" and ?ks = "sort (remdups (map be_key (concat datas)))"
  have k: "\<forall>k e. ?f k = Some e \<longrightarrow> be_key e = k" using merged_lookup_key by blast
  show "sorted_wrt (<) (map be_key (merge_reference bottom inputs datas))"
    unfolding merge_reference_def by (rule sorted_map_filter [OF _ k]) (simp add: strict_sorted_iff)
  have "?f k = None" if "k \<notin> set ?ks" for k
  proof (rule ccontr)
    assume "?f k \<noteq> None"
    then obtain e where "?f k = Some e" by auto
    from merged_lookup_key [OF this] that show False by auto
  qed
  then show "\<forall>k. List.find (\<lambda>e. be_key e = k) es = List.find (\<lambda>e. be_key e = k) (merge_reference bottom inputs datas)"
    using assms(2) unfolding merge_reference_def find_map_filter [OF k] by simp
qed

subsection \<open>Sorting\<close>

text \<open>What \<^verbatim>\<open>std::sort\<close> guarantees for a comparison that is a strict weak order.\<close>

definition strict_weak :: "('a \<Rightarrow> 'a \<Rightarrow> bool) \<Rightarrow> bool" where
  "strict_weak lt \<longleftrightarrow> (\<forall>a. \<not> lt a a) \<and> (\<forall>a b c. lt a b \<longrightarrow> lt b c \<longrightarrow> lt a c)
     \<and> (\<forall>a b c. \<not> lt a b \<longrightarrow> \<not> lt b c \<longrightarrow> \<not> lt a c)"

definition sorts :: "sorter \<Rightarrow> bool" where
  "sorts srt \<longleftrightarrow> (\<forall>lt xs. strict_weak lt \<longrightarrow>
     mset (srt lt xs) = mset xs \<and> sorted_wrt (\<lambda>a b. \<not> lt b a) (srt lt xs))"

lemma sortsD:
  assumes "sorts srt" "strict_weak lt"
  shows "mset (srt lt xs) = mset xs" "sorted_wrt (\<lambda>a b. \<not> lt b a) (srt lt xs)"
  using assms unfolding sorts_def by blast+

text \<open>An instance: insertion.\<close>

fun insert_by :: "('a \<Rightarrow> 'a \<Rightarrow> bool) \<Rightarrow> 'a \<Rightarrow> 'a list \<Rightarrow> 'a list" where
  "insert_by lt x [] = [x]"
| "insert_by lt x (y # ys) = (if lt y x then y # insert_by lt x ys else x # y # ys)"

definition sort_by :: "('a \<Rightarrow> 'a \<Rightarrow> bool) \<Rightarrow> 'a list \<Rightarrow> 'a list" where
  "sort_by lt xs = foldr (insert_by lt) xs []"

lemma mset_insert_by [simp]: "mset (insert_by lt x xs) = add_mset x (mset xs)"
  by (induction xs) auto

lemma set_insert_by [simp]: "set (insert_by lt x xs) = insert x (set xs)"
  by (induction xs) auto

lemma sorted_insert_by:
  assumes "strict_weak lt" "sorted_wrt (\<lambda>a b. \<not> lt b a) xs"
  shows "sorted_wrt (\<lambda>a b. \<not> lt b a) (insert_by lt x xs)"
  using assms(2)
proof (induction xs)
  case (Cons y ys)
  have tr: "\<not> lt a b \<Longrightarrow> \<not> lt b c \<Longrightarrow> \<not> lt a c" for a b c using assms(1) unfolding strict_weak_def by blast
  have as: "lt a b \<Longrightarrow> \<not> lt b a" for a b using assms(1) unfolding strict_weak_def by blast
  show ?case
  proof (cases "lt y x")
    case True
    with Cons as show ?thesis by auto
  next
    case False
    have "\<not> lt z x" if "z \<in> set ys" for z
      using tr [of z y x] Cons.prems False that by simp
    with Cons False show ?thesis by simp
  qed
qed simp

lemma sorts_sort_by: "sorts sort_by"
proof -
  have "mset (foldr (insert_by lt) xs []) = mset xs" for lt and xs :: "SSTableMeta list"
    by (induction xs) auto
  moreover have "sorted_wrt (\<lambda>a b. \<not> lt b a) (foldr (insert_by lt) xs [])" if "strict_weak lt" for lt and xs :: "SSTableMeta list"
    using that by (induction xs) (auto intro: sorted_insert_by)
  ultimately show ?thesis by (simp add: sorts_def sort_by_def)
qed

lemma strict_weak_smallest_key: "strict_weak (\<lambda>a b. sm_smallest_key a < sm_smallest_key b)"
  by (auto simp: strict_weak_def not_less intro: less_trans order_trans)

lemma GetFilesAtLevel_mset:
  "sorts srt \<Longrightarrow> mset (GetFilesAtLevel srt cm level) = mset (filter (\<lambda>f. sm_level f = level) (cm_files cm))"
  unfolding GetFilesAtLevel_def by (rule sortsD(1) [OF _ strict_weak_smallest_key])

lemma GetFilesAtLevel_set:
  "sorts srt \<Longrightarrow> set (GetFilesAtLevel srt cm level) = {f \<in> set (cm_files cm). sm_level f = level}"
  using arg_cong [OF GetFilesAtLevel_mset, of srt set_mset cm level] by simp

subsection \<open>Selection\<close>

lemma foldl_min_key:
  "(\<forall>f \<in> set fs. foldl (\<lambda>lo f. if g f < lo then g f else lo) a fs \<le> g f)
     \<and> foldl (\<lambda>lo f. if g f < lo then g f else lo) a fs \<le> (a :: key)"
proof (induction fs arbitrary: a)
  case (Cons f fs)
  from Cons [of "if g f < a then g f else a"] show ?case
    by (cases "g f < a") (auto simp: not_less intro: order_trans [OF _ less_imp_le] order_trans)
qed simp

lemma foldl_max_key:
  "(\<forall>f \<in> set fs. g f \<le> foldl (\<lambda>hi f. if g f > hi then g f else hi) a fs)
     \<and> (a :: key) \<le> foldl (\<lambda>hi f. if g f > hi then g f else hi) a fs"
proof (induction fs arbitrary: a)
  case (Cons f fs)
  from Cons [of "if g f > a then g f else a"] show ?case
    by (cases "g f > a") (auto simp: not_less intro: order_trans [OF less_imp_le] order_trans)
qed simp

lemma table_file_exists:
  assumes "sorted_wrt (<) (map be_key es)" "\<forall>e \<in> set es. be_tombstone e \<longrightarrow> be_value e = []"
    "sum_list (map EncodedSize es) \<le> 2 ^ 28"
  shows "\<exists>bs. \<forall>fs p. fs p = Some bs \<longrightarrow> table_file fs p es"
  using table_ok_small [OF assms(3)] assms(1,2) by (auto simp: table_file_def)

subsection \<open>Properties\<close>

text \<open>C8. Compaction is an exact merge: on a working disk, reading any sorted input files with different
  sequence numbers and merging them through the priority queue writes files which, in order, hold
  exactly the entries of the reference: each key once, with the version of the highest sequence number,
  tombstones left out when the target is the last level, and the empty key never. Every catalogue entry
  describes its file, and no other file changes. Entries are up to 128 MB.\<close>

theorem MergeFiles_equals_reference:
  assumes "io_fine io" and "list_all2 (table_file fs) (map sm_filepath inputs) datas"
    and "distinct (map sm_sequence_number inputs)"
    and "\<forall>es \<in> set datas. \<forall>e \<in> set es. EncodedSize e \<le> 2 ^ 27" and "length (concat datas) < 2 ^ 64"
  shows "\<exists>fs' cm' metas stats' B. MergeFiles io mt fs cm inputs target stats = Some (fs', cm', Value (metas, stats'))
    \<and> list_all2 (meta_describes fs' target) metas B
    \<and> concat B = merge_reference (target = cm_max_level cm - 1) inputs datas
    \<and> (\<forall>q. q \<notin> sm_filepath ` set metas \<longrightarrow> fs' q = fs q)"
  using MergeFiles_fine [OF assms, of mt cm target stats] merge_reference_unique by metis

theorem MergeFiles_equals_reference_witness:
  "\<exists>fs fs' cm' metas stats' B. MergeFiles io_ideal (\<lambda>_. 0) fs (CompactionManager_new ''d'' 7)
      [\<lparr>sm_filepath = ''x'', sm_level = 0, sm_smallest_key = ''a'', sm_largest_key = ''a'', sm_file_size_bytes = 0, sm_sequence_number = 1\<rparr>,
       \<lparr>sm_filepath = ''y'', sm_level = 0, sm_smallest_key = ''a'', sm_largest_key = ''b'', sm_file_size_bytes = 0, sm_sequence_number = 2\<rparr>]
      1 CompactionStats_new = Some (fs', cm', Value (metas, stats'))
    \<and> list_all2 (meta_describes fs' 1) metas B
    \<and> concat B = [\<lparr>be_key = ''a'', be_value = [2], be_tombstone = False\<rparr>, \<lparr>be_key = ''b'', be_value = [], be_tombstone = True\<rparr>]"
proof -
  let ?x = "[\<lparr>be_key = ''a'', be_value = [1 :: byte], be_tombstone = False\<rparr>]"
  let ?y = "[\<lparr>be_key = ''a'', be_value = [2 :: byte], be_tombstone = False\<rparr>, \<lparr>be_key = ''b'', be_value = [], be_tombstone = True\<rparr>]"
  let ?in = "[\<lparr>sm_filepath = ''x'', sm_level = 0, sm_smallest_key = ''a'', sm_largest_key = ''a'', sm_file_size_bytes = 0, sm_sequence_number = 1\<rparr>,
       \<lparr>sm_filepath = ''y'', sm_level = 0, sm_smallest_key = ''a'', sm_largest_key = ''b'', sm_file_size_bytes = 0, sm_sequence_number = 2\<rparr>]"
  obtain bx where bx: "\<forall>fs p. fs p = Some bx \<longrightarrow> table_file fs p ?x"
    using table_file_exists [of ?x] by (auto simp: EncodedSize_def)
  obtain bys where bys: "\<forall>fs p. fs p = Some bys \<longrightarrow> table_file fs p ?y"
    using table_file_exists [of ?y] by (auto simp: EncodedSize_def)
  have "list_all2 (table_file [''x'' \<mapsto> bx, ''y'' \<mapsto> bys]) (map sm_filepath ?in) [?x, ?y]"
    by (simp add: bx bys)
  from MergeFiles_equals_reference [OF io_fine_ideal this, of "\<lambda>_. 0" "CompactionManager_new ''d'' 7" 1 CompactionStats_new]
  have "\<exists>fs' cm' metas stats' B. MergeFiles io_ideal (\<lambda>_. 0) [''x'' \<mapsto> bx, ''y'' \<mapsto> bys] (CompactionManager_new ''d'' 7) ?in 1 CompactionStats_new
      = Some (fs', cm', Value (metas, stats')) \<and> list_all2 (meta_describes fs' 1) metas B
      \<and> concat B = merge_reference (1 = cm_max_level (CompactionManager_new ''d'' 7) - 1) ?in [?x, ?y]"
    by (auto simp: EncodedSize_def)
  moreover have "merge_reference (1 = cm_max_level (CompactionManager_new ''d'' 7) - 1) ?in [?x, ?y] = ?y"
    by (simp add: merge_reference_def merged_lookup_def CompactionManager_new_def List.map_filter_simps)
  ultimately show ?thesis by metis
qed

text \<open>C9. What a compaction does to files and answers: when some level needs compaction, on a working disk,
  with selected files that are well-formed tables and names that the counter has not handed out yet, it
  succeeds. The selected files leave catalogue and disk, new files of the next level enter both and
  describe what they hold, nothing else changes, and no file stays on level 0 if that was the level
  compacted. A lookup in the new files finds the entry of the first selected source file that has the
  key, in the order of the selection, which is the order of the smallest keys and on level 0 not the order
  of age; where the sources are silent, the entry of the target files. An entry of the empty key is
  dropped, and a tombstone is dropped when the next level is the last one.\<close>

theorem RunCompaction_exact:
  assumes io: "io_fine io" and srt: "sorts srt"
    and pick: "PickCompactionLevel cm = lvl" "lvl \<noteq> - 1" "1 < cm_max_level cm"
    and sel: "SelectCompactionFiles srt cm lvl = (S, T)" "S \<noteq> []"
    and files: "list_all2 (table_file fs) (map sm_filepath (S @ T)) (ds @ dt)" "length ds = length S"
    and small: "\<forall>es \<in> set (ds @ dt). \<forall>e \<in> set es. EncodedSize e \<le> 2 ^ 27" "length (concat (ds @ dt)) < 2 ^ 64"
      "length S + length T < 2 ^ 64"
    and fresh: "\<forall>m \<in> set (S @ T). \<forall>n. sm_filepath m = output_path (cm_data_dir cm) (lvl + 1) n \<longrightarrow> n < cm_next_file_number cm"
      "unat (cm_next_file_number cm) + length (concat (ds @ dt)) < 2 ^ 64"
  shows "\<exists>fs' cm' stats metas B. RunCompaction srt io mt fs cm = Some (fs', cm', Value stats)
    \<and> cm_files cm' = filter (\<lambda>f. sm_filepath f \<notin> sm_filepath ` set (S @ T)) (cm_files cm) @ metas
    \<and> list_all2 (meta_describes fs' (lvl + 1)) metas B
    \<and> sorted_wrt (<) (map be_key (concat B))
    \<and> (\<forall>k. List.find (\<lambda>e. be_key e = k) (concat B) = compacted_lookup (lvl + 1 = cm_max_level cm - 1) ds dt k)
    \<and> (\<forall>q. q \<notin> sm_filepath ` set metas \<longrightarrow> fs' q = (if q \<in> sm_filepath ` set (S @ T) then None else fs q))
    \<and> (lvl \<noteq> 0 \<or> Level0FileCount cm' = 0)"
proof -
  obtain fs' cm' stats metas B where run: "RunCompaction srt io mt fs cm = Some (fs', cm', Value stats)"
    "exchanged lvl S T ds dt fs cm fs' cm' metas B"
    using RunCompaction_fine [OF io pick sel files small fresh, of mt] by blast
  note r = run(2) [unfolded exchanged_def]
  have "\<forall>m \<in> set metas. sm_level m = lvl + 1"
    using conjunct1 [OF conjunct2 [OF r]] by (induction rule: list_all2_induct) (auto simp: meta_describes_def)
  moreover have "set S = {f \<in> set (cm_files cm). sm_level f = 0}" if "lvl = 0"
    using sel that GetFilesAtLevel_set [OF srt, of cm 0]
    by (auto simp: SelectCompactionFiles_def Let_def split: if_splits)
  ultimately have "lvl \<noteq> 0 \<or> Level0FileCount cm' = 0"
    unfolding Level0FileCount_def conjunct1 [OF r] by (auto simp: filter_empty_conv)
  with run(1) r show ?thesis
    by (intro exI [of _ fs'] exI [of _ cm'] exI [of _ stats] exI [of _ metas] exI [of _ B] conjI) (elim conjE; assumption)+
qed

theorem RunCompaction_exact_witness:
  "\<exists>fs fs' cm' stats B. RunCompaction sort_by io_ideal (\<lambda>_. 0) fs
     \<lparr>cm_data_dir = ''d'', cm_max_level = 7, cm_files = map (\<lambda>p.
        \<lparr>sm_filepath = [p], sm_level = 0, sm_smallest_key = ''a'', sm_largest_key = ''a'', sm_file_size_bytes = 0, sm_sequence_number = 1\<rparr>)
        ''wxyz'', cm_next_file_number = 1\<rparr> = Some (fs', cm', Value stats)
     \<and> list_all2 (meta_describes fs' 1) (cm_files cm') B
     \<and> List.find (\<lambda>e. be_key e = ''a'') (concat B) = Some \<lparr>be_key = ''a'', be_value = [1], be_tombstone = False\<rparr>"
proof -
  let ?m = "\<lambda>p. \<lparr>sm_filepath = [p], sm_level = 0, sm_smallest_key = ''a'', sm_largest_key = ''a'', sm_file_size_bytes = 0, sm_sequence_number = 1\<rparr>"
  let ?cm = "\<lparr>cm_data_dir = ''d'', cm_max_level = 7, cm_files = map ?m ''wxyz'', cm_next_file_number = 1\<rparr> :: CompactionManager"
  let ?e = "[\<lparr>be_key = ''a'', be_value = [1 :: byte], be_tombstone = False\<rparr>]"
  obtain b where b: "\<forall>fs p. fs p = Some b \<longrightarrow> table_file fs p ?e"
    using table_file_exists [of ?e] by (auto simp: EncodedSize_def)
  let ?fs = "\<lambda>_ :: path. Some b"
  have pick: "PickCompactionLevel ?cm = 0" by (simp add: PickCompactionLevel_def kLevel0CompactionTrigger_def)
  have sel: "SelectCompactionFiles sort_by ?cm 0 = (map ?m ''wxyz'', [])"
    by (simp add: SelectCompactionFiles_def GetFilesAtLevel_def sort_by_def Let_def)
  have files: "list_all2 (table_file ?fs) (map sm_filepath (map ?m ''wxyz'' @ [])) ([?e, ?e, ?e, ?e] @ [])" by (simp add: b)
  have fresh: "\<forall>m \<in> set (map ?m ''wxyz'' @ []). \<forall>n. sm_filepath m = output_path (cm_data_dir ?cm) (0 + 1) n \<longrightarrow> n < cm_next_file_number ?cm"
    by (simp add: output_path_def)
  obtain fs' cm' stats metas B where r: "RunCompaction sort_by io_ideal (\<lambda>_. 0) ?fs ?cm = Some (fs', cm', Value stats)"
    "cm_files cm' = filter (\<lambda>f. sm_filepath f \<notin> sm_filepath ` set (map ?m ''wxyz'' @ [])) (cm_files ?cm) @ metas"
    "list_all2 (meta_describes fs' (0 + 1)) metas B"
    "\<forall>k. List.find (\<lambda>e. be_key e = k) (concat B) = compacted_lookup (0 + 1 = cm_max_level ?cm - 1) [?e, ?e, ?e, ?e] [] k"
    using RunCompaction_exact [OF io_fine_ideal sorts_sort_by pick _ _ sel _ files _ _ _ _ fresh, of "\<lambda>_. 0"]
    by (auto simp: EncodedSize_def)
  have "cm_files cm' = metas" using r(2) by simp
  moreover have "List.find (\<lambda>e. be_key e = ''a'') (concat B) = Some (hd ?e)" using r(4) by (simp add: compacted_lookup_def)
  ultimately show ?thesis using r(1,3) by auto
qed

text \<open>C25. File selection leaves no overlap behind: the sources are the files of the level to compact, all
  of them on level 0 and the one with the smallest first key elsewhere, the targets are files of the next
  level, and every file of the next level that is not selected has a key range disjoint from the range of
  every selected source.\<close>

theorem SelectCompactionFiles_complete:
  assumes srt: "sorts srt" and sel: "SelectCompactionFiles srt cm lvl = (S, T)"
  shows "set S \<subseteq> {f \<in> set (cm_files cm). sm_level f = lvl}
    \<and> (lvl = 0 \<longrightarrow> mset S = mset (filter (\<lambda>f. sm_level f = 0) (cm_files cm)))
    \<and> (lvl \<noteq> 0 \<longrightarrow> length S = (if \<exists>f \<in> set (cm_files cm). sm_level f = lvl then 1 else 0)
         \<and> (\<forall>s \<in> set S. \<forall>f \<in> set (cm_files cm). sm_level f = lvl \<longrightarrow> sm_smallest_key s \<le> sm_smallest_key f))
    \<and> set T \<subseteq> {f \<in> set (cm_files cm). sm_level f = lvl + 1}
    \<and> (\<forall>f \<in> set (cm_files cm). sm_level f = lvl + 1 \<longrightarrow> f \<notin> set T \<longrightarrow>
         (\<forall>s \<in> set S. \<not> OverlapsWith f (sm_smallest_key s) (sm_largest_key s)))"
proof -
  let ?src = "GetFilesAtLevel srt cm lvl"
  define inputs where "inputs = (if lvl = 0 then ?src else [hd ?src])"
  define lo where "lo = foldl (\<lambda>lo f. if sm_smallest_key f < lo then sm_smallest_key f else lo) (sm_smallest_key (hd inputs)) inputs"
  define hi where "hi = foldl (\<lambda>hi f. if sm_largest_key f > hi then sm_largest_key f else hi) (sm_largest_key (hd inputs)) inputs"
  note src = GetFilesAtLevel_set [OF srt, of cm lvl] and tgt = GetFilesAtLevel_set [OF srt, of cm "lvl + 1"]
  show ?thesis
  proof (cases "?src = []")
    case True
    with sel have "S = []" "T = []" by (auto simp: SelectCompactionFiles_def)
    moreover have "\<not> (\<exists>f \<in> set (cm_files cm). sm_level f = lvl)" using src True by auto
    ultimately show ?thesis using True GetFilesAtLevel_mset [OF srt, of cm 0] by auto
  next
    case False
    then have some: "\<exists>f \<in> set (cm_files cm). sm_level f = lvl" using src by (cases ?src) auto
    from False have "SelectCompactionFiles srt cm lvl = (inputs, filter (\<lambda>f. OverlapsWith f lo hi) (GetFilesAtLevel srt cm (lvl + 1)))"
      unfolding SelectCompactionFiles_def Let_def lo_def hi_def inputs_def by (simp only: if_False)
    then have S: "S = inputs" and T: "T = filter (\<lambda>f. OverlapsWith f lo hi) (GetFilesAtLevel srt cm (lvl + 1))"
      using sel by (metis prod.inject)+
    have sub: "set inputs \<subseteq> set ?src" using False by (simp add: inputs_def)
    have "sorted_wrt (\<lambda>a b. \<not> sm_smallest_key b < sm_smallest_key a) ?src"
      unfolding GetFilesAtLevel_def by (rule sortsD(2) [OF srt strict_weak_smallest_key])
    then have first: "\<forall>f \<in> set ?src. sm_smallest_key (hd ?src) \<le> sm_smallest_key f"
      using False by (cases ?src) auto
    have "\<not> OverlapsWith f (sm_smallest_key s) (sm_largest_key s)" if "\<not> OverlapsWith f lo hi" "s \<in> set inputs" for f s
      using that foldl_min_key [of inputs sm_smallest_key] foldl_max_key [of inputs sm_largest_key]
      unfolding OverlapsWith_def lo_def hi_def by (meson le_less_trans less_le_trans)
    then show ?thesis
      using src tgt sub first GetFilesAtLevel_mset [OF srt, of cm 0] unfolding S T
      by (auto simp: inputs_def some split: if_splits)
  qed
qed

theorem SelectCompactionFiles_complete_witness:
  "\<exists>S T. SelectCompactionFiles sort_by
      \<lparr>cm_data_dir = ''d'', cm_max_level = 7, cm_files =
         [\<lparr>sm_filepath = ''z'', sm_level = 2, sm_smallest_key = ''b'', sm_largest_key = ''c'', sm_file_size_bytes = 0, sm_sequence_number = 1\<rparr>,
          \<lparr>sm_filepath = ''y'', sm_level = 2, sm_smallest_key = ''d'', sm_largest_key = ''e'', sm_file_size_bytes = 0, sm_sequence_number = 1\<rparr>,
          \<lparr>sm_filepath = ''x'', sm_level = 1, sm_smallest_key = ''a'', sm_largest_key = ''b'', sm_file_size_bytes = 0, sm_sequence_number = 1\<rparr>],
       cm_next_file_number = 1\<rparr> 1 = (S, T)
    \<and> length S = 1 \<and> map sm_filepath T = [''z'']
    \<and> (\<forall>s \<in> set S. \<not> OverlapsWith \<lparr>sm_filepath = ''y'', sm_level = 2, sm_smallest_key = ''d'', sm_largest_key = ''e'', sm_file_size_bytes = 0, sm_sequence_number = 1\<rparr>
         (sm_smallest_key s) (sm_largest_key s))"
proof -
  let ?x = "\<lparr>sm_filepath = ''x'', sm_level = 1, sm_smallest_key = ''a'', sm_largest_key = ''b'', sm_file_size_bytes = 0, sm_sequence_number = 1\<rparr>"
  let ?y = "\<lparr>sm_filepath = ''y'', sm_level = 2, sm_smallest_key = ''d'', sm_largest_key = ''e'', sm_file_size_bytes = 0, sm_sequence_number = 1\<rparr>"
  let ?z = "\<lparr>sm_filepath = ''z'', sm_level = 2, sm_smallest_key = ''b'', sm_largest_key = ''c'', sm_file_size_bytes = 0, sm_sequence_number = 1\<rparr>"
  let ?cm = "\<lparr>cm_data_dir = ''d'', cm_max_level = 7, cm_files = [?z, ?y, ?x], cm_next_file_number = 1\<rparr> :: CompactionManager"
  have sel: "SelectCompactionFiles sort_by ?cm 1 = ([?x], [?z])"
    by (simp add: SelectCompactionFiles_def GetFilesAtLevel_def sort_by_def Let_def OverlapsWith_def)
  from SelectCompactionFiles_complete [OF sorts_sort_by sel] sel show ?thesis by simp
qed

subsection \<open>Versions of a key on level 0\<close>

lemma ex_list_all2: "\<forall>x \<in> set xs. \<exists>y. P x y \<Longrightarrow> \<exists>ys. list_all2 P xs ys"
proof (induction xs)
  case (Cons x xs)
  then obtain y ys where "P x y" "list_all2 P xs ys" by auto
  then have "list_all2 P (x # xs) (y # ys)" by simp
  then show ?case by blast
qed (simp add: exI [of _ "[]"])

lemma list_all2_members: "list_all2 P xs ys \<Longrightarrow> (\<forall>x \<in> set xs. \<exists>y \<in> set ys. P x y) \<and> (\<forall>y \<in> set ys. \<exists>x \<in> set xs. P x y)"
  by (induction rule: list_all2_induct) auto

lemma length_concat_bound: "\<forall>x \<in> set xss. length x \<le> b \<Longrightarrow> length (concat xss) \<le> length xss * b"
  by (induction xss) fastforce+

text \<open>A catalogue with nothing but enough files on level 0 is compacted as a whole.\<close>

lemma level0_selection:
  assumes srt: "sorts srt" and lev: "\<forall>m \<in> set (cm_files cm). sm_level m = 0" and n: "kLevel0CompactionTrigger \<le> length (cm_files cm)"
  shows "PickCompactionLevel cm = 0"
    and "SelectCompactionFiles srt cm 0 = (srt (\<lambda>a b. sm_smallest_key a < sm_smallest_key b) (cm_files cm), [])"
    and "srt (\<lambda>a b. sm_smallest_key a < sm_smallest_key b) (cm_files cm) \<noteq> []"
    and "set (srt (\<lambda>a b. sm_smallest_key a < sm_smallest_key b) (cm_files cm)) = set (cm_files cm)"
    and "length (srt (\<lambda>a b. sm_smallest_key a < sm_smallest_key b) (cm_files cm)) = length (cm_files cm)"
proof -
  let ?lt = "\<lambda>a b. sm_smallest_key a < sm_smallest_key b"
  have f: "filter (\<lambda>f. sm_level f = 0) (cm_files cm) = cm_files cm" "filter (\<lambda>f. sm_level f = 1) (cm_files cm) = []"
    using lev by (auto simp: filter_id_conv filter_empty_conv)
  note ms = sortsD(1) [OF srt strict_weak_smallest_key]
  show "PickCompactionLevel cm = 0" using f n by (simp add: PickCompactionLevel_def)
  show len: "length (srt ?lt (cm_files cm)) = length (cm_files cm)" using ms [of "cm_files cm"] by (metis size_mset)
  then show ne: "srt ?lt (cm_files cm) \<noteq> []" using n by (auto simp: kLevel0CompactionTrigger_def)
  show "set (srt ?lt (cm_files cm)) = set (cm_files cm)" using ms [of "cm_files cm"] by (metis mset_eq_setD)
  have "srt ?lt [] = []" using ms [of "[]"] by simp
  with f ne show "SelectCompactionFiles srt cm 0 = (srt ?lt (cm_files cm), [])"
    by (simp add: SelectCompactionFiles_def GetFilesAtLevel_def Let_def)
qed

text \<open>C36. A compaction of level 0 can bring back an old version: of two files with versions of a key, the one
  with the smallest first key wins, also when it is the older one. With at least four files on level 0
  and none below, if the older file starts before all others, the compaction succeeds and the only version
  of the key that it leaves is the older one.\<close>

theorem RunCompaction_keeps_stale_version:
  assumes io: "io_fine io" and srt: "sorts srt" and ml: "1 < cm_max_level cm"
    and cat: "cm_files cm = older # newer # others" "\<forall>m \<in> set (cm_files cm). sm_level m = 0"
      "kLevel0CompactionTrigger \<le> length (cm_files cm)" "length (cm_files cm) < 2 ^ 31"
    and files: "list_all2 (table_file fs) (map sm_filepath (cm_files cm)) (d1 # d2 # ds)"
      "\<forall>d \<in> set (d1 # d2 # ds). length d \<le> 2 ^ 31 \<and> (\<forall>e \<in> set d. EncodedSize e \<le> 2 ^ 27)"
    and fresh: "\<forall>m \<in> set (cm_files cm). \<forall>n. sm_filepath m \<noteq> output_path (cm_data_dir cm) 1 n" "unat (cm_next_file_number cm) < 2 ^ 63"
    and versions: "sm_sequence_number older < sm_sequence_number newer" "List.find (\<lambda>e. be_key e = k) d1 = Some v1"
      "List.find (\<lambda>e. be_key e = k) d2 = Some v2" "k \<noteq> []" "\<not> be_tombstone v1"
    and start: "\<forall>m \<in> set (newer # others). sm_smallest_key older < sm_smallest_key m"
  shows "\<exists>fs' cm' stats B. RunCompaction srt io mt fs cm = Some (fs', cm', Value stats)
    \<and> list_all2 (meta_describes fs' 1) (cm_files cm') B
    \<and> List.find (\<lambda>e. be_key e = k) (concat B) = Some v1"
proof -
  let ?lt = "\<lambda>a b. sm_smallest_key a < sm_smallest_key b" and ?D = "set (d1 # d2 # ds)"
  note sel = level0_selection [OF srt cat(2,3)]
  obtain S where S: "srt ?lt (cm_files cm) = older # S" "set S \<subseteq> set (cm_files cm)"
  proof -
    obtain s S where sS: "srt ?lt (cm_files cm) = s # S" using sel(3) by (cases "srt ?lt (cm_files cm)") auto
    have "sorted_wrt (\<lambda>a b. \<not> ?lt b a) (s # S)" using sortsD(2) [OF srt strict_weak_smallest_key, of "cm_files cm"] sS by simp
    moreover have "older \<in> set (s # S)" "s \<in> set (cm_files cm)" using sel(4) sS cat(1) by auto
    ultimately have "s = older" using start cat(1) by auto
    with sS sel(4) that show thesis by auto
  qed
  have tf: "table_file fs (sm_filepath older) d1" using files(1) cat(1) by simp
  have "\<forall>m \<in> set (cm_files cm). \<exists>d. table_file fs (sm_filepath m) d \<and> d \<in> ?D"
    using list_all2_members [OF files(1) [unfolded list_all2_map1]] by blast
  with S(2) have "\<forall>m \<in> set S. \<exists>d. table_file fs (sm_filepath m) d \<and> d \<in> ?D" by blast
  then obtain dS where dS: "list_all2 (\<lambda>m d. table_file fs (sm_filepath m) d \<and> d \<in> ?D) S dS"
    using ex_list_all2 [of S "\<lambda>m d. table_file fs (sm_filepath m) d \<and> d \<in> ?D"] by blast
  have in_D: "set (d1 # dS) \<subseteq> ?D" using list_all2_members [OF dS] by auto
  have len: "length dS = length S" "Suc (length S) = length (cm_files cm)" using list_all2_lengthD [OF dS] sel(5) S(1) by simp_all
  have c: "length (concat (d1 # dS)) < 2 ^ 63"
    using length_concat_bound [of "d1 # dS" "2 ^ 31"] in_D files(2) len cat(4) by fastforce
  have t: "list_all2 (table_file fs) (map sm_filepath ((older # S) @ [])) ((d1 # dS) @ [])"
    using tf dS by (auto simp: list_all2_map1 elim: list_all2_mono)
  have fr: "\<forall>m \<in> set ((older # S) @ []). \<forall>n. sm_filepath m = output_path (cm_data_dir cm) (0 + 1) n \<longrightarrow> n < cm_next_file_number cm"
    using fresh(1) S(2) cat(1) by auto
  have "SelectCompactionFiles srt cm 0 = (older # S, [])" using sel(2) S(1) by simp
  moreover have "\<forall>es \<in> set ((d1 # dS) @ []). \<forall>e \<in> set es. EncodedSize e \<le> 2 ^ 27" using in_D files(2) by auto
  ultimately have "\<exists>fs' cm' stats metas B. RunCompaction srt io mt fs cm = Some (fs', cm', Value stats)
      \<and> exchanged 0 (older # S) [] (d1 # dS) [] fs cm fs' cm' metas B"
    using c len cat(4) fresh(2) by (intro RunCompaction_fine [OF io sel(1) _ ml _ _ t _ _ _ _ fr]) simp_all
  then
  obtain fs' cm' stats metas B where run: "RunCompaction srt io mt fs cm = Some (fs', cm', Value stats)"
    "exchanged 0 (older # S) [] (d1 # dS) [] fs cm fs' cm' metas B" by blast
  then have r: "cm_files cm' = filter (\<lambda>f. sm_filepath f \<notin> sm_filepath ` set (older # S)) (cm_files cm) @ metas"
    "list_all2 (meta_describes fs' 1) metas B"
    "\<forall>k. List.find (\<lambda>e. be_key e = k) (concat B) = compacted_lookup (1 = cm_max_level cm - 1) (d1 # dS) [] k"
    by (simp_all add: exchanged_def)
  have "cm_files cm' = metas" using r(1) sel(4) S(1) by (auto simp: filter_empty_conv)
  moreover have "compacted_lookup b (d1 # dS) [] k = Some v1" for b using versions by (simp add: compacted_lookup_def)
  ultimately show ?thesis using run(1) r by auto
qed

theorem RunCompaction_keeps_stale_version_witness:
  "\<exists>fs fs' cm' stats B. RunCompaction sort_by io_ideal (\<lambda>_. 0) fs
     \<lparr>cm_data_dir = ''d'', cm_max_level = 7, cm_files =
        \<lparr>sm_filepath = ''w'', sm_level = 0, sm_smallest_key = ''a'', sm_largest_key = ''k'', sm_file_size_bytes = 0, sm_sequence_number = 1\<rparr>
        # map (\<lambda>p. \<lparr>sm_filepath = [p], sm_level = 0, sm_smallest_key = ''k'', sm_largest_key = ''k'', sm_file_size_bytes = 0, sm_sequence_number = 2\<rparr>)
            ''xyz'', cm_next_file_number = 1\<rparr> = Some (fs', cm', Value stats)
     \<and> list_all2 (meta_describes fs' 1) (cm_files cm') B
     \<and> List.find (\<lambda>e. be_key e = ''k'') (concat B) = Some \<lparr>be_key = ''k'', be_value = [1], be_tombstone = False\<rparr>"
proof -
  let ?m = "\<lambda>p. \<lparr>sm_filepath = [p], sm_level = 0, sm_smallest_key = ''k'', sm_largest_key = ''k'', sm_file_size_bytes = 0, sm_sequence_number = 2\<rparr>"
  let ?o = "\<lparr>sm_filepath = ''w'', sm_level = 0, sm_smallest_key = ''a'', sm_largest_key = ''k'', sm_file_size_bytes = 0, sm_sequence_number = 1\<rparr>"
  let ?cm = "\<lparr>cm_data_dir = ''d'', cm_max_level = 7, cm_files = ?o # map ?m ''xyz'', cm_next_file_number = 1\<rparr> :: CompactionManager"
  let ?d1 = "[\<lparr>be_key = ''a'', be_value = [] :: bytes, be_tombstone = False\<rparr>, \<lparr>be_key = ''k'', be_value = [1], be_tombstone = False\<rparr>]"
  let ?d2 = "[\<lparr>be_key = ''k'', be_value = [2 :: byte], be_tombstone = False\<rparr>]"
  obtain b1 where b1: "\<forall>fs p. fs p = Some b1 \<longrightarrow> table_file fs p ?d1"
    using table_file_exists [of ?d1] by (auto simp: EncodedSize_def)
  obtain b2 where b2: "\<forall>fs p. fs p = Some b2 \<longrightarrow> table_file fs p ?d2"
    using table_file_exists [of ?d2] by (auto simp: EncodedSize_def)
  let ?fs = "\<lambda>p :: path. Some (if p = ''w'' then b1 else b2)"
  have files: "list_all2 (table_file ?fs) (map sm_filepath (cm_files ?cm)) [?d1, ?d2, ?d2, ?d2]" using b1 b2 by simp
  have cat: "cm_files ?cm = ?o # ?m (CHR ''x'') # map ?m ''yz''" by simp
  show ?thesis
    by (rule exI [of _ ?fs], rule RunCompaction_keeps_stale_version
          [OF io_fine_ideal sorts_sort_by _ cat _ _ _ files, of "''k''" _ "\<lparr>be_key = ''k'', be_value = [2], be_tombstone = False\<rparr>"])
      (simp_all add: kLevel0CompactionTrigger_def EncodedSize_def output_path_def)
qed

end
