(* ===== verification/Storage_Engine.thy ===== *)
theory Storage_Engine
  imports Compaction_Manager Block_Cache Checkpoint_Manager Recovery_Manager
begin

text \<open>
  \<^verbatim>\<open>src/storage/engine/storage_engine.{h,cpp}\<close>: the engine composes log, memtables, table files,
  compaction and checkpoints. An operation takes and returns the file system and the engine; the outer
  option is a fault of a component, a null pointer or an exception. A function that takes its locks more
  than once is the composition of one definition per critical section, so that a state in between can be
  spoken about. The compaction thread is one operation, the body of its loop after a wake-up; the
  condition variable and the five-second timeout only decide when it runs. Messages to the error stream
  are left out, and so is the cache key that the lookup computes and does not use.
\<close>

record StorageConfig =
  cfg_data_dir :: string
  cfg_wal_dir :: string
  cfg_sst_dir :: string
  cfg_memtable_size_bytes :: nat
  cfg_block_cache_mb :: u64

definition StorageConfig_default :: StorageConfig where
  "StorageConfig_default = \<lparr>cfg_data_dir = ''/tmp/vectordb_data'', cfg_wal_dir = ''/tmp/vectordb_data/wal'',
     cfg_sst_dir = ''/tmp/vectordb_data/sst'', cfg_memtable_size_bytes = 64 * 1024 * 1024, cfg_block_cache_mb = 128\<rparr>"

text \<open>The log and the memtables are owned through pointers that may be null.\<close>

record StorageEngine =
  se_config :: StorageConfig
  se_wal :: "WAL option"
  se_active_memtable :: "MemTable option"
  se_immutable_memtable :: "MemTable option"
  se_compaction_manager :: CompactionManager
  se_block_cache :: BlockCache
  se_checkpoint_manager :: CheckpointManager
  se_shutdown :: bool
  se_wal_writes :: u64
  se_memtable_flushes :: u64
  se_next_sst_sequence :: u64

definition StorageEngine_new :: "StorageConfig \<Rightarrow> StorageEngine" where
  "StorageEngine_new config =
     \<lparr>se_config = config, se_wal = None, se_active_memtable = None, se_immutable_memtable = None,
      se_compaction_manager = CompactionManager_new (cfg_sst_dir config) kNumLevels,
      se_block_cache = BlockCache_new (cfg_block_cache_mb config),
      se_checkpoint_manager = CheckpointManager_new (cfg_data_dir config),
      se_shutdown = False, se_wal_writes = 0, se_memtable_flushes = 0, se_next_sst_sequence = 1\<rparr>"

subsection \<open>Flushing\<close>

text \<open>The section under the memtable lock: the memtable to flush, if it is not empty.\<close>

definition Flush_swap :: "StorageEngine \<Rightarrow> (StorageEngine \<times> MemTable option) option" where
  "Flush_swap e =
     do { active \<leftarrow> se_active_memtable e;
          empty \<leftarrow> MemTable_IsEmpty active;
          if empty then Some (e, None)
          else Some (e\<lparr>se_active_memtable := Some MemTable_new, se_immutable_memtable := None\<rparr>, Some active) }"

definition sst_path :: "StorageConfig \<Rightarrow> u64 \<Rightarrow> path" where
  "sst_path config seq = cfg_sst_dir config @ ''/level0_'' @ to_string_u64 seq @ ''.sst''"

text \<open>The key range of the file just written, read back from it; empty keys when that fails.\<close>

definition flushed_range :: "io \<Rightarrow> fs \<Rightarrow> path \<Rightarrow> (key \<times> key) option" where
  "flushed_range io fs p =
     do { reader_result \<leftarrow> SSTableReader_Open io fs p;
          case reader_result of
            Error _ \<Rightarrow> Some ('''', '''')
          | Value reader \<Rightarrow>
              do { entries_or \<leftarrow> SSTableReader_ReadAll io fs reader;
                   case entries_or of
                     Error _ \<Rightarrow> Some ('''', '''')
                   | Value entries \<Rightarrow> if entries = [] then Some ('''', '''')
                                      else Some (be_key (hd entries), be_key (last entries)) } }"

text \<open>Everything behind the swap.\<close>

definition Flush_write :: "io \<Rightarrow> fs \<Rightarrow> StorageEngine \<Rightarrow> MemTable \<Rightarrow> (fs \<times> StorageEngine \<times> Status) option" where
  "Flush_write io fs e to_flush =
     do { wal \<leftarrow> se_wal e;
          let flush_lsn = WAL_current_sequence_number wal;
          let seq = se_next_sst_sequence e;
          let e = e\<lparr>se_next_sst_sequence := seq + 1\<rparr>;
          let p = sst_path (se_config e) seq;
          iter \<leftarrow> MemTable_Begin to_flush;
          (fs, status) \<leftarrow> SSTableWriter_Write io fs p (sl_heap (mem_table to_flush)) iter;
          if \<not> Status_IsOk status then Some (fs, e, status)
          else do {
            written \<leftarrow> fs p;
            (lo, hi) \<leftarrow> flushed_range io fs p;
            let meta = \<lparr>sm_filepath = p, sm_level = 0, sm_smallest_key = lo, sm_largest_key = hi,
                        sm_file_size_bytes = to_u64 (length written), sm_sequence_number = seq\<rparr>;
            case AddFile (se_compaction_manager e) meta of (cm, add_status) \<Rightarrow>
              if \<not> Status_IsOk add_status then Some (fs, e\<lparr>se_compaction_manager := cm\<rparr>, add_status)
              else let e = e\<lparr>se_compaction_manager := cm\<rparr> in
                case SaveCheckpoint io fs (se_checkpoint_manager e)
                       \<lparr>cp_last_flushed_lsn = flush_lsn, cp_sstables = AllFiles cm\<rparr> of (fs, cp_status) \<Rightarrow>
                  if \<not> Status_IsOk cp_status then Some (fs, e, cp_status)
                  else Some (fs, e\<lparr>se_immutable_memtable := None,
                                  se_memtable_flushes := se_memtable_flushes e + 1\<rparr>, Status_Ok) } }"

definition FlushMemTable :: "io \<Rightarrow> fs \<Rightarrow> StorageEngine \<Rightarrow> (fs \<times> StorageEngine \<times> Status) option" where
  "FlushMemTable io fs e =
     do { (e, swapped) \<leftarrow> Flush_swap e;
          case swapped of
            None \<Rightarrow> Some (fs, e, Status_Ok)
          | Some to_flush \<Rightarrow> Flush_write io fs e to_flush }"

subsection \<open>Writing\<close>

definition WriteEntry_log ::
  "io \<Rightarrow> fs \<Rightarrow> StorageEngine \<Rightarrow> byte \<Rightarrow> key \<Rightarrow> bytes \<Rightarrow> (fs \<times> StorageEngine \<times> Status) option" where
  "WriteEntry_log io fs e type k v =
     do { wal \<leftarrow> se_wal e;
          case WAL_Append io fs wal \<lparr>we_seq = 0, we_type = type, we_key = k, we_value = v\<rparr> of ((fs, wal), result) \<Rightarrow>
            let e = e\<lparr>se_wal := Some wal\<rparr> in
            (case result of
               Error st \<Rightarrow> Some (fs, e, st)
             | Value _ \<Rightarrow> Some (fs, e\<lparr>se_wal_writes := se_wal_writes e + 1\<rparr>, Status_Ok)) }"

definition WriteEntry_apply ::
  "(nat \<Rightarrow> u32) \<Rightarrow> StorageEngine \<Rightarrow> byte \<Rightarrow> key \<Rightarrow> bytes \<Rightarrow> (StorageEngine \<times> bool) option" where
  "WriteEntry_apply mt e type k v =
     do { active \<leftarrow> se_active_memtable e;
          active \<leftarrow> (if type = kPut then MemTable_Put mt active k v else MemTable_Delete mt active k);
          Some (e\<lparr>se_active_memtable := Some active\<rparr>,
                MemTable_ApproximateMemoryUsage active \<ge> cfg_memtable_size_bytes (se_config e)) }"

definition WriteEntry ::
  "io \<Rightarrow> (nat \<Rightarrow> u32) \<Rightarrow> fs \<Rightarrow> StorageEngine \<Rightarrow> byte \<Rightarrow> key \<Rightarrow> bytes \<Rightarrow> (fs \<times> StorageEngine \<times> Status) option" where
  "WriteEntry io mt fs e type k v =
     do { (fs, e, st) \<leftarrow> WriteEntry_log io fs e type k v;
          if \<not> Status_IsOk st then Some (fs, e, st)
          else do {
            (e, needs_flush) \<leftarrow> WriteEntry_apply mt e type k v;
            if needs_flush then FlushMemTable io fs e else Some (fs, e, Status_Ok) } }"

definition StorageEngine_Put ::
  "io \<Rightarrow> (nat \<Rightarrow> u32) \<Rightarrow> fs \<Rightarrow> StorageEngine \<Rightarrow> key \<Rightarrow> bytes \<Rightarrow> (fs \<times> StorageEngine \<times> Status) option" where
  "StorageEngine_Put io mt fs e k v = WriteEntry io mt fs e kPut k v"

definition StorageEngine_Delete ::
  "io \<Rightarrow> (nat \<Rightarrow> u32) \<Rightarrow> fs \<Rightarrow> StorageEngine \<Rightarrow> key \<Rightarrow> (fs \<times> StorageEngine \<times> Status) option" where
  "StorageEngine_Delete io mt fs e k = WriteEntry io mt fs e kDelete k []"

subsection \<open>Reading\<close>

definition read_order :: "SSTableMeta \<Rightarrow> SSTableMeta \<Rightarrow> bool" where
  "read_order a b = (if sm_level a \<noteq> sm_level b then sm_level a < sm_level b else sm_sequence_number a > sm_sequence_number b)"

fun search_files :: "io \<Rightarrow> fs \<Rightarrow> key \<Rightarrow> SSTableMeta list \<Rightarrow> bytes option ErrorOr option" where
  "search_files io fs k [] = Some (Value None)"
| "search_files io fs k (meta # metas) =
     (if k < sm_smallest_key meta \<or> k > sm_largest_key meta then search_files io fs k metas
      else do {
        reader_result \<leftarrow> SSTableReader_Open io fs (sm_filepath meta);
        case reader_result of
          Error st \<Rightarrow> Some (Error st)
        | Value reader \<Rightarrow>
            do { entry_result \<leftarrow> SSTableReader_Get io fs reader k;
                 case entry_result of
                   Error st \<Rightarrow> Some (Error st)
                 | Value None \<Rightarrow> search_files io fs k metas
                 | Value (Some entry) \<Rightarrow> Some (Value (if be_tombstone entry then None else Some (be_value entry))) } })"

definition GetFromSSTables :: "sorter \<Rightarrow> io \<Rightarrow> fs \<Rightarrow> StorageEngine \<Rightarrow> key \<Rightarrow> bytes option ErrorOr option" where
  "GetFromSSTables srt io fs e k = search_files io fs k (srt read_order (AllFiles (se_compaction_manager e)))"

text \<open>The section under the memtable lock.\<close>

definition Get_memtables :: "StorageEngine \<Rightarrow> key \<Rightarrow> bytes option option" where
  "Get_memtables e k =
     do { active \<leftarrow> se_active_memtable e;
          result \<leftarrow> MemTable_Get active k;
          if result \<noteq> None then Some result
          else case se_immutable_memtable e of
                 None \<Rightarrow> Some None
               | Some immutable \<Rightarrow> MemTable_Get immutable k }"

definition StorageEngine_Get :: "sorter \<Rightarrow> io \<Rightarrow> fs \<Rightarrow> StorageEngine \<Rightarrow> key \<Rightarrow> bytes option ErrorOr option" where
  "StorageEngine_Get srt io fs e k =
     do { result \<leftarrow> Get_memtables e k;
          if result \<noteq> None then Some (Value result) else GetFromSSTables srt io fs e k }"

subsection \<open>Opening, closing, compacting\<close>

definition wal_current_path :: "StorageConfig \<Rightarrow> path" where
  "wal_current_path config = cfg_wal_dir config @ ''/wal_current.log''"

definition Recover :: "io \<Rightarrow> (nat \<Rightarrow> u32) \<Rightarrow> fs \<Rightarrow> StorageEngine \<Rightarrow> (fs \<times> StorageEngine \<times> Status) option" where
  "Recover io mt fs e =
     (case LoadCheckpoint io fs (se_checkpoint_manager e) of
        Error st \<Rightarrow> Some (fs, e, st)
      | Value cp \<Rightarrow>
          (case add_files (se_compaction_manager e) (cp_sstables cp) of (cm, s) \<Rightarrow>
             let e = e\<lparr>se_compaction_manager := cm\<rparr> in
             if \<not> Status_IsOk s then Some (fs, e, s)
             else let e = e\<lparr>se_active_memtable := Some MemTable_new\<rparr>;
                      p = wal_current_path (se_config e) in
               (case WAL_Open io fs p of
                  (fs, Error st) \<Rightarrow> Some (fs, e, st)
                | (fs, Value wal) \<Rightarrow>
                    let e = e\<lparr>se_wal := Some wal\<rparr> in
                    do { (fs, m, recovered) \<leftarrow> RecoverMemTable io mt fs p MemTable_new (cp_last_flushed_lsn cp);
                         let e = e\<lparr>se_active_memtable := Some m\<rparr>;
                         Some (fs, e, ErrorOr_status recovered) })))"

text \<open>The destructor: what is left in the memtable is flushed, an error of the flush is only reported,
  and the log is closed.\<close>

definition StorageEngine_destroy :: "io \<Rightarrow> fs \<Rightarrow> StorageEngine \<Rightarrow> fs option" where
  "StorageEngine_destroy io fs e =
     do { let e = e\<lparr>se_shutdown := True\<rparr>;
          (fs, e) \<leftarrow> (case se_active_memtable e of
              None \<Rightarrow> Some (fs, e)
            | Some active \<Rightarrow>
                do { empty \<leftarrow> MemTable_IsEmpty active;
                     if empty then Some (fs, e)
                     else do { (fs, e, _) \<leftarrow> FlushMemTable io fs e; Some (fs, e) } });
          Some (case se_wal e of None \<Rightarrow> fs | Some wal \<Rightarrow> WAL_destroy io fs wal) }"

text \<open>When recovery fails the engine object dies, and its destructor runs.\<close>

definition StorageEngine_Open ::
  "io \<Rightarrow> (nat \<Rightarrow> u32) \<Rightarrow> fs \<Rightarrow> StorageConfig \<Rightarrow> (fs \<times> StorageEngine ErrorOr) option" where
  "StorageEngine_Open io mt fs config =
     do { (fs, e, status) \<leftarrow> Recover io mt fs (StorageEngine_new config);
          if \<not> Status_IsOk status
          then do { fs \<leftarrow> StorageEngine_destroy io fs e; Some (fs, Error status) }
          else Some (fs, Value e) }"

text \<open>One round of the compaction thread.\<close>

definition CompactionLoop_round ::
  "sorter \<Rightarrow> io \<Rightarrow> (nat \<Rightarrow> u32) \<Rightarrow> fs \<Rightarrow> StorageEngine \<Rightarrow> (fs \<times> StorageEngine) option" where
  "CompactionLoop_round srt io mt fs e =
     (if se_shutdown e then Some (fs, e)
      else if NeedsCompaction (se_compaction_manager e) then
        do { (fs, cm, _) \<leftarrow> RunCompaction srt io mt fs (se_compaction_manager e);
             wal \<leftarrow> se_wal e;
             let e = e\<lparr>se_compaction_manager := cm\<rparr>;
             let cp = \<lparr>cp_last_flushed_lsn = WAL_current_sequence_number wal, cp_sstables = AllFiles cm\<rparr>;
             Some (fst (SaveCheckpoint io fs (se_checkpoint_manager e) cp), e) }
      else Some (fs, e))"

subsection \<open>Searching files\<close>

definition entry_answer :: "BlockEntry option \<Rightarrow> bytes option" where
  "entry_answer r = (case r of None \<Rightarrow> None | Some e \<Rightarrow> if be_tombstone e then None else Some (be_value e))"

lemma find_outside_range:
  assumes "sorted_wrt (<) (map be_key es)" "es \<noteq> []" "k < be_key (hd es) \<or> be_key (last es) < k"
  shows "List.find (\<lambda>e. be_key e = k) es = None"
proof -
  have "be_key (hd es) \<le> be_key e \<and> be_key e \<le> be_key (last es)" if e: "e \<in> set es" for e
  proof
    show "be_key e \<le> be_key (last es)" using sorted_le_last [OF assms(1) e] .
    show "be_key (hd es) \<le> be_key e" using assms(1) e by (cases es) (auto intro: less_imp_le)
  qed
  with assms(3) show ?thesis by (force simp: find_None_iff)
qed

lemma search_files_fine:
  assumes io: "io_fine io" and "list_all2 (\<lambda>m es. \<exists>level. meta_describes fs level m es) metas datas"
  shows "search_files io fs k metas = Some (Value (entry_answer (first_hit k datas)))"
  using assms(2)
proof (induction rule: list_all2_induct)
  case Nil
  then show ?case by (simp add: entry_answer_def)
next
  case (Cons m ms es ess)
  then obtain level where d: "meta_describes fs level m es" by blast
  then have tf: "table_file fs (sm_filepath m) es" and ne: "es \<noteq> []" "sm_smallest_key m = be_key (hd es)"
    "sm_largest_key m = be_key (last es)" by (simp_all add: meta_describes_def)
  have srt: "sorted_wrt (<) (map be_key es)" using tf by (simp add: table_file_def)
  show ?case
  proof (cases "k < sm_smallest_key m \<or> k > sm_largest_key m")
    case True
    with find_outside_range [OF srt ne(1)] ne Cons(3) show ?thesis by simp
  next
    case False
    obtain r where "SSTableReader_Open io fs (sm_filepath m) = Some (Value r)"
      "\<forall>k. SSTableReader_Get io fs r k = Some (Value (List.find (\<lambda>e. be_key e = k) es))"
      using table_file_read [OF tf, of io] io by auto
    with False Cons(3) show ?thesis by (auto simp: entry_answer_def split: option.split)
  qed
qed

lemma strict_weak_read_order: "strict_weak read_order"
  unfolding strict_weak_def read_order_def
  by (intro conjI allI impI) (auto split: if_splits)

lemma sorted_unique:
  assumes lt: "strict_weak lt" and "sorted_wrt lt ys" "mset zs = mset ys" "sorted_wrt (\<lambda>a b. \<not> lt b a) zs"
  shows "zs = ys"
  using assms(2-4)
proof (induction ys arbitrary: zs)
  case (Cons y ys)
  from Cons.prems(2) obtain z zs' where zs: "zs = z # zs'" by (cases zs) auto
  have "z = y"
  proof (rule ccontr)
    assume ne: "z \<noteq> y"
    have "set zs = insert y (set ys)" using Cons.prems(2) by (metis list.simps(15) mset_eq_setD)
    then have "z \<in> set ys" "y \<in> set zs'" using ne zs by auto
    with Cons.prems(1,3) zs show False by auto
  qed
  with Cons zs show ?case by auto
qed simp

lemma sorts_unique:
  assumes "sorts srt" "strict_weak lt" "sorted_wrt lt ys" "mset ys = mset xs"
  shows "srt lt xs = ys"
  using sorted_unique [OF assms(2,3)] sortsD [OF assms(1,2), of xs] assms(4) by simp

subsection \<open>Paths\<close>

text \<open>The files of the engine end in different suffixes, so they never coincide.\<close>

lemma path_last [simp]:
  "last (wal_current_path config) = CHR ''g''" "last (sst_path config seq) = CHR ''t''"
  "last (butlast (sst_path config seq)) = CHR ''s''"
  "last (ckm_checkpoint_path (CheckpointManager_new d)) = CHR ''t''"
  "last (butlast (ckm_checkpoint_path (CheckpointManager_new d))) = CHR ''n''"
  "last (ckm_temp_path (CheckpointManager_new d)) = CHR ''p''"
  by (simp_all add: wal_current_path_def sst_path_def CheckpointManager_new_def butlast_append)

lemma paths_distinct [simp]:
  "wal_current_path config \<noteq> sst_path config' seq" "sst_path config' seq \<noteq> wal_current_path config"
  "wal_current_path config \<noteq> ckm_checkpoint_path (CheckpointManager_new d)"
  "wal_current_path config \<noteq> ckm_temp_path (CheckpointManager_new d)"
  "sst_path config seq \<noteq> ckm_checkpoint_path (CheckpointManager_new d)"
  "sst_path config seq \<noteq> ckm_temp_path (CheckpointManager_new d)"
  "ckm_checkpoint_path (CheckpointManager_new d) \<noteq> wal_current_path config"
  "ckm_temp_path (CheckpointManager_new d) \<noteq> wal_current_path config"
  "ckm_checkpoint_path (CheckpointManager_new d) \<noteq> sst_path config seq"
  "ckm_temp_path (CheckpointManager_new d) \<noteq> sst_path config seq"
  by (rule notI; frule arg_cong [of _ _ last]; drule arg_cong [of _ _ "\<lambda>x. last (butlast x)"]; simp)+

lemma sst_path_inject [simp]: "sst_path config m = sst_path config n \<longleftrightarrow> m = n"
  by (simp add: sst_path_def)

lemma output_path_distinct [simp]:
  "output_path dir level n \<noteq> wal_current_path config"
  "output_path dir level n \<noteq> ckm_checkpoint_path (CheckpointManager_new d)"
  "output_path dir level n \<noteq> ckm_temp_path (CheckpointManager_new d)"
proof -
  have ends: "last (output_path dir level n) = CHR ''t''" "last (butlast (output_path dir level n)) = CHR ''s''"
    by (simp_all add: output_path_def butlast_append)
  show "output_path dir level n \<noteq> wal_current_path config" "output_path dir level n \<noteq> ckm_checkpoint_path (CheckpointManager_new d)"
    "output_path dir level n \<noteq> ckm_temp_path (CheckpointManager_new d)"
    using ends by (auto dest: arg_cong [of _ _ last] arg_cong [of _ _ "\<lambda>x. last (butlast x)"])
qed

lemma sst_path_not_output [simp]: "sst_path config seq \<noteq> output_path (cfg_sst_dir config) 1 n"
proof -
  have "to_string_int 1 = ''1''" by code_simp
  then show ?thesis by (simp add: sst_path_def output_path_def)
qed

lemma SaveCheckpoint_fine:
  assumes "io_fine io"
  shows "\<exists>fs'. SaveCheckpoint io fs (CheckpointManager_new d) c = (fs', Status_Ok)
    \<and> fs' (ckm_checkpoint_path (CheckpointManager_new d)) = Some (encode_checkpoint c)
    \<and> (\<forall>q. q \<noteq> ckm_checkpoint_path (CheckpointManager_new d) \<longrightarrow> q \<noteq> ckm_temp_path (CheckpointManager_new d) \<longrightarrow> fs' q = fs q)"
proof -
  let ?cm = "CheckpointManager_new d"
  obtain fs' st where r: "SaveCheckpoint io fs ?cm c = (fs', st)" by force
  let ?fs = "fs(ckm_temp_path ?cm \<mapsto> [])" and ?out = "\<lparr>os_path = ckm_temp_path ?cm, os_buf = [], os_good = True\<rparr>"
  obtain fs2 out2 where w: "os_write io ?fs ?out (encode_checkpoint c) = (fs2, out2)" "extends ?fs ?out (encode_checkpoint c) fs2 out2"
    using os_write_extends [of io ?out ?fs "encode_checkpoint c"] assms by auto
  have good: "os_good out2" "os_path out2 = ckm_temp_path ?cm" using w(2) by (auto simp: extends_def)
  then have "st = Status_Ok"
    using r w(1) assms by (simp add: SaveCheckpoint_def open_trunc_def Let_def rename_file_def os_flush_fine)
  with SaveCheckpoint_steps [OF refl r] r show ?thesis by (auto simp: Status_IsOk_def Status_Ok_def)
qed

subsection \<open>The state of a session\<close>

primrec op_entry :: "table_op \<Rightarrow> WALEntry" where
  "op_entry (Put_op k v) = \<lparr>we_seq = 0, we_type = kPut, we_key = k, we_value = v\<rparr>"
| "op_entry (Delete_op k) = \<lparr>we_seq = 0, we_type = kDelete, we_key = k, we_value = []\<rparr>"

text \<open>The log holds every operation of the session.\<close>

definition log_inv :: "StorageConfig \<Rightarrow> fs \<Rightarrow> StorageEngine \<Rightarrow> table_op list \<Rightarrow> bool" where
  "log_inv cfg fs e ops \<longleftrightarrow>
     (\<exists>wal. se_wal e = Some wal \<and> WAL_wf wal \<and> wal_path wal = wal_current_path cfg \<and> wal_next_seq wal = to_u64 (length ops + 1))
     \<and> fs (wal_current_path cfg) = Some (concat (map SerializeEntry (stamp 1 (map op_entry ops))))"

text \<open>The memtable holds the operations since the last flush, in at most \<open>B\<close> bytes.\<close>

definition mem_inv :: "nat \<Rightarrow> StorageEngine \<Rightarrow> table_op list \<Rightarrow> bool" where
  "mem_inv B e pending \<longleftrightarrow> (\<exists>m es. se_active_memtable e = Some m \<and> MemTable_wf m \<and> MemTable_entries m = Some es
     \<and> (\<forall>k. map_of es k = last_write op_key op_value pending k)
     \<and> sum_list (map (EncodedSize \<circ> block_entry_of) es) \<le> B)"

text \<open>A file that was written from the operations \<open>ops\<close>.\<close>

definition file_of :: "table_op list \<Rightarrow> BlockEntry list \<Rightarrow> bool" where
  "file_of ops es \<longleftrightarrow> (\<forall>k. List.find (\<lambda>e. be_key e = k) es = map_option (\<lambda>v. block_entry_of (k, v)) (last_write op_key op_value ops k))"

text \<open>The files of the catalogue are the flushes in order, each with a segment of the operations.\<close>

definition cat_inv :: "StorageConfig \<Rightarrow> fs \<Rightarrow> StorageEngine \<Rightarrow> table_op list \<Rightarrow> bool" where
  "cat_inv cfg fs e flushed \<longleftrightarrow>
     (let files = cm_files (se_compaction_manager e) in
      (\<exists>datas segs. list_all2 (meta_describes fs 0) files datas \<and> list_all2 file_of segs datas \<and> concat segs = flushed)
      \<and> map sm_sequence_number files = map to_u64 [1 ..< Suc (length files)]
      \<and> map sm_filepath files = map (\<lambda>i. sst_path cfg (to_u64 i)) [1 ..< Suc (length files)]
      \<and> se_next_sst_sequence e = to_u64 (Suc (length files)) \<and> length files \<le> length flushed
      \<and> (\<forall>m \<in> set files. SSTableMeta_ok m) \<and> cm_max_level (se_compaction_manager e) = kNumLevels
      \<and> cm_data_dir (se_compaction_manager e) = cfg_sst_dir cfg \<and> cm_next_file_number (se_compaction_manager e) = 1)"

text \<open>The checkpoint names these files and the sequence number of the last operation in them.\<close>

definition checkpoint_inv :: "StorageConfig \<Rightarrow> fs \<Rightarrow> StorageEngine \<Rightarrow> table_op list \<Rightarrow> bool" where
  "checkpoint_inv cfg fs e flushed \<longleftrightarrow>
     se_checkpoint_manager e = CheckpointManager_new (cfg_data_dir cfg)
     \<and> fs (ckm_checkpoint_path (CheckpointManager_new (cfg_data_dir cfg))) =
        (if cm_files (se_compaction_manager e) = [] then None
         else Some (encode_checkpoint \<lparr>cp_last_flushed_lsn = to_u64 (length flushed),
                                       cp_sstables = cm_files (se_compaction_manager e)\<rparr>))
     \<and> (cm_files (se_compaction_manager e) = [] \<longrightarrow> flushed = [])"

definition engine_inv :: "StorageConfig \<Rightarrow> nat \<Rightarrow> fs \<Rightarrow> StorageEngine \<Rightarrow> table_op list \<Rightarrow> table_op list \<Rightarrow> bool" where
  "engine_inv cfg B fs e flushed pending \<longleftrightarrow> se_config e = cfg \<and> se_immutable_memtable e = None \<and> \<not> se_shutdown e
     \<and> log_inv cfg fs e (flushed @ pending) \<and> mem_inv B e pending \<and> cat_inv cfg fs e flushed
     \<and> checkpoint_inv cfg fs e flushed"

definition config_ok :: "StorageConfig \<Rightarrow> bool" where
  "config_ok cfg \<longleftrightarrow> length (cfg_sst_dir cfg) < 2 ^ 31 \<and> cfg_memtable_size_bytes cfg \<le> 2 ^ 27"

lemma last_write_append:
  "last_write kf vf (xs @ ys) k = (case last_write kf vf ys k of Some v \<Rightarrow> Some v | None \<Rightarrow> last_write kf vf xs k)"
  by (induction ys rule: rev_induct) (simp_all add: append_assoc [symmetric] del: append_assoc)

lemma last_write_None_all: "\<forall>k. last_write kf vf xs k = None \<Longrightarrow> xs = []"
  by (cases xs rule: rev_cases) (auto, metis option.distinct(1))

lemma MemTable_tombs:
  assumes "MemTable_wf m" "MemTable_entries m = Some es"
  shows "\<forall>e \<in> set (map block_entry_of es). be_tombstone e \<longrightarrow> be_value e = []"
proof -
  obtain ns where "sl_rep (mem_table m) ns" "tombs_empty (sl_abs (mem_table m) ns)"
    using assms(1) by (auto simp: MemTable_wf_def SkipList_wf_def)
  then have "tombs_empty es" using assms(2) SkipList_entries_rep by (simp add: MemTable_entries_SkipList)
  then show ?thesis by (auto simp: tombs_empty_def block_entry_of_def)
qed

lemma MemTable_usage:
  assumes "MemTable_wf m" "MemTable_entries m = Some es"
  shows "sum_list (map (EncodedSize \<circ> block_entry_of) es) \<le> MemTable_ApproximateMemoryUsage m"
proof -
  let ?h = "sl_heap (mem_table m)"
  have wf: "SkipList_wf (mem_table m)" using assms(1) by (simp add: MemTable_wf_def)
  let ?cost = "\<lambda>a. sizeof_SkipListNode + length (nkey ?h a) + length (slv_data (nval ?h a)) + hgt ?h a * sizeof_pointer"
  obtain ns where entries: "SkipList_entries (mem_table m) = Some (sl_abs (mem_table m) ns)"
    and "SkipList_ApproximateMemoryUsage (mem_table m)
      = sizeof_SkipList + sizeof_SkipListNode + hgt ?h (sl_head (mem_table m)) * sizeof_pointer + (\<Sum>a\<leftarrow>ns. ?cost a)"
    using SkipList_memory_ok [OF wf] by blast
  then have usage: "(\<Sum>a\<leftarrow>ns. ?cost a) \<le> SkipList_ApproximateMemoryUsage (mem_table m)" by linarith
  from entries have es: "es = map (\<lambda>a. (nkey ?h a, nval ?h a)) ns"
    using assms(2) by (simp add: MemTable_entries_SkipList sl_abs_def)
  have "sum_list (map (EncodedSize \<circ> block_entry_of) es) \<le> (\<Sum>a\<leftarrow>ns. ?cost a)"
    unfolding es map_map by (intro sum_list_mono) (simp add: EncodedSize_def block_entry_of_def sizeof_SkipListNode_def)
  with usage show ?thesis by (simp add: MemTable_ApproximateMemoryUsage_def)
qed

lemma SSTableMeta_ok_file:
  assumes "table_file fs p es" "es \<noteq> []" "length p < 2 ^ 32" "0 \<le> sm_level m \<and> sm_level m < kNumLevels" "sm_filepath m = p"
    "sm_smallest_key m = be_key (hd es)" "sm_largest_key m = be_key (last es)"
  shows "SSTableMeta_ok m"
proof -
  obtain bloom where "table_ok bloom es" using assms(1) by (auto simp: table_file_def)
  from table_sizes(3) [OF this] have "length (be_key e) < 2 ^ 31" if "e \<in> set es" for e
    using that by (fastforce simp: EncodedSize_def)
  from this [of "hd es"] this [of "last es"] assms show ?thesis by (simp add: SSTableMeta_ok_def kNumLevels_def)
qed

lemma length_sst_path: "length (cfg_sst_dir cfg) < 2 ^ 31 \<Longrightarrow> length (sst_path cfg n) < 2 ^ 32"
  using length_to_string_u64 [of n] by (simp add: sst_path_def)

text \<open>Registering and checkpointing the file of a flush.\<close>

lemma cat_inv_flush:
  assumes cat: "cat_inv cfg fs e flushed" and dir: "length (cfg_sst_dir cfg) < 2 ^ 31"
    and es: "es \<noteq> []" "\<forall>k. map_of es k = last_write op_key op_value pending k" "pending \<noteq> []"
    and n: "n = length (cm_files (se_compaction_manager e))" "length flushed < 2 ^ 32"
    and meta: "sm_filepath meta = sst_path cfg (to_u64 (Suc n))" "sm_level meta = 0" "sm_sequence_number meta = to_u64 (Suc n)"
      "sm_smallest_key meta = be_key (hd (map block_entry_of es))" "sm_largest_key meta = be_key (last (map block_entry_of es))"
    and file': "table_file fs' (sm_filepath meta) (map block_entry_of es)"
    and keep: "\<forall>i < Suc n. fs' (sst_path cfg (to_u64 i)) = fs (sst_path cfg (to_u64 i))"
    and e': "se_compaction_manager e' = (se_compaction_manager e)\<lparr>cm_files := cm_files (se_compaction_manager e) @ [meta]\<rparr>"
      "se_next_sst_sequence e' = to_u64 (Suc n) + 1"
  shows "cat_inv cfg fs' e' (flushed @ pending)"
proof -
  let ?files = "cm_files (se_compaction_manager e)"
  obtain datas segs where d: "list_all2 (meta_describes fs 0) ?files datas" "list_all2 file_of segs datas" "concat segs = flushed"
    and c: "map sm_sequence_number ?files = map to_u64 [1 ..< Suc n]" "map sm_filepath ?files = map (\<lambda>i. sst_path cfg (to_u64 i)) [1 ..< Suc n]"
      "n \<le> length flushed" "\<forall>m \<in> set ?files. SSTableMeta_ok m" "cm_max_level (se_compaction_manager e) = kNumLevels"
      "cm_data_dir (se_compaction_manager e) = cfg_sst_dir cfg" "cm_next_file_number (se_compaction_manager e) = 1"
    using cat n(1) unfolding cat_inv_def Let_def by auto
  have "fs' (sm_filepath m) = fs (sm_filepath m)" if "m \<in> set ?files" for m
  proof -
    have "sm_filepath m \<in> set (map sm_filepath ?files)" using that by simp
    then obtain i where "i < Suc n" "sm_filepath m = sst_path cfg (to_u64 i)"
      unfolding c(2) by (auto simp del: upt_Suc sst_path_inject)
    with keep show ?thesis by simp
  qed
  then have old: "list_all2 (meta_describes fs' 0) ?files datas"
    using meta_describes_cong [where fs = fs and fs' = fs'] by (intro list.rel_mono_strong [OF d(1)]) blast
  have new: "meta_describes fs' 0 meta (map block_entry_of es)"
    using file' es(1) meta by (simp add: meta_describes_def)
  have "list_all2 (meta_describes fs' 0) (?files @ [meta]) (datas @ [map block_entry_of es])"
    using old new by (simp add: list_all2_appendI)
  moreover have "list_all2 file_of (segs @ [pending]) (datas @ [map block_entry_of es])"
    using d(2) es(2) by (intro list_all2_appendI) (simp_all add: file_of_def find_block_entry_of)
  moreover have "[1 ..< Suc (Suc n)] = [1 ..< Suc n] @ [Suc n]" by simp
  moreover have "SSTableMeta_ok meta"
    using SSTableMeta_ok_file [OF file'] es(1) meta length_sst_path [OF dir] by (simp add: kNumLevels_def)
  moreover have "to_u64 (Suc n) + 1 = to_u64 (Suc (Suc n))" by (simp add: to_u64_def)
  moreover have "Suc n \<le> length (flushed @ pending)" using c(3) es(3) by (cases pending) auto
  ultimately show ?thesis
    using c n(1) meta e' unfolding cat_inv_def Let_def by (auto simp: d(3) simp del: upt_Suc intro!: exI [of _ "datas @ [map block_entry_of es]"] exI [of _ "segs @ [pending]"])
qed

lemma Flush_write_fine:
  assumes io: "io_fine io" and wal: "se_wal e = Some wal" and m: "MemTable_wf m" "MemTable_entries m = Some es" "es \<noteq> []"
    "sum_list (map (EncodedSize \<circ> block_entry_of) es) \<le> 2 ^ 28"
    and ck: "se_checkpoint_manager e = CheckpointManager_new d" and lv: "0 < cm_max_level (se_compaction_manager e)"
  defines "p \<equiv> sst_path (se_config e) (se_next_sst_sequence e)" and "bes \<equiv> map block_entry_of es"
    and "cm \<equiv> se_compaction_manager e"
  shows "\<exists>fs' meta. Flush_write io fs e m = Some (fs', e\<lparr>se_immutable_memtable := None,
        se_compaction_manager := cm\<lparr>cm_files := cm_files cm @ [meta]\<rparr>, se_memtable_flushes := se_memtable_flushes e + 1,
        se_next_sst_sequence := se_next_sst_sequence e + 1\<rparr>, Status_Ok)
     \<and> table_file fs' p bes \<and> sm_filepath meta = p \<and> sm_level meta = 0 \<and> sm_sequence_number meta = se_next_sst_sequence e
     \<and> sm_smallest_key meta = be_key (hd bes) \<and> sm_largest_key meta = be_key (last bes)
     \<and> fs' (ckm_checkpoint_path (CheckpointManager_new d)) = Some (encode_checkpoint
         \<lparr>cp_last_flushed_lsn = WAL_current_sequence_number wal, cp_sstables = cm_files cm @ [meta]\<rparr>)
     \<and> (\<forall>q. q \<noteq> p \<longrightarrow> q \<noteq> ckm_checkpoint_path (CheckpointManager_new d) \<longrightarrow> q \<noteq> ckm_temp_path (CheckpointManager_new d)
          \<longrightarrow> fs' q = fs q)"
proof -
  obtain it where it: "MemTable_Begin m = Some it" "Iterator_drain (sl_heap (mem_table m)) it = Some es"
    using m(2) by (auto simp: MemTable_entries_def split: bind_splits)
  have srt: "sorted_wrt (<) (map be_key bes)"
    using memtable.entries_sorted [OF m(1)] m(2) by (auto simp: bes_def block_entry_of_def comp_def)
  obtain bloom where b: "table_ok bloom bes" using table_ok_small [of bes] m(4) by (auto simp: bes_def)
  let ?img = "SSTable_image bloom bes"
  have w: "SSTableWriter_Write io fs p (sl_heap (mem_table m)) it = Some (fs(p \<mapsto> ?img), Status_Ok)"
    using SSTableWriter_Write_fine [OF io it(2) m(3), of bloom fs p] b by (simp add: table_ok_def bes_def)
  have tf: "table_file (fs(p \<mapsto> ?img)) p bes"
    using b srt MemTable_tombs [OF m(1,2)] by (auto simp: table_file_def bes_def)
  have ne: "bes \<noteq> []" using m(3) by (simp add: bes_def)
  have rng: "flushed_range io (fs(p \<mapsto> ?img)) p = Some (be_key (hd bes), be_key (last bes))"
    using table_file_read [OF tf, of io] io ne by (auto simp: flushed_range_def)
  define meta where "meta = \<lparr>sm_filepath = p, sm_level = 0, sm_smallest_key = be_key (hd bes), sm_largest_key = be_key (last bes),
      sm_file_size_bytes = to_u64 (length ?img), sm_sequence_number = se_next_sst_sequence e\<rparr>"
  let ?cp = "\<lparr>cp_last_flushed_lsn = WAL_current_sequence_number wal, cp_sstables = cm_files cm @ [meta]\<rparr>"
  obtain fs' where s: "SaveCheckpoint io (fs(p \<mapsto> ?img)) (CheckpointManager_new d) ?cp = (fs', Status_Ok)"
    "fs' (ckm_checkpoint_path (CheckpointManager_new d)) = Some (encode_checkpoint ?cp)"
    "\<forall>q. q \<noteq> ckm_checkpoint_path (CheckpointManager_new d) \<longrightarrow> q \<noteq> ckm_temp_path (CheckpointManager_new d)
       \<longrightarrow> fs' q = (fs(p \<mapsto> ?img)) q"
    using SaveCheckpoint_fine [OF io] by blast
  have "fs' p = (fs(p \<mapsto> ?img)) p" using s(3) unfolding p_def by simp
  then have tf': "table_file fs' p bes" using tf table_file_cong by blast
  have "Flush_write io fs e m = Some (fs', e\<lparr>se_immutable_memtable := None,
        se_compaction_manager := cm\<lparr>cm_files := cm_files cm @ [meta]\<rparr>, se_memtable_flushes := se_memtable_flushes e + 1,
        se_next_sst_sequence := se_next_sst_sequence e + 1\<rparr>, Status_Ok)"
    using wal it(1) w rng s(1) ck lv
    by (simp add: Flush_write_def Let_def p_def [symmetric] meta_def [symmetric] AddFile_def AllFiles_def cm_def [symmetric]
        Status_IsOk_def Status_Ok_def)
  then show ?thesis using tf' s(2,3) by (intro exI [of _ fs'] exI [of _ meta]) (simp add: meta_def)
qed

lemma engine_inv_mono: "engine_inv cfg B fs e flushed pending \<Longrightarrow> B \<le> B' \<Longrightarrow> engine_inv cfg B' fs e flushed pending"
  unfolding engine_inv_def mem_inv_def by (meson le_trans)

lemma to_u64_minus_1: "to_u64 (Suc n) - 1 = to_u64 n"
  by (simp add: to_u64_def)

lemma engine_invE:
  assumes "engine_inv cfg B fs e flushed pending"
  obtains m es where "se_active_memtable e = Some m" "MemTable_wf m" "MemTable_entries m = Some es"
    "\<forall>k. map_of es k = last_write op_key op_value pending k" "sum_list (map (EncodedSize \<circ> block_entry_of) es) \<le> B"
    "se_config e = cfg" "se_immutable_memtable e = None" "log_inv cfg fs e (flushed @ pending)" "cat_inv cfg fs e flushed"
    "checkpoint_inv cfg fs e flushed" "\<not> se_shutdown e"
  using assms by (auto simp: engine_inv_def mem_inv_def)

text \<open>The writing half of a flush, on a memtable that was taken out of the engine.\<close>

lemma Flush_write_inv:
  assumes io: "io_fine io" and cfg: "config_ok cfg" and len: "length (flushed @ pending) < 2 ^ 32"
    and m: "MemTable_wf m" "MemTable_entries m = Some es" "\<forall>k. map_of es k = last_write op_key op_value pending k" "es \<noteq> []"
      "sum_list (map (EncodedSize \<circ> block_entry_of) es) \<le> 2 ^ 28"
    and e: "se_config e = cfg" "se_active_memtable e = Some MemTable_new" "log_inv cfg fs e (flushed @ pending)"
      "cat_inv cfg fs e flushed" "checkpoint_inv cfg fs e flushed" "\<not> se_shutdown e"
  shows "\<exists>fs' e'. Flush_write io fs e m = Some (fs', e', Status_Ok) \<and> engine_inv cfg 0 fs' e' (flushed @ pending) []
    \<and> length (cm_files (se_compaction_manager e')) = Suc (length (cm_files (se_compaction_manager e)))"
proof -
  let ?cm = "se_compaction_manager e" and ?ck = "CheckpointManager_new (cfg_data_dir cfg)"
  let ?n = "Suc (length (cm_files ?cm))"
  have pne: "pending \<noteq> []" using spec [OF m(3), of "fst (hd es)"] m(4) by (cases es) auto
  obtain wal where w: "se_wal e = Some wal" "WAL_wf wal" "wal_path wal = wal_current_path cfg"
    "wal_next_seq wal = to_u64 (Suc (length (flushed @ pending)))"
    "fs (wal_current_path cfg) = Some (concat (map SerializeEntry (stamp 1 (map op_entry (flushed @ pending)))))"
    using e(3) by (auto simp: log_inv_def)
  have ck: "se_checkpoint_manager e = ?ck" using e(5) by (simp add: checkpoint_inv_def)
  have lv: "0 < cm_max_level ?cm" "se_next_sst_sequence e = to_u64 ?n" "length (cm_files ?cm) \<le> length flushed"
    using e(4) by (simp_all add: cat_inv_def Let_def kNumLevels_def)
  from Flush_write_fine [OF io w(1) m(1,2,4,5) ck lv(1), of fs]
  obtain fs' meta where f: "Flush_write io fs e m = Some (fs', e\<lparr>se_immutable_memtable := None,
      se_compaction_manager := ?cm\<lparr>cm_files := cm_files ?cm @ [meta]\<rparr>, se_memtable_flushes := se_memtable_flushes e + 1,
      se_next_sst_sequence := se_next_sst_sequence e + 1\<rparr>, Status_Ok)"
    "table_file fs' (sst_path cfg (to_u64 ?n)) (map block_entry_of es)" "sm_filepath meta = sst_path cfg (to_u64 ?n)" "sm_level meta = 0"
    "sm_sequence_number meta = to_u64 ?n"
    "sm_smallest_key meta = be_key (hd (map block_entry_of es))" "sm_largest_key meta = be_key (last (map block_entry_of es))"
    "fs' (ckm_checkpoint_path ?ck) = Some (encode_checkpoint
       \<lparr>cp_last_flushed_lsn = WAL_current_sequence_number wal, cp_sstables = cm_files ?cm @ [meta]\<rparr>)"
    "\<forall>q. q \<noteq> sst_path cfg (to_u64 ?n) \<longrightarrow> q \<noteq> ckm_checkpoint_path ?ck \<longrightarrow> q \<noteq> ckm_temp_path ?ck \<longrightarrow> fs' q = fs q"
    using e(1) lv(2) by auto
  let ?e = "e\<lparr>se_immutable_memtable := None,
      se_compaction_manager := ?cm\<lparr>cm_files := cm_files ?cm @ [meta]\<rparr>, se_memtable_flushes := se_memtable_flushes e + 1,
      se_next_sst_sequence := se_next_sst_sequence e + 1\<rparr>"
  have keep: "\<forall>i < ?n. fs' (sst_path cfg (to_u64 i)) = fs (sst_path cfg (to_u64 i))"
  proof (intro allI impI)
    fix i assume "i < ?n"
    then have "to_u64 i < to_u64 ?n" using lv(3) len by (intro to_u64_less) auto
    then show "fs' (sst_path cfg (to_u64 i)) = fs (sst_path cfg (to_u64 i))" using f(9) by simp
  qed
  have "cat_inv cfg fs' ?e (flushed @ pending)"
    using cfg len lv(2) f(2,3)
    by (intro cat_inv_flush [OF e(4) _ m(4,3) pne refl _ f(3-7) _ keep]) (simp_all add: config_ok_def)
  moreover have "log_inv cfg fs' ?e (flushed @ pending)" using w f(9) by (auto simp: log_inv_def)
  moreover have "mem_inv 0 ?e []" using MemTable_new_ok e(2) by (simp add: mem_inv_def)
  moreover have "checkpoint_inv cfg fs' ?e (flushed @ pending)"
    using f(8) ck w(4) by (simp add: checkpoint_inv_def WAL_current_sequence_number_def to_u64_minus_1)
  ultimately have "engine_inv cfg 0 fs' ?e (flushed @ pending) []" using e(1,6) by (simp add: engine_inv_def)
  with f(1) show ?thesis by (intro exI [of _ fs'] exI [of _ ?e]) simp
qed

lemma FlushMemTable_inv:
  assumes io: "io_fine io" and cfg: "config_ok cfg" and inv: "engine_inv cfg B fs e flushed pending" and B: "B \<le> 2 ^ 28"
    and len: "length (flushed @ pending) < 2 ^ 32"
  shows "\<exists>fs' e'. FlushMemTable io fs e = Some (fs', e', Status_Ok) \<and> engine_inv cfg 0 fs' e' (flushed @ pending) []
    \<and> length (cm_files (se_compaction_manager e')) = length (cm_files (se_compaction_manager e)) + (if pending = [] then 0 else 1)"
proof -
  obtain m es where m: "se_active_memtable e = Some m" "MemTable_wf m" "MemTable_entries m = Some es"
    "\<forall>k. map_of es k = last_write op_key op_value pending k" "sum_list (map (EncodedSize \<circ> block_entry_of) es) \<le> B"
    and c: "se_config e = cfg" "se_immutable_memtable e = None" "log_inv cfg fs e (flushed @ pending)" "cat_inv cfg fs e flushed"
      "checkpoint_inv cfg fs e flushed" "\<not> se_shutdown e"
    using engine_invE [OF inv] .
  have emp: "MemTable_IsEmpty m = Some (es = [])"
    using SkipList_IsEmpty_ok [of "mem_table m"] m(2,3) by (simp add: MemTable_IsEmpty_def MemTable_wf_def MemTable_entries_SkipList)
  show ?thesis
  proof (cases "es = []")
    case True
    then have "pending = []" using m(4) last_write_None_all [of op_key op_value pending] by simp
    moreover have "mem_inv 0 e []" using True m \<open>pending = []\<close> by (auto simp: mem_inv_def)
    ultimately show ?thesis
      using m(1) emp c True by (simp add: FlushMemTable_def Flush_swap_def engine_inv_def)
  next
    case False
    then have pne: "pending \<noteq> []" using spec [OF m(4), of "fst (hd es)"] by (cases es) auto
    let ?e1 = "e\<lparr>se_active_memtable := Some MemTable_new, se_immutable_memtable := None\<rparr>"
    have "log_inv cfg fs ?e1 (flushed @ pending)" "cat_inv cfg fs ?e1 flushed" "checkpoint_inv cfg fs ?e1 flushed"
      using c by (simp_all add: log_inv_def cat_inv_def checkpoint_inv_def)
    with Flush_write_inv [OF io cfg len m(2-4) False _ _ _ this] m(5) B c(1,6)
    obtain fs' e' where "Flush_write io fs ?e1 m = Some (fs', e', Status_Ok)" "engine_inv cfg 0 fs' e' (flushed @ pending) []"
      "length (cm_files (se_compaction_manager e')) = Suc (length (cm_files (se_compaction_manager e)))" by auto
    moreover from this(1) have "FlushMemTable io fs e = Some (fs', e', Status_Ok)"
      using m(1) emp False c(2) by (simp add: FlushMemTable_def Flush_swap_def)
    ultimately show ?thesis using pne by auto
  qed
qed

lemma cat_inv_cong:
  assumes "cat_inv cfg fs e flushed" "\<forall>n. fs' (sst_path cfg n) = fs (sst_path cfg n)"
    "se_compaction_manager e' = se_compaction_manager e" "se_next_sst_sequence e' = se_next_sst_sequence e"
  shows "cat_inv cfg fs' e' flushed"
proof -
  let ?files = "cm_files (se_compaction_manager e)"
  have paths: "map sm_filepath ?files = map (\<lambda>i. sst_path cfg (to_u64 i)) [1 ..< Suc (length ?files)]"
    using assms(1) by (simp add: cat_inv_def Let_def)
  have same: "fs' (sm_filepath m) = fs (sm_filepath m)" if "m \<in> set ?files" for m
  proof -
    have "sm_filepath m \<in> set (map sm_filepath ?files)" using that by simp
    then show ?thesis unfolding paths using assms(2) by (auto simp del: upt_Suc sst_path_inject)
  qed
  have "list_all2 (meta_describes fs' 0) ?files datas" if "list_all2 (meta_describes fs 0) ?files datas" for datas
    using same meta_describes_cong [where fs = fs and fs' = fs'] by (intro list.rel_mono_strong [OF that]) blast
  with assms show ?thesis unfolding cat_inv_def Let_def by (elim conjE exE) (simp del: upt_Suc, blast)
qed

lemma stamp_snoc: "stamp n (xs @ [x]) = stamp n xs @ [x\<lparr>we_seq := n + of_nat (length xs)\<rparr>]"
  by (induction xs arbitrary: n) (simp_all add: add.assoc)

lemma sum_ordered_put:
  "sum_list (map f (ordered_put k v es)) \<le> sum_list (map f es) + (f (k, v) :: nat)"
proof -
  have "sum_list (map f (filter (\<lambda>e. fst e < k) es)) + sum_list (map f (filter (\<lambda>e. k < fst e) es)) \<le> sum_list (map f es)"
    by (induction es) auto
  then show ?thesis by (simp add: ordered_put_def)
qed

definition engine_write ::
  "io \<Rightarrow> (nat \<Rightarrow> u32) \<Rightarrow> fs \<Rightarrow> StorageEngine \<Rightarrow> table_op \<Rightarrow> (fs \<times> StorageEngine \<times> Status) option" where
  "engine_write io mt fs e x =
     (case x of Put_op k v \<Rightarrow> StorageEngine_Put io mt fs e k v | Delete_op k \<Rightarrow> StorageEngine_Delete io mt fs e k)"

lemma engine_write_sections:
  "engine_write io mt fs e x =
     do { wal \<leftarrow> se_wal e;
          case WAL_Append io fs wal (op_entry x) of ((fs, wal), result) \<Rightarrow>
            (case result of
               Error st \<Rightarrow> Some (fs, e\<lparr>se_wal := Some wal\<rparr>, st) \<bind> (\<lambda>(fs, e, st). if \<not> Status_IsOk st then Some (fs, e, st) else
                 do { (e, needs_flush) \<leftarrow> WriteEntry_apply mt e (we_type (op_entry x)) (we_key (op_entry x)) (we_value (op_entry x));
                      if needs_flush then FlushMemTable io fs e else Some (fs, e, Status_Ok) })
             | Value _ \<Rightarrow>
                 do { (e, needs_flush) \<leftarrow> WriteEntry_apply mt (e\<lparr>se_wal := Some wal, se_wal_writes := se_wal_writes e + 1\<rparr>)
                        (we_type (op_entry x)) (we_key (op_entry x)) (we_value (op_entry x));
                      if needs_flush then FlushMemTable io fs e else Some (fs, e, Status_Ok) }) }"
  by (cases x; cases "se_wal e")
     (auto simp: engine_write_def StorageEngine_Put_def StorageEngine_Delete_def WriteEntry_def WriteEntry_log_def
       Status_IsOk_def Status_Ok_def Let_def split: prod.split ErrorOr.split)

lemma WriteEntry_apply_op:
  "WriteEntry_apply mt e (we_type (op_entry x)) (we_key (op_entry x)) (we_value (op_entry x)) =
     do { m \<leftarrow> se_active_memtable e;
          m \<leftarrow> MemTable_apply mt m x;
          Some (e\<lparr>se_active_memtable := Some m\<rparr>, MemTable_ApproximateMemoryUsage m \<ge> cfg_memtable_size_bytes (se_config e)) }"
  by (cases x) (simp_all add: WriteEntry_apply_def kPut_def kDelete_def)

lemma MemTable_usage_single:
  assumes "MemTable_wf m" "MemTable_entries m = Some [(k, v)]"
  shows "MemTable_ApproximateMemoryUsage m < 6000 + length k + length (slv_data v)"
proof -
  let ?h = "sl_heap (mem_table m)"
  have wf: "SkipList_wf (mem_table m)" using assms(1) by (simp add: MemTable_wf_def)
  obtain ns where "SkipList_entries (mem_table m) = Some (sl_abs (mem_table m) ns)"
    and fits: "hgt ?h (sl_head (mem_table m)) = kMaxHeight" "list_all (\<lambda>a. 1 \<le> hgt ?h a \<and> hgt ?h a \<le> kMaxHeight) ns"
    and usage: "SkipList_ApproximateMemoryUsage (mem_table m)
      = sizeof_SkipList + sizeof_SkipListNode + hgt ?h (sl_head (mem_table m)) * sizeof_pointer
        + (\<Sum>a\<leftarrow>ns. sizeof_SkipListNode + length (nkey ?h a) + length (slv_data (nval ?h a)) + hgt ?h a * sizeof_pointer)"
    using SkipList_memory_ok [OF wf] by blast
  then obtain a where "ns = [a]" "nkey ?h a = k" "nval ?h a = v"
    using assms(2) by (auto simp: MemTable_entries_SkipList sl_abs_def)
  with fits usage show ?thesis
    by (simp add: MemTable_ApproximateMemoryUsage_def sizeof_SkipList_def sizeof_SkipListNode_def sizeof_pointer_def kMaxHeight_def)
qed

text \<open>A write without the flush at its end: the record is behind the log and in the memtable.\<close>

definition after_write :: "fs \<Rightarrow> StorageEngine \<Rightarrow> WAL \<Rightarrow> table_op list \<Rightarrow> table_op \<Rightarrow> MemTable \<Rightarrow> fs \<times> StorageEngine" where
  "after_write fs e wal ops x m =
     (fs(wal_current_path (se_config e) \<mapsto> concat (map SerializeEntry (stamp 1 (map op_entry (ops @ [x]))))),
      e\<lparr>se_wal := Some (wal\<lparr>wal_next_seq := wal_next_seq wal + 1\<rparr>), se_wal_writes := se_wal_writes e + 1, se_active_memtable := Some m\<rparr>)"

lemma engine_write_run:
  assumes io: "io_fine io" and c: "se_config e = cfg" "log_inv cfg fs e ops"
    and m: "se_active_memtable e = Some m" "MemTable_wf m" "MemTable_entries m = Some es"
  shows "\<exists>wal m'. se_wal e = Some wal \<and> MemTable_wf m' \<and> MemTable_entries m' = Some (ordered_put (op_key x) (op_value x) es)
    \<and> engine_write io mt fs e x
       = (if MemTable_ApproximateMemoryUsage m' \<ge> cfg_memtable_size_bytes cfg
          then (case after_write fs e wal ops x m' of (fs, e) \<Rightarrow> FlushMemTable io fs e)
          else (case after_write fs e wal ops x m' of (fs, e) \<Rightarrow> Some (fs, e, Status_Ok)))
    \<and> log_inv cfg (fst (after_write fs e wal ops x m')) (snd (after_write fs e wal ops x m')) (ops @ [x])"
proof -
  obtain wal where w: "se_wal e = Some wal" "WAL_wf wal" "wal_path wal = wal_current_path cfg"
      "wal_next_seq wal = to_u64 (Suc (length ops))"
      "fs (wal_current_path cfg) = Some (concat (map SerializeEntry (stamp 1 (map op_entry ops))))"
    using c(2) by (auto simp: log_inv_def)
  have "to_u64 (Suc (length ops)) = 1 + of_nat (length (map op_entry ops))" by (simp add: to_u64_def)
  then have app: "WAL_Append io fs wal (op_entry x) = ((fs(wal_current_path cfg \<mapsto> concat (map SerializeEntry (stamp 1 (map op_entry (ops @ [x]))))),
      wal\<lparr>wal_next_seq := wal_next_seq wal + 1\<rparr>), Value (wal_next_seq wal))"
    using WAL_Append_fine [of io wal fs "op_entry x"] io w by (simp add: content_def stamp_snoc)
  obtain m' where m': "MemTable_apply mt m x = Some m'" "MemTable_wf m'" "MemTable_entries m' = Some (ordered_put (op_key x) (op_value x) es)"
    using memtable.upd_entries [OF m(2,3), of mt x] by blast
  have "engine_write io mt fs e x
       = (if MemTable_ApproximateMemoryUsage m' \<ge> cfg_memtable_size_bytes cfg
          then (case after_write fs e wal ops x m' of (fs, e) \<Rightarrow> FlushMemTable io fs e)
          else (case after_write fs e wal ops x m' of (fs, e) \<Rightarrow> Some (fs, e, Status_Ok)))"
    using w(1) app m(1) m'(1) c(1) by (simp add: engine_write_sections WriteEntry_apply_op after_write_def)
  moreover have "log_inv cfg (fst (after_write fs e wal ops x m')) (snd (after_write fs e wal ops x m')) (ops @ [x])"
    using w c(1) by (simp add: log_inv_def WAL_wf_def to_u64_def after_write_def)
  ultimately show ?thesis using w(1) m'(2,3) by blast
qed

lemma EncodedSize_op: "entry_ok True (op_entry x) \<Longrightarrow> EncodedSize (block_entry_of (op_key x, op_value x)) \<le> 2 ^ 27"
  by (cases x) (simp_all add: entry_ok_def PayloadSize_def max_payload_def EncodedSize_def block_entry_of_def)

lemma small_write_fits:
  assumes "MemTable_wf m" and "MemTable_entries m = Some (ordered_put k v es)" and "\<forall>k. map_of es k = None"
    and "6000 + length k + length (slv_data v) \<le> n"
  shows "MemTable_ApproximateMemoryUsage m < n"
proof -
  have "es = []" using assms(3) by (cases es) (auto, metis option.distinct(1))
  with assms(2) have "MemTable_entries m = Some [(k, v)]" by (simp add: ordered_put_def)
  from MemTable_usage_single [OF assms(1) this] assms(4) show ?thesis by linarith
qed

text \<open>A write keeps the invariant; a small one into an empty memtable stays there.\<close>

lemma engine_write_inv:
  assumes io: "io_fine io" and cfg: "config_ok cfg" and ok: "entry_ok True (op_entry x)"
    and inv: "engine_inv cfg (cfg_memtable_size_bytes cfg) fs e flushed pending" and len: "Suc (length (flushed @ pending)) < 2 ^ 32"
  shows "\<exists>fs' e' flushed' pending'. engine_write io mt fs e x = Some (fs', e', Status_Ok)
    \<and> engine_inv cfg (cfg_memtable_size_bytes cfg) fs' e' flushed' pending' \<and> flushed' @ pending' = flushed @ pending @ [x]
    \<and> (pending = [] \<and> 6000 + length (op_key x) + length (slv_data (op_value x)) \<le> cfg_memtable_size_bytes cfg \<longrightarrow>
         pending' = [x] \<and> cm_files (se_compaction_manager e') = cm_files (se_compaction_manager e))"
proof -
  let ?T = "cfg_memtable_size_bytes cfg" and ?ops = "flushed @ pending"
  obtain m es where m: "se_active_memtable e = Some m" "MemTable_wf m" "MemTable_entries m = Some es"
    "\<forall>k. map_of es k = last_write op_key op_value pending k" "sum_list (map (EncodedSize \<circ> block_entry_of) es) \<le> ?T"
    and c: "se_config e = cfg" "se_immutable_memtable e = None" "log_inv cfg fs e ?ops" "cat_inv cfg fs e flushed"
      "checkpoint_inv cfg fs e flushed" "\<not> se_shutdown e"
    using engine_invE [OF inv] .
  let ?es = "ordered_put (op_key x) (op_value x) es"
  from engine_write_run [OF io c(1,3) m(1-3), of x mt] obtain fs1 e1 wal m'
    where m': "MemTable_wf m'" "MemTable_entries m' = Some ?es" and aw: "after_write fs e wal ?ops x m' = (fs1, e1)"
      and run: "engine_write io mt fs e x
        = (if MemTable_ApproximateMemoryUsage m' \<ge> ?T then FlushMemTable io fs1 e1 else Some (fs1, e1, Status_Ok))"
      and log: "log_inv cfg fs1 e1 (flushed @ pending @ [x])" by (metis (no_types, lifting) append.assoc case_prod_conv fst_conv snd_conv surj_pair)
  have eqs: "fs1 = fs(wal_current_path cfg \<mapsto> concat (map SerializeEntry (stamp 1 (map op_entry (?ops @ [x])))))"
      "e1 = e\<lparr>se_wal := Some (wal\<lparr>wal_next_seq := wal_next_seq wal + 1\<rparr>), se_wal_writes := se_wal_writes e + 1, se_active_memtable := Some m'\<rparr>"
    using aw c(1) by (simp_all add: after_write_def)
  have e1: "se_compaction_manager e1 = se_compaction_manager e" "se_active_memtable e1 = Some m'" using aw by (auto simp: after_write_def)
  have lw: "\<forall>k. map_of ?es k = last_write op_key op_value (pending @ [x]) k" using m(4) by (simp add: map_of_ordered_put)
  from EncodedSize_op [OF ok] have B: "sum_list (map (EncodedSize \<circ> block_entry_of) ?es) \<le> 2 ^ 28"
    using sum_ordered_put [of "EncodedSize \<circ> block_entry_of" "op_key x" "op_value x" es] m(5) cfg by (simp add: config_ok_def)
  have base: "se_config e1 = cfg" "se_immutable_memtable e1 = None" "cat_inv cfg fs1 e1 flushed" "checkpoint_inv cfg fs1 e1 flushed"
      "\<not> se_shutdown e1"
    using c(1,2,5,6) by (simp_all add: eqs checkpoint_inv_def cat_inv_cong [OF c(4)])
  show ?thesis
  proof (cases "MemTable_ApproximateMemoryUsage m' \<ge> ?T")
    case True
    have "engine_inv cfg (2 ^ 28) fs1 e1 flushed (pending @ [x])"
      using base log lw m' B e1 by (auto simp: engine_inv_def mem_inv_def)
    from FlushMemTable_inv [OF io cfg this] len obtain fs' e' where "FlushMemTable io fs1 e1 = Some (fs', e', Status_Ok)"
      "engine_inv cfg 0 fs' e' (flushed @ pending @ [x]) []" by auto
    moreover from this(2) have "engine_inv cfg ?T fs' e' (flushed @ pending @ [x]) []" by (rule engine_inv_mono) simp
    moreover have "\<not> (pending = [] \<and> 6000 + length (op_key x) + length (slv_data (op_value x)) \<le> ?T)"
      using small_write_fits [OF m'] m(4) True by fastforce
    ultimately show ?thesis
      using True run by (intro exI [of _ fs'] exI [of _ e'] exI [of _ "flushed @ pending @ [x]"] exI [of _ "[]"]) simp
  next
    case False
    have "engine_inv cfg ?T fs1 e1 flushed (pending @ [x])"
      using base log lw m' MemTable_usage [OF m'] False e1 by (auto simp: engine_inv_def mem_inv_def)
    with False run e1 show ?thesis by (intro exI [of _ fs1] exI [of _ e1] exI [of _ flushed] exI [of _ "pending @ [x]"]) simp
  qed
qed

subsection \<open>Reading in a session\<close>

definition engine_read :: "table_op list \<Rightarrow> table_op list \<Rightarrow> key \<Rightarrow> bytes option" where
  "engine_read flushed pending k =
     (case visible (last_write op_key op_value pending k) of
        Some v \<Rightarrow> Some v
      | None \<Rightarrow> visible (last_write op_key op_value flushed k))"

lemma entry_answer_block_entry: "entry_answer (map_option (\<lambda>v. block_entry_of (k, v)) r) = visible r"
  by (cases r) (simp_all add: entry_answer_def visible_def block_entry_of_def)

lemma first_hit_segments:
  "list_all2 file_of segs datas \<Longrightarrow>
   first_hit k (rev datas) = map_option (\<lambda>v. block_entry_of (k, v)) (last_write op_key op_value (concat segs) k)"
proof (induction segs arbitrary: datas rule: rev_induct)
  case (snoc seg segs)
  then obtain es ess where d: "datas = ess @ [es]" "list_all2 file_of segs ess" "file_of seg es"
    by (auto simp: list_all2_append1 list_all2_Cons1)
  from d(3) have "List.find (\<lambda>e. be_key e = k) es = map_option (\<lambda>v. block_entry_of (k, v)) (last_write op_key op_value seg k)"
    by (simp add: file_of_def)
  with d(1) snoc.IH [OF d(2)] show ?case by (simp add: last_write_append split: option.split)
qed simp

lemma cat_inv_search:
  assumes io: "io_fine io" and srt: "sorts srt" and cat: "cat_inv cfg fs e flushed" and len: "length flushed < 2 ^ 32"
  shows "GetFromSSTables srt io fs e k = Some (Value (visible (last_write op_key op_value flushed k)))"
proof -
  let ?files = "cm_files (se_compaction_manager e)"
  obtain datas segs where d: "list_all2 (meta_describes fs 0) ?files datas" "list_all2 file_of segs datas" "concat segs = flushed"
    and q: "map sm_sequence_number ?files = map to_u64 [1 ..< Suc (length ?files)]" "length ?files \<le> length flushed"
    using cat unfolding cat_inv_def Let_def by auto
  have seq: "sm_sequence_number (?files ! i) = to_u64 (Suc i)" if "i < length ?files" for i
    using arg_cong [OF q(1), of "\<lambda>xs. xs ! i"] that by (simp del: upt_Suc)
  have lev: "\<forall>m \<in> set ?files. sm_level m = 0"
    using d(1) by (induction rule: list_all2_induct) (auto simp: meta_describes_def)
  have "sorted_wrt (\<lambda>a b. read_order b a) ?files"
    using lev seq q(2) len by (auto simp: sorted_wrt_iff_nth_less read_order_def intro!: to_u64_less)
  then have "sorted_wrt read_order (rev ?files)" by (simp add: sorted_wrt_rev)
  then have "srt read_order ?files = rev ?files"
    by (intro sorts_unique [OF srt strict_weak_read_order]) simp_all
  moreover have r: "list_all2 (\<lambda>m es. \<exists>level. meta_describes fs level m es) (rev ?files) (rev datas)"
    using d(1) by (auto simp: list_all2_rev intro: list_all2_mono)
  ultimately show ?thesis
    using search_files_fine [OF io r, of k] first_hit_segments [OF d(2), of k] d(3)
    by (simp add: GetFromSSTables_def AllFiles_def entry_answer_block_entry)
qed

lemma engine_Get_inv:
  assumes io: "io_fine io" and srt: "sorts srt" and inv: "engine_inv cfg B fs e flushed pending" and len: "length flushed < 2 ^ 32"
  shows "StorageEngine_Get srt io fs e k = Some (Value (engine_read flushed pending k))"
proof -
  obtain m es where m: "se_active_memtable e = Some m" "MemTable_wf m" "MemTable_entries m = Some es"
    "\<forall>k. map_of es k = last_write op_key op_value pending k"
    and c: "se_immutable_memtable e = None" "cat_inv cfg fs e flushed"
    using inv by (auto simp: engine_inv_def mem_inv_def)
  have "MemTable_Get m k = Some (visible (last_write op_key op_value pending k))"
    using MemTable_Get_entries [OF m(2,3)] m(4) by simp
  then show ?thesis
    using m(1) c(1) cat_inv_search [OF io srt c(2) len, of k]
    by (auto simp: StorageEngine_Get_def Get_memtables_def engine_read_def split: option.split)
qed

subsection \<open>Sessions\<close>

datatype session_op = Write_op table_op | Flush_op

text \<open>A call that reports success; \<^const>\<open>None\<close> is a fault or an error.\<close>

fun session_step :: "io \<Rightarrow> (nat \<Rightarrow> u32) \<Rightarrow> fs \<times> StorageEngine \<Rightarrow> session_op \<Rightarrow> (fs \<times> StorageEngine) option" where
  "session_step io mt (fs, e) (Write_op x) =
     do { (fs, e, st) \<leftarrow> engine_write io mt fs e x; if Status_IsOk st then Some (fs, e) else None }"
| "session_step io mt (fs, e) Flush_op =
     do { (fs, e, st) \<leftarrow> FlushMemTable io fs e; if Status_IsOk st then Some (fs, e) else None }"

fun session_writes :: "session_op list \<Rightarrow> table_op list" where
  "session_writes [] = []"
| "session_writes (Write_op x # ss) = x # session_writes ss"
| "session_writes (Flush_op # ss) = session_writes ss"

lemma session_inv:
  assumes io: "io_fine io" and cfg: "config_ok cfg"
  shows "engine_inv cfg (cfg_memtable_size_bytes cfg) fs e flushed pending \<Longrightarrow>
    \<forall>x \<in> set (session_writes ss). entry_ok True (op_entry x) \<Longrightarrow> length (flushed @ pending @ session_writes ss) < 2 ^ 32 \<Longrightarrow>
    \<exists>fs' e' flushed' pending'. run_ops (session_step io mt) (fs, e) ss = Some (fs', e')
      \<and> engine_inv cfg (cfg_memtable_size_bytes cfg) fs' e' flushed' pending'
      \<and> flushed' @ pending' = flushed @ pending @ session_writes ss"
proof (induction ss arbitrary: fs e flushed pending)
  case Nil
  then show ?case by auto
next
  case (Cons s ss)
  have "\<exists>fs1 e1 flushed1 pending1. session_step io mt (fs, e) s = Some (fs1, e1)
      \<and> engine_inv cfg (cfg_memtable_size_bytes cfg) fs1 e1 flushed1 pending1
      \<and> flushed1 @ pending1 @ session_writes ss = flushed @ pending @ session_writes (s # ss)"
  proof (cases s)
    case (Write_op x)
    with engine_write_inv [OF io cfg _ Cons.prems(1), of x mt] Cons.prems obtain fs1 e1 flushed1 pending1 where
      w: "engine_write io mt fs e x = Some (fs1, e1, Status_Ok)"
      "engine_inv cfg (cfg_memtable_size_bytes cfg) fs1 e1 flushed1 pending1" "flushed1 @ pending1 = flushed @ pending @ [x]"
      by auto
    have "flushed1 @ pending1 @ session_writes ss = flushed @ pending @ session_writes (s # ss)"
      using w(3) Write_op by (metis append.assoc append_Cons append_Nil session_writes.simps(2))
    with w Write_op show ?thesis by (auto simp: Status_IsOk_def Status_Ok_def)
  next
    case Flush_op
    have "cfg_memtable_size_bytes cfg \<le> 2 ^ 28" using cfg by (simp add: config_ok_def)
    from FlushMemTable_inv [OF io cfg Cons.prems(1) this] Cons.prems(3) obtain fs1 e1 where
      "FlushMemTable io fs e = Some (fs1, e1, Status_Ok)" "engine_inv cfg 0 fs1 e1 (flushed @ pending) []" by auto
    with Flush_op engine_inv_mono [of cfg 0 fs1 e1 "flushed @ pending" "[]" "cfg_memtable_size_bytes cfg"] show ?thesis
      by (intro exI [of _ fs1] exI [of _ e1] exI [of _ "flushed @ pending"] exI [of _ "[]"]) (simp add: Status_IsOk_def Status_Ok_def)
  qed
  then obtain fs1 e1 flushed1 pending1 where s: "session_step io mt (fs, e) s = Some (fs1, e1)"
      "engine_inv cfg (cfg_memtable_size_bytes cfg) fs1 e1 flushed1 pending1"
      "flushed1 @ pending1 @ session_writes ss = flushed @ pending @ session_writes (s # ss)" by blast
  have "\<forall>x \<in> set (session_writes ss). entry_ok True (op_entry x)" using Cons.prems(2) by (cases s) auto
  from Cons.IH [OF s(2) this] s Cons.prems(3) show ?case by simp
qed

subsection \<open>Opening a directory\<close>

lemma bump_seq_stamp:
  "unat n + length es < 2 ^ 64 \<Longrightarrow> foldl bump_seq n (stamp n es) = n + of_nat (length es)"
proof (induction es arbitrary: n)
  case (Cons e es)
  then have "unat (n + 1) = Suc (unat n)" by (intro unat_plus_1_u64) simp
  with Cons show ?case by (simp add: bump_seq_def add.assoc)
qed simp

lemma unflushed_stamp:
  assumes "n \<le> length es" "length es < 2 ^ 32"
  shows "unflushed (to_u64 n) (stamp 1 es) = drop n (stamp 1 es)"
proof -
  have u: "map (unat \<circ> we_seq) (stamp 1 es) = [1 ..< Suc (length es)]" using stamp_seqs [of 1 es] assms(2) by simp
  have len: "length (stamp 1 es) = length es" using arg_cong [OF u, of length] by simp
  have seq: "unat (we_seq (stamp 1 es ! i)) = Suc i" if "i < length es" for i
    using arg_cong [OF u, of "\<lambda>xs. xs ! i"] that len by (simp del: upt_Suc)
  have nat_n: "unat (to_u64 n) = n" using assms by simp
  have "to_u64 n < we_seq (stamp 1 es ! i) \<longleftrightarrow> n \<le> i" if "i < length es" for i
    using seq [OF that] nat_n by (simp add: word_less_nat_alt less_Suc_eq_le)
  then have "\<forall>e \<in> set (take n (stamp 1 es)). \<not> to_u64 n < we_seq e" "\<forall>e \<in> set (drop n (stamp 1 es)). to_u64 n < we_seq e"
    using assms(1) len by (auto simp: set_conv_nth)
  then have "unflushed (to_u64 n) (take n (stamp 1 es) @ drop n (stamp 1 es)) = drop n (stamp 1 es)"
    unfolding unflushed_def filter_append by (simp add: filter_id_conv filter_empty_conv del: append_take_drop_id)
  then show ?thesis by simp
qed

lemma entry_op_op_entry [simp]: "entry_op (op_entry x) = x"
  by (cases x) (simp_all add: entry_op_def kPut_def kDelete_def)

lemma known_type_op_entry [simp]: "known_type (op_entry x)"
  by (cases x) (simp_all add: known_type_def)

lemma memtable_of_ops:
  "\<exists>m es. run_ops (MemTable_apply mt) MemTable_new xs = Some m \<and> MemTable_wf m \<and> MemTable_entries m = Some es
     \<and> (\<forall>k. map_of es k = last_write op_key op_value xs k)"
proof -
  obtain m es where m: "run_ops (MemTable_apply mt) MemTable_new xs = Some m" "MemTable_wf m" "MemTable_entries m = Some es"
    and g: "\<forall>k. SkipList_Get (mem_table m) k = Some (map_of es k)"
    and w: "\<forall>k. SkipList_Get (mem_table m) k
      = (case last_write op_key op_value xs k of Some v \<Rightarrow> Some (Some v) | None \<Rightarrow> SkipList_Get (mem_table MemTable_new) k)"
    using memtable.run_ops_summary [OF MemTable_new_ok(1), of mt xs] by blast
  have "SkipList_Get (mem_table MemTable_new) k = Some None" for k
    using memtable.get_entries [OF MemTable_new_ok] by simp
  then have "map_of es k = last_write op_key op_value xs k" for k
    using g [rule_format, of k] w [rule_format, of k] by (cases "last_write op_key op_value xs k") simp_all
  with m show ?thesis by blast
qed

text \<open>The engine that opening a directory builds from its checkpoint and its log.\<close>

lemma StorageEngine_Open_fine:
  assumes io: "io_fine io"
    and cp: "LoadCheckpoint io fs (CheckpointManager_new (cfg_data_dir cfg)) = Value \<lparr>cp_last_flushed_lsn = to_u64 n, cp_sstables = metas\<rparr>"
    and lev: "\<forall>m \<in> set metas. 0 \<le> sm_level m \<and> sm_level m < kNumLevels"
    and log: "content fs (wal_current_path cfg) = concat (map SerializeEntry (stamp 1 (map op_entry ops)))"
    and ok: "\<forall>x \<in> set ops. entry_ok True (op_entry x)" and len: "length ops < 2 ^ 32" "n \<le> length ops"
  shows "\<exists>e. StorageEngine_Open io mt fs cfg
      = Some (fs(wal_current_path cfg \<mapsto> concat (map SerializeEntry (stamp 1 (map op_entry ops)))), Value e)
    \<and> se_config e = cfg \<and> se_immutable_memtable e = None \<and> se_next_sst_sequence e = 1 \<and> \<not> se_shutdown e
    \<and> se_checkpoint_manager e = CheckpointManager_new (cfg_data_dir cfg)
    \<and> se_compaction_manager e = (CompactionManager_new (cfg_sst_dir cfg) kNumLevels)\<lparr>cm_files := metas\<rparr>
    \<and> (\<exists>wal. se_wal e = Some wal \<and> WAL_wf wal \<and> wal_path wal = wal_current_path cfg \<and> wal_next_seq wal = to_u64 (length ops + 1))
    \<and> (\<exists>B. mem_inv B e (drop n ops))"
proof -
  let ?p = "wal_current_path cfg" and ?es = "stamp 1 (map op_entry ops)" and ?cm = "CompactionManager_new (cfg_sst_dir cfg) kNumLevels"
  let ?fs = "fs(?p \<mapsto> concat (map SerializeEntry ?es))"
  have eo: "\<forall>e \<in> set ?es. entry_ok True e" using ok by (intro entry_ok_stamp) simp
  then have "\<forall>e \<in> set ?es. entry_ok False e" by (simp add: entry_ok_def)
  then have scan: "WAL_scan False (concat (map SerializeEntry ?es)) = ?es" "WAL_scan True (concat (map SerializeEntry ?es)) = ?es"
    using eo by (auto intro: open_log.scan_all recovery_log.scan_all)
  have seq: "foldl bump_seq 1 ?es = to_u64 (Suc (length ops))"
    using bump_seq_stamp [of 1 "map op_entry ops"] len by (simp add: to_u64_def)
  obtain m es where m: "run_ops (MemTable_apply mt) MemTable_new (drop n ops) = Some m" "MemTable_wf m" "MemTable_entries m = Some es"
    "\<forall>k. map_of es k = last_write op_key op_value (drop n ops) k" using memtable_of_ops by blast
  have "map entry_op (unflushed (to_u64 n) ?es) = drop n ops"
    using len by (simp add: unflushed_stamp drop_map [symmetric] comp_def)
  moreover have "\<forall>e \<in> set ?es. known_type e" by (simp add: stamp_known_type)
  ultimately have rec: "RecoverMemTable io mt ?fs ?p MemTable_new (to_u64 n)
      = Some (?fs, m, Value (length (unflushed (to_u64 n) ?es)))"
    using RecoverMemTable_fine [OF io, where fs = ?fs and p = ?p] replay_entries_known [of ?es] scan(2) m(1) by simp
  have add: "add_files ?cm metas = (?cm\<lparr>cm_files := metas\<rparr>, Status_Ok)"
    using add_files_ok [of metas ?cm] lev by (simp add: CompactionManager_new_def)
  let ?wal = "\<lparr>wal_path = ?p, wal_file = \<lparr>os_path = ?p, os_buf = [], os_good = True\<rparr>, wal_next_seq = to_u64 (Suc (length ops))\<rparr>"
  let ?e = "(StorageEngine_new cfg)\<lparr>se_compaction_manager := ?cm\<lparr>cm_files := metas\<rparr>, se_wal := Some ?wal, se_active_memtable := Some m\<rparr>"
  have "StorageEngine_Open io mt fs cfg = Some (?fs, Value ?e)"
    using cp add rec seq scan(1)
    by (simp add: StorageEngine_Open_def Recover_def StorageEngine_new_def WAL_Open_fine [OF io] log Status_IsOk_def Status_Ok_def Let_def ErrorOr_status_def)
  moreover have "mem_inv (sum_list (map (EncodedSize \<circ> block_entry_of) es)) ?e (drop n ops)"
    using m by (simp add: mem_inv_def)
  ultimately show ?thesis by (auto simp: StorageEngine_new_def WAL_wf_def)
qed

definition fresh_directory :: "StorageConfig \<Rightarrow> fs \<Rightarrow> bool" where
  "fresh_directory cfg fs \<longleftrightarrow> fs (wal_current_path cfg) = None
     \<and> fs (ckm_checkpoint_path (CheckpointManager_new (cfg_data_dir cfg))) = None"

lemma map_of_all_None: "\<forall>k. map_of es k = None \<Longrightarrow> es = []"
  by (cases es) (auto, metis option.distinct(1))

lemma Open_fresh_fine:
  assumes io: "io_fine io" and fresh: "fresh_directory cfg fs"
  shows "\<exists>e. StorageEngine_Open io mt fs cfg = Some (fs(wal_current_path cfg \<mapsto> []), Value e)
    \<and> se_config e = cfg \<and> se_immutable_memtable e = None \<and> se_next_sst_sequence e = 1 \<and> \<not> se_shutdown e
    \<and> se_checkpoint_manager e = CheckpointManager_new (cfg_data_dir cfg)
    \<and> se_compaction_manager e = CompactionManager_new (cfg_sst_dir cfg) kNumLevels
    \<and> log_inv cfg (fs(wal_current_path cfg \<mapsto> [])) e []
    \<and> (\<exists>m. se_active_memtable e = Some m \<and> MemTable_wf m \<and> MemTable_entries m = Some [])"
proof -
  let ?ck = "CheckpointManager_new (cfg_data_dir cfg)"
  have "LoadCheckpoint io fs ?ck = Value \<lparr>cp_last_flushed_lsn = to_u64 0, cp_sstables = []\<rparr>"
    using fresh by (simp add: fresh_directory_def LoadCheckpoint_def file_exists_def to_u64_def)
  moreover have "content fs (wal_current_path cfg) = concat (map SerializeEntry (stamp 1 (map op_entry [])))"
    using fresh by (simp add: fresh_directory_def content_def)
  ultimately obtain e B where o: "StorageEngine_Open io mt fs cfg = Some (fs(wal_current_path cfg \<mapsto> []), Value e)"
      "se_config e = cfg" "se_immutable_memtable e = None" "se_next_sst_sequence e = 1" "\<not> se_shutdown e" "se_checkpoint_manager e = ?ck"
      "se_compaction_manager e = CompactionManager_new (cfg_sst_dir cfg) kNumLevels" "mem_inv B e []"
    and w: "\<exists>wal. se_wal e = Some wal \<and> WAL_wf wal \<and> wal_path wal = wal_current_path cfg \<and> wal_next_seq wal = 1"
    using StorageEngine_Open_fine [OF io, of fs cfg 0 "[]" "[]" mt] by (auto simp: CompactionManager_new_def to_u64_def)
  have "\<exists>m. se_active_memtable e = Some m \<and> MemTable_wf m \<and> MemTable_entries m = Some []"
    using o(8) map_of_all_None by (fastforce simp: mem_inv_def)
  moreover have "log_inv cfg (fs(wal_current_path cfg \<mapsto> [])) e []" using w by (simp add: log_inv_def to_u64_def)
  ultimately show ?thesis using o(1-7) by blast
qed

lemma Open_fresh:
  assumes io: "io_fine io" and fresh: "fresh_directory cfg fs"
  shows "\<exists>fs' e. StorageEngine_Open io mt fs cfg = Some (fs', Value e)
    \<and> engine_inv cfg (cfg_memtable_size_bytes cfg) fs' e [] []"
proof -
  let ?fs = "fs(wal_current_path cfg \<mapsto> [])"
  obtain e m where o: "StorageEngine_Open io mt fs cfg = Some (?fs, Value e)" "se_config e = cfg" "se_immutable_memtable e = None"
      "se_next_sst_sequence e = 1" "se_checkpoint_manager e = CheckpointManager_new (cfg_data_dir cfg)"
      "se_compaction_manager e = CompactionManager_new (cfg_sst_dir cfg) kNumLevels" "log_inv cfg ?fs e []"
      "se_active_memtable e = Some m" "MemTable_wf m" "MemTable_entries m = Some []" "\<not> se_shutdown e"
    using Open_fresh_fine [OF io fresh, of mt] by blast
  have "mem_inv (cfg_memtable_size_bytes cfg) e []" using o(8-10) by (simp add: mem_inv_def)
  moreover have "cat_inv cfg ?fs e []" using o by (simp add: cat_inv_def CompactionManager_new_def to_u64_def)
  moreover have "checkpoint_inv cfg ?fs e []"
    using o fresh by (simp add: checkpoint_inv_def CompactionManager_new_def fresh_directory_def)
  ultimately show ?thesis using o(1-3,7,11) by (auto simp: engine_inv_def)
qed

text \<open>A directory left behind by an engine, however it stopped, opens to the same contents.\<close>

lemma Open_again:
  assumes io: "io_fine io" and inv: "engine_inv cfg B fs e flushed pending"
    and ok: "\<forall>x \<in> set (flushed @ pending). entry_ok True (op_entry x)" and len: "length (flushed @ pending) < 2 ^ 32"
  shows "\<exists>e' B'. StorageEngine_Open io mt fs cfg = Some (fs, Value e') \<and> se_next_sst_sequence e' = 1
    \<and> engine_inv cfg B' fs (e'\<lparr>se_next_sst_sequence := se_next_sst_sequence e\<rparr>) flushed pending"
proof -
  let ?ck = "CheckpointManager_new (cfg_data_dir cfg)" and ?files = "cm_files (se_compaction_manager e)" and ?p = "wal_current_path cfg"
  have inv': "log_inv cfg fs e (flushed @ pending)" "cat_inv cfg fs e flushed" "checkpoint_inv cfg fs e flushed"
    using inv by (simp_all add: engine_inv_def)
  have files: "length ?files \<le> length flushed" "\<forall>m \<in> set ?files. SSTableMeta_ok m"
    using inv'(2) by (simp_all add: cat_inv_def Let_def)
  have lev: "\<forall>m \<in> set ?files. 0 \<le> sm_level m \<and> sm_level m < kNumLevels"
  proof -
    obtain datas where "list_all2 (meta_describes fs 0) ?files datas" using inv'(2) by (auto simp: cat_inv_def Let_def)
    then show ?thesis by (induction rule: list_all2_induct) (auto simp: meta_describes_def kNumLevels_def)
  qed
  have cp: "LoadCheckpoint io fs ?ck = Value \<lparr>cp_last_flushed_lsn = to_u64 (length flushed), cp_sstables = ?files\<rparr>"
  proof (cases "?files = []")
    case True
    then show ?thesis using inv'(3) by (simp add: checkpoint_inv_def LoadCheckpoint_def file_exists_def to_u64_def)
  next
    case False
    have "Checkpoint_ok \<lparr>cp_last_flushed_lsn = to_u64 (length flushed), cp_sstables = ?files\<rparr>"
      using files len by (simp add: Checkpoint_ok_def)
    from decode_encode_checkpoint [OF this] False inv'(3) io show ?thesis
      by (simp add: checkpoint_inv_def LoadCheckpoint_def file_exists_def open_read_def)
  qed
  let ?c = "concat (map SerializeEntry (stamp 1 (map op_entry (flushed @ pending))))"
  have log: "content fs ?p = ?c" "fs(?p \<mapsto> ?c) = fs"
    using inv'(1) by (simp_all add: log_inv_def content_def fun_upd_idem)
  from StorageEngine_Open_fine [OF io cp lev log(1) ok len, of mt] obtain e' B' where
    o: "StorageEngine_Open io mt fs cfg = Some (fs, Value e')" "se_config e' = cfg" "se_immutable_memtable e' = None"
      "se_next_sst_sequence e' = 1" "se_checkpoint_manager e' = ?ck"
      "se_compaction_manager e' = (CompactionManager_new (cfg_sst_dir cfg) kNumLevels)\<lparr>cm_files := ?files\<rparr>" "mem_inv B' e' pending" "\<not> se_shutdown e'"
    and w: "\<exists>wal. se_wal e' = Some wal \<and> WAL_wf wal \<and> wal_path wal = ?p \<and> wal_next_seq wal = to_u64 (length (flushed @ pending) + 1)"
    unfolding log(2) by auto
  let ?e = "e'\<lparr>se_next_sst_sequence := se_next_sst_sequence e\<rparr>"
  have "log_inv cfg fs ?e (flushed @ pending)" "mem_inv B' ?e pending" "checkpoint_inv cfg fs ?e flushed"
    using w o inv' by (simp_all add: log_inv_def mem_inv_def checkpoint_inv_def)
  moreover have "cat_inv cfg fs ?e flushed"
    using inv'(2) o(6) by (simp add: cat_inv_def CompactionManager_new_def Let_def del: upt_Suc)
  ultimately show ?thesis using o(1-4,8) by (auto simp: engine_inv_def)
qed

lemma StorageEngine_Get_next_sequence [simp]:
  "StorageEngine_Get srt io fs (e\<lparr>se_next_sst_sequence := n\<rparr>) k = StorageEngine_Get srt io fs e k"
  by (simp add: StorageEngine_Get_def Get_memtables_def GetFromSSTables_def cong: if_cong option.case_cong)

text \<open>A session on a new directory.\<close>

lemma session_fresh:
  assumes "io_fine io" "config_ok cfg" "fresh_directory cfg fs"
    "\<forall>x \<in> set (session_writes ss). entry_ok True (op_entry x)" "length (session_writes ss) < 2 ^ 32"
  shows "\<exists>fs0 e0 fs1 e1 flushed pending. StorageEngine_Open io mt fs cfg = Some (fs0, Value e0)
    \<and> run_ops (session_step io mt) (fs0, e0) ss = Some (fs1, e1)
    \<and> engine_inv cfg (cfg_memtable_size_bytes cfg) fs1 e1 flushed pending \<and> flushed @ pending = session_writes ss"
proof -
  obtain fs0 e0 where o: "StorageEngine_Open io mt fs cfg = Some (fs0, Value e0)"
      "engine_inv cfg (cfg_memtable_size_bytes cfg) fs0 e0 [] []"
    using Open_fresh [OF assms(1,3)] by blast
  from session_inv [OF assms(1,2) o(2) assms(4), of mt] assms(5) o(1) show ?thesis by auto
qed

subsection \<open>Properties of sessions\<close>

lemma engine_read_whole:
  assumes "flushed @ pending = xs"
  shows "last_write op_key op_value xs k = None \<Longrightarrow> engine_read flushed pending k = None"
    and "last_write op_key op_value xs k = Some \<lparr>is_tombstone = False, slv_data = v\<rparr> \<Longrightarrow> engine_read flushed pending k = Some v"
  using assms by (auto simp: engine_read_def last_write_append visible_def split: option.splits if_splits)

lemma config_ok_default [simp]: "config_ok StorageConfig_default"
  by (simp add: config_ok_def StorageConfig_default_def)

lemma fresh_directory_empty [simp]: "fresh_directory cfg Map.empty"
  by (simp add: fresh_directory_def)

text \<open>The keys and values of an operation that a log record can hold, by their lengths.\<close>

lemma entry_ok_op [simp]:
  "entry_ok True \<lparr>we_seq = n, we_type = kPut, we_key = k, we_value = v\<rparr> \<longleftrightarrow> length k + length v + 17 \<le> max_payload"
  "entry_ok True \<lparr>we_seq = n, we_type = kDelete, we_key = k, we_value = []\<rparr> \<longleftrightarrow> length k + 13 \<le> max_payload"
  by (auto simp: entry_ok_def PayloadSize_def max_payload_def kPut_def kDelete_def)

text \<open>C1. The engine returns the last value put: a session on a new directory, of any puts, deletes and
  flushes, with flushes of its own whenever the memtable is full and no round of the compaction thread in
  between, runs without an error. Then a key whose last write is a put reads that value, from memory or from
  the newest file that has it, and a key that was never written reads as absent.\<close>

theorem Engine_reads_last_put:
  assumes "io_fine io" and "sorts srt" and "config_ok cfg" and "fresh_directory cfg fs"
    and "\<forall>x \<in> set (session_writes ss). entry_ok True (op_entry x)" and "length (session_writes ss) < 2 ^ 32"
  shows "\<exists>fs0 e0 fs1 e1. StorageEngine_Open io mt fs cfg = Some (fs0, Value e0)
    \<and> run_ops (session_step io mt) (fs0, e0) ss = Some (fs1, e1)
    \<and> (\<forall>k. last_write op_key op_value (session_writes ss) k = None \<longrightarrow> StorageEngine_Get srt io fs1 e1 k = Some (Value None))
    \<and> (\<forall>k v. last_write op_key op_value (session_writes ss) k = Some \<lparr>is_tombstone = False, slv_data = v\<rparr> \<longrightarrow>
         StorageEngine_Get srt io fs1 e1 k = Some (Value (Some v)))"
proof -
  obtain fs0 e0 fs1 e1 flushed pending where s: "StorageEngine_Open io mt fs cfg = Some (fs0, Value e0)"
      "run_ops (session_step io mt) (fs0, e0) ss = Some (fs1, e1)"
      "engine_inv cfg (cfg_memtable_size_bytes cfg) fs1 e1 flushed pending" "flushed @ pending = session_writes ss"
    using session_fresh [OF assms(1,3,4,5,6)] by blast
  have "length flushed < 2 ^ 32" using arg_cong [OF s(4), of length] assms(6) by simp
  then have "\<forall>k. StorageEngine_Get srt io fs1 e1 k = Some (Value (engine_read flushed pending k))"
    using engine_Get_inv [OF assms(1,2) s(3)] by blast
  with s engine_read_whole [OF s(4)] show ?thesis by auto
qed

theorem Engine_reads_last_put_witness:
  "\<exists>fs0 e0 fs1 e1. StorageEngine_Open io_ideal (\<lambda>_. 0) Map.empty StorageConfig_default = Some (fs0, Value e0)
    \<and> run_ops (session_step io_ideal (\<lambda>_. 0)) (fs0, e0)
        [Write_op (Put_op ''a'' [1]), Flush_op, Write_op (Put_op ''a'' [2]), Write_op (Put_op ''b'' [])] = Some (fs1, e1)
    \<and> StorageEngine_Get sort_by io_ideal fs1 e1 ''a'' = Some (Value (Some [2]))
    \<and> StorageEngine_Get sort_by io_ideal fs1 e1 ''c'' = Some (Value None)"
proof -
  let ?ss = "[Write_op (Put_op ''a'' [1]), Flush_op, Write_op (Put_op ''a'' [2]), Write_op (Put_op ''b'' [])]"
  have "\<forall>x \<in> set (session_writes ?ss). entry_ok True (op_entry x)" by (simp add: max_payload_def)
  moreover have "last_write op_key op_value (session_writes ?ss) ''a'' = Some \<lparr>is_tombstone = False, slv_data = [2]\<rparr>"
    "last_write op_key op_value (session_writes ?ss) ''c'' = None" by (simp_all add: last_write_def)
  ultimately show ?thesis
    using Engine_reads_last_put [OF io_fine_ideal sorts_sort_by config_ok_default fresh_directory_empty, of ?ss "\<lambda>_. 0"] by fastforce
qed

text \<open>C2. A crash loses no acknowledged write: when the process of a session of puts, deletes and flushes on a
  new directory, without a round of the compaction thread, disappears at any point between two calls, opening the directory again succeeds with the file system unchanged, and the new
  engine, whatever the random heights of its memtable, answers every lookup exactly as the lost one did.\<close>

theorem Engine_crash_recovery:
  assumes "io_fine io" and "sorts srt" and "config_ok cfg" and "fresh_directory cfg fs"
    and "\<forall>x \<in> set (session_writes ss). entry_ok True (op_entry x)" and "length (session_writes ss) < 2 ^ 32"
  shows "\<exists>fs0 e0 fs1 e1 e2. StorageEngine_Open io mt fs cfg = Some (fs0, Value e0)
    \<and> run_ops (session_step io mt) (fs0, e0) ss = Some (fs1, e1)
    \<and> StorageEngine_Open io mt' fs1 cfg = Some (fs1, Value e2)
    \<and> (\<forall>k. \<exists>r. StorageEngine_Get srt io fs1 e2 k = Some (Value r) \<and> StorageEngine_Get srt io fs1 e1 k = Some (Value r))"
proof -
  obtain fs0 e0 fs1 e1 flushed pending where s: "StorageEngine_Open io mt fs cfg = Some (fs0, Value e0)"
      "run_ops (session_step io mt) (fs0, e0) ss = Some (fs1, e1)"
      "engine_inv cfg (cfg_memtable_size_bytes cfg) fs1 e1 flushed pending" "flushed @ pending = session_writes ss"
    using session_fresh [OF assms(1,3,4,5,6)] by blast
  have len: "length (flushed @ pending) < 2 ^ 32" "length flushed < 2 ^ 32" using arg_cong [OF s(4), of length] assms(6) by simp_all
  obtain e2 B where o: "StorageEngine_Open io mt' fs1 cfg = Some (fs1, Value e2)"
      "engine_inv cfg B fs1 (e2\<lparr>se_next_sst_sequence := se_next_sst_sequence e1\<rparr>) flushed pending"
    using Open_again [OF assms(1) s(3) _ len(1)] assms(5) unfolding s(4) by blast
  from engine_Get_inv [OF assms(1,2) s(3) len(2)] engine_Get_inv [OF assms(1,2) o(2) len(2)] s o(1) show ?thesis by auto
qed

theorem Engine_crash_recovery_witness:
  "\<exists>fs0 e0 fs1 e1 e2. StorageEngine_Open io_ideal (\<lambda>_. 0) Map.empty StorageConfig_default = Some (fs0, Value e0)
    \<and> run_ops (session_step io_ideal (\<lambda>_. 0)) (fs0, e0) [Write_op (Put_op ''a'' [1]), Flush_op, Write_op (Delete_op ''a'')] = Some (fs1, e1)
    \<and> StorageEngine_Open io_ideal (\<lambda>_. 0) fs1 StorageConfig_default = Some (fs1, Value e2)
    \<and> StorageEngine_Get sort_by io_ideal fs1 e2 ''a'' = StorageEngine_Get sort_by io_ideal fs1 e1 ''a''"
proof -
  let ?ss = "[Write_op (Put_op ''a'' [1]), Flush_op, Write_op (Delete_op ''a'')]"
  have "\<forall>x \<in> set (session_writes ?ss). entry_ok True (op_entry x)" by (simp add: max_payload_def)
  moreover have "length (session_writes ?ss) < 2 ^ 32" by simp
  ultimately show ?thesis
    using Engine_crash_recovery [OF io_fine_ideal sorts_sort_by config_ok_default fresh_directory_empty, of ?ss "\<lambda>_. 0" "\<lambda>_. 0"]
    by metis
qed

end
