(* ===== verification/Engine_Compaction.thy ===== *)
theory Engine_Compaction
  imports Storage_Engine
begin

text \<open>The engine of \<^verbatim>\<open>src/storage/engine\<close> together with its compaction thread: what a round of
  \<^verbatim>\<open>CompactionLoop\<close> leaves in the catalogue, on disk and in the checkpoint, what a lookup finds
  then, and what opening the directory again finds.\<close>

subsection \<open>Entries by content\<close>

lemma first_hit_concat: "first_hit k ds = List.find (\<lambda>e. be_key e = k) (concat ds)"
  by (induction ds) (simp_all add: find_append split: option.split)

lemma distinct_find_member:
  "distinct (map be_key es) \<Longrightarrow> List.find (\<lambda>e. be_key e = k) es = Some e \<longleftrightarrow> e \<in> set es \<and> be_key e = k"
  by (induction es) auto

lemma find_mset:
  assumes "distinct (map be_key xs)" and "mset xs = mset ys"
  shows "List.find (\<lambda>e. be_key e = k) xs = List.find (\<lambda>e. be_key e = k) ys"
proof -
  have "distinct (map be_key ys)" "set xs = set ys"
    using assms by (metis distinct_map mset_eq_setD mset_eq_imp_distinct_iff mset_map)+
  with assms(1) have "List.find (\<lambda>e. be_key e = k) xs = Some e \<longleftrightarrow> List.find (\<lambda>e. be_key e = k) ys = Some e" for e
    by (simp add: distinct_find_member)
  then show ?thesis by (metis option.exhaust)
qed

lemma mset_concat_cong: "mset xss = mset yss \<Longrightarrow> mset (concat xss) = mset (concat yss)"
  by (metis mset_concat mset_map sum_mset_sum_list)

lemma last_write_None: "last_write kf vf xs k = None \<longleftrightarrow> k \<notin> kf ` set xs"
  by (auto simp: last_write_def find_None_iff)

lemma last_write_member: "last_write kf vf xs k = Some v \<Longrightarrow> \<exists>x \<in> set xs. kf x = k \<and> vf x = v"
  by (auto simp: last_write_def find_Some_iff) (metis length_rev nth_mem set_rev)

lemma file_of_keys: "file_of ops es \<Longrightarrow> be_key ` set es = op_key ` set ops"
proof -
  assume f: "file_of ops es"
  have "k \<notin> be_key ` set es \<longleftrightarrow> k \<notin> op_key ` set ops" for k
    using f last_write_None [of op_key op_value ops k] unfolding file_of_def
    by (metis (mono_tags, lifting) find_None_iff image_iff map_option_is_None)
  then show ?thesis by blast
qed

lemma file_of_entry:
  assumes "file_of ops es" and "distinct (map be_key es)" and "e \<in> set es"
  shows "\<exists>x \<in> set ops. e = block_entry_of (op_key x, op_value x)"
proof -
  have "List.find (\<lambda>e'. be_key e' = be_key e) es = Some e" using assms(2,3) by (simp add: distinct_find_member)
  with assms(1) obtain v where "last_write op_key op_value ops (be_key e) = Some v" "e = block_entry_of (be_key e, v)"
    by (auto simp: file_of_def)
  with last_write_member show ?thesis by metis
qed

text \<open>Files that were written from segments of operations hold no more entries than there are operations, and
  no key twice if no two operations have the same key.\<close>

lemma segments_size:
  "list_all2 file_of segs datas \<Longrightarrow> \<forall>es \<in> set datas. distinct (map be_key es) \<Longrightarrow> length (concat datas) \<le> length (concat segs)"
proof (induction rule: list_all2_induct)
  case (Cons seg segs es ess)
  have "length es = card (op_key ` set seg)"
    using Cons(1,4) file_of_keys distinct_card [of "map be_key es"] by fastforce
  also have "\<dots> \<le> length seg" using card_image_le card_length le_trans by (metis List.finite_set)
  finally show ?case using Cons(3,4) by simp
qed simp

lemma segments_distinct:
  "list_all2 file_of segs datas \<Longrightarrow> \<forall>es \<in> set datas. distinct (map be_key es) \<Longrightarrow> distinct (map op_key (concat segs)) \<Longrightarrow>
   distinct (map be_key (concat datas)) \<and> be_key ` set (concat datas) = op_key ` set (concat segs)"
proof (induction rule: list_all2_induct)
  case (Cons seg segs es ess)
  then show ?case using file_of_keys [OF Cons(1)] by (auto simp: image_Un)
qed simp

lemma segments_entry:
  "list_all2 file_of segs datas \<Longrightarrow> \<forall>es \<in> set datas. distinct (map be_key es) \<Longrightarrow> es \<in> set datas \<Longrightarrow> e \<in> set es \<Longrightarrow>
   \<exists>x \<in> set (concat segs). e = block_entry_of (op_key x, op_value x)"
proof (induction rule: list_all2_induct)
  case (Cons seg segs d ds)
  then show ?case using file_of_entry [OF Cons(1)] by auto
qed simp

subsection \<open>A compaction of the flushed files\<close>

text \<open>A catalogue of level 1 files, each key in at most one of them, that answers lookups with \<open>f\<close>.\<close>

definition compacted_files :: "StorageConfig \<Rightarrow> fs \<Rightarrow> SSTableMeta list \<Rightarrow> (key \<Rightarrow> BlockEntry option) \<Rightarrow> bool" where
  "compacted_files cfg fs metas f \<longleftrightarrow>
     (\<exists>B. list_all2 (meta_describes fs 1) metas B \<and> sorted_wrt (<) (map be_key (concat B))
        \<and> (\<forall>k. List.find (\<lambda>e. be_key e = k) (concat B) = f k))
     \<and> (\<forall>m \<in> set metas. SSTableMeta_ok m \<and> sm_level m = 1 \<and> (\<exists>j. sm_filepath m = output_path (cfg_sst_dir cfg) 1 j))"

lemma length_output_path:
  assumes "length dir < 2 ^ 31"
  shows "length (output_path dir 1 n) < 2 ^ 32"
proof -
  have "to_string_int 1 = ''1''" by code_simp
  with assms length_to_string_u64 [of n] show ?thesis by (simp add: output_path_def pad_left_def)
qed

lemma compacted_filesI:
  assumes cfg: "config_ok cfg" and B: "list_all2 (meta_describes fs 1) metas B" "sorted_wrt (<) (map be_key (concat B))"
      "\<forall>k. List.find (\<lambda>e. be_key e = k) (concat B) = f k"
    and paths: "\<forall>m \<in> set metas. \<exists>j. sm_filepath m = output_path (cfg_sst_dir cfg) 1 j"
  shows "compacted_files cfg fs metas f"
proof -
  have "SSTableMeta_ok m \<and> sm_level m = 1" if m: "m \<in> set metas" for m
  proof -
    obtain b j where b: "meta_describes fs 1 m b" "sm_filepath m = output_path (cfg_sst_dir cfg) 1 j"
      using list_all2_members [OF B(1)] m paths by blast
    then have tf: "table_file fs (sm_filepath m) b" and ne: "b \<noteq> []" by (simp_all add: meta_describes_def)
    from b cfg length_output_path [of "cfg_sst_dir cfg" j] show ?thesis
      by (auto intro!: SSTableMeta_ok_file [OF tf ne] simp: meta_describes_def kNumLevels_def config_ok_def)
  qed
  with B paths show ?thesis unfolding compacted_files_def by blast
qed

text \<open>The order in which such files are searched does not matter.\<close>

lemma compacted_search:
  assumes io: "io_fine io" and srt: "sorts srt" and c: "compacted_files cfg fs (cm_files (se_compaction_manager e)) f"
  shows "GetFromSSTables srt io fs e k = Some (Value (entry_answer (f k)))"
proof -
  let ?files = "cm_files (se_compaction_manager e)"
  obtain B where B: "list_all2 (meta_describes fs 1) ?files B" "sorted_wrt (<) (map be_key (concat B))"
      "\<forall>k. List.find (\<lambda>e. be_key e = k) (concat B) = f k"
    using c by (auto simp: compacted_files_def)
  obtain B' where B': "list_all2 (meta_describes fs 1) (srt read_order ?files) B'" "mset B' = mset B"
    using list_all2_reorder_left_invariance [OF B(1) sortsD(1) [OF srt strict_weak_read_order]] by blast
  have "distinct (map be_key (concat B))" using B(2) strict_sorted_iff by blast
  from find_mset [OF this mset_concat_cong [OF B'(2) [symmetric]], of k] B(3) have "first_hit k B' = f k"
    by (simp add: first_hit_concat)
  moreover have "list_all2 (\<lambda>m es. \<exists>level. meta_describes fs level m es) (srt read_order ?files) B'"
    using B'(1) by (auto intro: list_all2_mono)
  ultimately show ?thesis using search_files_fine [OF io, of fs _ B' k] by (simp add: GetFromSSTables_def AllFiles_def)
qed

text \<open>What a lookup finds after the operations \<open>ops\<close> were flushed and compacted: nothing for a key that was not
  written, and the right version if no key was written twice.\<close>

definition compaction_of :: "table_op list \<Rightarrow> (key \<Rightarrow> BlockEntry option) \<Rightarrow> bool" where
  "compaction_of ops f \<longleftrightarrow> (\<forall>k. k \<notin> op_key ` set ops \<longrightarrow> f k = None)
     \<and> (distinct (map op_key ops) \<longrightarrow> (\<forall>k. k \<noteq> [] \<longrightarrow> f k = map_option (\<lambda>v. block_entry_of (k, v)) (last_write op_key op_value ops k)))"

lemma compaction_of_segments:
  assumes segs: "list_all2 file_of segs datas" "\<forall>es \<in> set datas. distinct (map be_key es)" and ds: "mset ds = mset datas"
  shows "compaction_of (concat segs) (compacted_lookup False ds [])"
proof -
  have f: "compacted_lookup False ds [] k = (if k = [] then None else List.find (\<lambda>e. be_key e = k) (concat ds))" for k
    by (simp add: compacted_lookup_def first_hit_concat split: option.split)
  have set: "set (concat ds) = set (concat datas)" using mset_eq_setD [OF mset_concat_cong [OF ds]] .
  have "List.find (\<lambda>e. be_key e = k) (concat ds) = None" if "k \<notin> op_key ` set (concat segs)" for k
  proof -
    have "be_key e \<noteq> k" if e: "e \<in> set (concat datas)" for e
    proof -
      obtain es where "es \<in> set datas" "e \<in> set es" using e by auto
      with segments_entry [OF segs(1,2)] obtain x where "x \<in> set (concat segs)" "e = block_entry_of (op_key x, op_value x)" by blast
      with \<open>k \<notin> op_key ` set (concat segs)\<close> show ?thesis by (auto simp: block_entry_of_def)
    qed
    then show ?thesis by (auto simp: find_None_iff set simp del: set_concat)
  qed
  moreover have "List.find (\<lambda>e. be_key e = k) (concat ds)
      = map_option (\<lambda>v. block_entry_of (k, v)) (last_write op_key op_value (concat segs) k)"
    if "distinct (map op_key (concat segs))" for k
  proof -
    have d: "distinct (map be_key (concat datas))" using segments_distinct [OF segs that] by simp
    have "mset (concat datas) = mset (concat (rev datas))" "mset (concat datas) = mset (concat ds)"
      using ds by (auto intro: mset_concat_cong)
    with find_mset [OF d] have "List.find (\<lambda>e. be_key e = k) (concat ds) = first_hit k (rev datas)"
      by (metis first_hit_concat)
    with first_hit_segments [OF segs(1)] show ?thesis by simp
  qed
  ultimately show ?thesis by (simp add: compaction_of_def f)
qed

lemma cat_invE:
  assumes cat: "cat_inv cfg fs e flushed"
  obtains datas segs where "list_all2 (meta_describes fs 0) (cm_files (se_compaction_manager e)) datas"
    "list_all2 file_of segs datas" "concat segs = flushed" "\<forall>es \<in> set datas. distinct (map be_key es)"
    "\<forall>m \<in> set (cm_files (se_compaction_manager e)). sm_level m = 0"
    "\<forall>m \<in> set (cm_files (se_compaction_manager e)). \<exists>i. sm_filepath m = sst_path cfg i"
    "length (cm_files (se_compaction_manager e)) \<le> length flushed" "cm_max_level (se_compaction_manager e) = kNumLevels"
    "cm_data_dir (se_compaction_manager e) = cfg_sst_dir cfg" "cm_next_file_number (se_compaction_manager e) = 1"
proof -
  let ?cm = "se_compaction_manager e"
  obtain datas segs where d: "list_all2 (meta_describes fs 0) (cm_files ?cm) datas" "list_all2 file_of segs datas" "concat segs = flushed"
    and paths: "map sm_filepath (cm_files ?cm) = map (\<lambda>i. sst_path cfg (to_u64 i)) [1 ..< Suc (length (cm_files ?cm))]"
    and cm: "length (cm_files ?cm) \<le> length flushed" "cm_max_level ?cm = kNumLevels" "cm_data_dir ?cm = cfg_sst_dir cfg" "cm_next_file_number ?cm = 1"
    using cat by (auto simp: cat_inv_def Let_def simp del: upt_Suc)
  have "\<forall>es \<in> set datas. distinct (map be_key es)"
    using list_all2_members [OF d(1)] strict_sorted_iff by (fastforce simp: meta_describes_def table_file_def)
  moreover have "\<forall>m \<in> set (cm_files ?cm). sm_level m = 0" using list_all2_members [OF d(1)] by (auto simp: meta_describes_def)
  moreover have "\<forall>m \<in> set (cm_files ?cm). \<exists>i. sm_filepath m = sst_path cfg i"
    using arg_cong [OF paths, of set] by (auto simp del: upt_Suc)
  ultimately show ?thesis using that [OF d] cm by blast
qed

lemma RunCompaction_flushed:
  assumes io: "io_fine io" and srt: "sorts srt" and cfg: "config_ok cfg" and cat: "cat_inv cfg fs e flushed"
    and n: "kLevel0CompactionTrigger \<le> length (cm_files (se_compaction_manager e))" "length flushed < 2 ^ 32"
    and ok: "\<forall>x \<in> set flushed. entry_ok True (op_entry x)"
  shows "\<exists>fs' cm' stats f. RunCompaction srt io mt fs (se_compaction_manager e) = Some (fs', cm', Value stats)
    \<and> compacted_files cfg fs' (cm_files cm') f \<and> compaction_of flushed f \<and> length (cm_files cm') \<le> length flushed
    \<and> fs' (wal_current_path cfg) = fs (wal_current_path cfg)"
proof -
  let ?cm = "se_compaction_manager e"
  obtain datas segs where d: "list_all2 (meta_describes fs 0) (cm_files ?cm) datas" "list_all2 file_of segs datas" "concat segs = flushed"
    and dist: "\<forall>es \<in> set datas. distinct (map be_key es)" and lev: "\<forall>m \<in> set (cm_files ?cm). sm_level m = 0"
    and old: "\<forall>m \<in> set (cm_files ?cm). \<exists>i. sm_filepath m = sst_path cfg i"
    and cm: "length (cm_files ?cm) \<le> length flushed" "cm_max_level ?cm = kNumLevels" "cm_data_dir ?cm = cfg_sst_dir cfg" "cm_next_file_number ?cm = 1"
    using cat_invE [OF cat] .
  note sel = level0_selection [OF srt lev n(1)]
  define S where "S = srt (\<lambda>a b. sm_smallest_key a < sm_smallest_key b) (cm_files ?cm)"
  have S: "S \<noteq> []" "set S = set (cm_files ?cm)" "length S = length (cm_files ?cm)" using sel(3-5) by (simp_all add: S_def)
  obtain ds where ds: "list_all2 (meta_describes fs 0) S ds" "mset ds = mset datas"
    using list_all2_reorder_left_invariance [OF d(1) sortsD(1) [OF srt strict_weak_smallest_key]] by (auto simp: S_def)
  have files: "list_all2 (table_file fs) (map sm_filepath (S @ [])) (ds @ [])"
    using ds(1) by (auto simp: list_all2_map1 meta_describes_def intro: list_all2_mono)
  have size: "length (concat ds) \<le> length flushed"
    using segments_size [OF d(2) dist] d(3) mset_eq_length [OF mset_concat_cong [OF ds(2)]] by simp
  have "EncodedSize b \<le> 2 ^ 27" if "es \<in> set ds" "b \<in> set es" for es b
    using segments_entry [OF d(2) dist, of es b] that mset_eq_setD [OF ds(2)] d(3) ok EncodedSize_op by auto
  then have small: "\<forall>es \<in> set (ds @ []). \<forall>b \<in> set es. EncodedSize b \<le> 2 ^ 27" by auto
  have fr: "\<forall>m \<in> set (S @ []). \<forall>j. sm_filepath m = output_path (cm_data_dir ?cm) (0 + 1) j \<longrightarrow> j < cm_next_file_number ?cm"
    using S(2) old cm(3) by (metis add_0 append_Nil2 sst_path_not_output)
  have len: "length (concat (ds @ [])) < 2 ^ 64" "length S + length [] < 2 ^ 64" "unat (cm_next_file_number ?cm) + length (concat (ds @ [])) < 2 ^ 64"
    using size n(2) cm(1,4) S(3) by simp_all
  have lv: "(0 :: int) \<noteq> - 1" "1 < cm_max_level ?cm" "length ds = length S"
    using cm(2) list_all2_lengthD [OF ds(1)] by (simp_all add: kNumLevels_def)
  obtain fs' cm' stats metas B where run: "RunCompaction srt io mt fs ?cm = Some (fs', cm', Value stats)"
    and ex: "exchanged 0 S [] ds [] fs ?cm fs' cm' metas B"
    using RunCompaction_fine [OF io sel(1) lv(1,2) sel(2) [folded S_def] S(1) files lv(3) small len(1,2) fr len(3), of mt] by blast
  have m: "list_all2 (meta_describes fs' 1) metas B" "sorted_wrt (<) (map be_key (concat B))"
      "\<forall>k. List.find (\<lambda>e. be_key e = k) (concat B) = compacted_lookup False ds [] k" "\<forall>m \<in> set metas. \<exists>j. sm_filepath m = output_path (cfg_sst_dir cfg) 1 j"
      "\<forall>q. q \<notin> sm_filepath ` set metas \<longrightarrow> fs' q = (if q \<in> sm_filepath ` set S then None else fs q)" "length metas \<le> length flushed"
    and files': "cm_files cm' = metas"
    using ex cm(2,3) size S(2) by (auto simp: exchanged_def kNumLevels_def filter_empty_conv)
  have "wal_current_path cfg \<notin> sm_filepath ` set S" using S(2) old paths_distinct by (metis imageE)
  moreover have "wal_current_path cfg \<notin> sm_filepath ` set metas" using m(4) output_path_distinct(1) by (metis imageE)
  ultimately have "fs' (wal_current_path cfg) = fs (wal_current_path cfg)" using m(5) by simp
  with run files' m(6) compacted_filesI [OF cfg m(1-4)] compaction_of_segments [OF d(2) dist ds(2)] d(3) show ?thesis by blast
qed

subsection \<open>A round of the compaction thread\<close>

lemma compacted_files_cong:
  assumes "compacted_files cfg fs metas f" and "\<forall>j. fs' (output_path (cfg_sst_dir cfg) 1 j) = fs (output_path (cfg_sst_dir cfg) 1 j)"
  shows "compacted_files cfg fs' metas f"
proof -
  have "fs' (sm_filepath m) = fs (sm_filepath m)" if "m \<in> set metas" for m
    using that assms by (auto simp: compacted_files_def)
  then have "list_all2 (meta_describes fs' 1) metas B" if "list_all2 (meta_describes fs 1) metas B" for B
    using meta_describes_cong [where fs = fs and fs' = fs'] by (intro list.rel_mono_strong [OF that]) blast
  with assms(1) show ?thesis unfolding compacted_files_def by blast
qed

lemma CompactionLoop_round_flushed:
  assumes io: "io_fine io" and srt: "sorts srt" and cfg: "config_ok cfg" and inv: "engine_inv cfg B fs e flushed pending"
    and n: "kLevel0CompactionTrigger \<le> length (cm_files (se_compaction_manager e))" "length flushed < 2 ^ 32"
    and ok: "\<forall>x \<in> set flushed. entry_ok True (op_entry x)"
  shows "\<exists>fs' cm' f. CompactionLoop_round srt io mt fs e = Some (fs', e\<lparr>se_compaction_manager := cm'\<rparr>)
    \<and> compacted_files cfg fs' (cm_files cm') f \<and> compaction_of flushed f \<and> length (cm_files cm') \<le> length flushed
    \<and> fs' (wal_current_path cfg) = fs (wal_current_path cfg)
    \<and> fs' (ckm_checkpoint_path (CheckpointManager_new (cfg_data_dir cfg))) = Some (encode_checkpoint
        \<lparr>cp_last_flushed_lsn = to_u64 (length (flushed @ pending)), cp_sstables = cm_files cm'\<rparr>)"
proof -
  let ?ck = "CheckpointManager_new (cfg_data_dir cfg)"
  have i: "cat_inv cfg fs e flushed" "log_inv cfg fs e (flushed @ pending)" "checkpoint_inv cfg fs e flushed" "\<not> se_shutdown e"
    using inv by (simp_all add: engine_inv_def)
  obtain fs1 cm' stats f where c: "RunCompaction srt io mt fs (se_compaction_manager e) = Some (fs1, cm', Value stats)"
    "compacted_files cfg fs1 (cm_files cm') f" "compaction_of flushed f" "length (cm_files cm') \<le> length flushed"
    "fs1 (wal_current_path cfg) = fs (wal_current_path cfg)"
    using RunCompaction_flushed [OF io srt cfg i(1) n ok, of mt] by blast
  obtain wal where wal: "se_wal e = Some wal" "wal_next_seq wal = to_u64 (Suc (length (flushed @ pending)))"
    using i(2) by (auto simp: log_inv_def)
  let ?cp = "\<lparr>cp_last_flushed_lsn = to_u64 (length (flushed @ pending)), cp_sstables = cm_files cm'\<rparr>"
  obtain fs2 where sv: "SaveCheckpoint io fs1 ?ck ?cp = (fs2, Status_Ok)" "fs2 (ckm_checkpoint_path ?ck) = Some (encode_checkpoint ?cp)"
      "\<forall>q. q \<noteq> ckm_checkpoint_path ?ck \<longrightarrow> q \<noteq> ckm_temp_path ?ck \<longrightarrow> fs2 q = fs1 q"
    using SaveCheckpoint_fine [OF io] by blast
  have lev: "\<forall>m \<in> set (cm_files (se_compaction_manager e)). sm_level m = 0" by (rule cat_invE [OF i(1)])
  have "NeedsCompaction (se_compaction_manager e)" "se_checkpoint_manager e = ?ck"
    using level0_selection(1) [OF srt lev n(1)] i(3) by (simp_all add: NeedsCompaction_def checkpoint_inv_def)
  then have "CompactionLoop_round srt io mt fs e = Some (fs2, e\<lparr>se_compaction_manager := cm'\<rparr>)"
    using c(1) wal sv(1) i(4)
    by (simp add: CompactionLoop_round_def AllFiles_def WAL_current_sequence_number_def to_u64_minus_1 Let_def)
  moreover have "compacted_files cfg fs2 (cm_files cm') f" using sv(3) by (intro compacted_files_cong [OF c(2)]) simp
  ultimately show ?thesis using sv(2,3) c(3-5) by (intro exI [of _ fs2] exI [of _ cm'] exI [of _ f]) simp
qed

text \<open>With fewer files the round does nothing.\<close>

lemma TotalBytesAtLevel_none:
  assumes "\<forall>f \<in> set (cm_files cm). sm_level f \<noteq> level"
  shows "TotalBytesAtLevel cm level = 0"
proof -
  have "foldl (\<lambda>total f. if sm_level f = level then total + sm_file_size_bytes f else total) t fs = t"
    if "\<forall>f \<in> set fs. sm_level f \<noteq> level" for t fs
    using that by (induction fs) simp_all
  with assms show ?thesis by (simp add: TotalBytesAtLevel_def)
qed

lemma CompactionLoop_round_quiet:
  assumes "\<forall>m \<in> set (cm_files (se_compaction_manager e)). sm_level m = 0"
    and "length (cm_files (se_compaction_manager e)) < kLevel0CompactionTrigger"
  shows "CompactionLoop_round srt io mt fs e = Some (fs, e)"
proof -
  have "TotalBytesAtLevel (se_compaction_manager e) level = 0" if "1 \<le> level" for level
    using that assms(1) by (intro TotalBytesAtLevel_none) auto
  then have "List.find (\<lambda>level. TotalBytesAtLevel (se_compaction_manager e) level > MaxBytesForLevel level)
      [1 .. cm_max_level (se_compaction_manager e) - 2] = None"
    by (auto simp: find_None_iff)
  moreover have "length (filter (\<lambda>f. sm_level f = 0) (cm_files (se_compaction_manager e))) < kLevel0CompactionTrigger"
    using assms(2) by (meson length_filter_le le_less_trans)
  ultimately have "\<not> NeedsCompaction (se_compaction_manager e)" by (simp add: NeedsCompaction_def PickCompactionLevel_def)
  then show ?thesis by (simp add: CompactionLoop_round_def)
qed

subsection \<open>Reading and reopening\<close>

lemma compacted_Get:
  assumes io: "io_fine io" and srt: "sorts srt" and mem: "mem_inv B e pending" "se_immutable_memtable e = None"
    and c: "compacted_files cfg fs (cm_files (se_compaction_manager e)) f"
  shows "StorageEngine_Get srt io fs e k = Some (Value (case visible (last_write op_key op_value pending k) of
      Some v \<Rightarrow> Some v | None \<Rightarrow> entry_answer (f k)))"
proof -
  obtain m es where m: "se_active_memtable e = Some m" "MemTable_wf m" "MemTable_entries m = Some es"
    "\<forall>k. map_of es k = last_write op_key op_value pending k" using mem(1) by (auto simp: mem_inv_def)
  have "MemTable_Get m k = Some (visible (last_write op_key op_value pending k))"
    using MemTable_Get_entries [OF m(2,3)] m(4) by simp
  with m(1) mem(2) compacted_search [OF io srt c, of k] show ?thesis
    by (auto simp: StorageEngine_Get_def Get_memtables_def split: option.split)
qed

text \<open>A directory whose checkpoint covers the whole log opens to an engine that has only the files.\<close>

lemma Open_checkpointed:
  assumes io: "io_fine io"
    and cp: "fs (ckm_checkpoint_path (CheckpointManager_new (cfg_data_dir cfg)))
        = Some (encode_checkpoint \<lparr>cp_last_flushed_lsn = to_u64 (length ops), cp_sstables = metas\<rparr>)"
      "length metas < 2 ^ 32" "\<forall>m \<in> set metas. SSTableMeta_ok m \<and> 0 \<le> sm_level m \<and> sm_level m < kNumLevels"
    and log: "fs (wal_current_path cfg) = Some (concat (map SerializeEntry (stamp 1 (map op_entry ops))))"
      "\<forall>x \<in> set ops. entry_ok True (op_entry x)" "length ops < 2 ^ 32"
  shows "\<exists>e B. StorageEngine_Open io mt fs cfg = Some (fs, Value e) \<and> se_immutable_memtable e = None \<and> mem_inv B e []
    \<and> cm_files (se_compaction_manager e) = metas"
proof -
  let ?cp = "\<lparr>cp_last_flushed_lsn = to_u64 (length ops), cp_sstables = metas\<rparr>"
  have "Checkpoint_ok ?cp" using cp by (simp add: Checkpoint_ok_def)
  from decode_encode_checkpoint [OF this] cp(1) io
  have load: "LoadCheckpoint io fs (CheckpointManager_new (cfg_data_dir cfg)) = Value ?cp"
    by (simp add: LoadCheckpoint_def file_exists_def open_read_def)
  have c: "content fs (wal_current_path cfg) = concat (map SerializeEntry (stamp 1 (map op_entry ops)))"
    using log(1) by (simp add: content_def)
  have lev: "\<forall>m \<in> set metas. 0 \<le> sm_level m \<and> sm_level m < kNumLevels" using cp(3) by simp
  have "fs(wal_current_path cfg \<mapsto> concat (map SerializeEntry (stamp 1 (map op_entry ops)))) = fs"
    using log(1) by (simp add: fun_upd_idem)
  with StorageEngine_Open_fine [OF io load lev c log(2,3) order_refl, of mt] show ?thesis by auto
qed

text \<open>When no key was written twice, a round of the compaction thread changes no answer, and with an empty
  memtable none is lost in a crash after it.\<close>

lemma CompactionLoop_round_reads:
  assumes io: "io_fine io" and srt: "sorts srt" and cfg: "config_ok cfg" and inv: "engine_inv cfg B fs e flushed pending"
    and n: "length (flushed @ pending) < 2 ^ 32" and ok: "\<forall>x \<in> set (flushed @ pending). entry_ok True (op_entry x)"
    and keys: "distinct (map op_key flushed)" "[] \<notin> op_key ` set flushed"
  shows "\<exists>fs' e'. CompactionLoop_round srt io mt fs e = Some (fs', e')
    \<and> (\<forall>k. StorageEngine_Get srt io fs' e' k = Some (Value (engine_read flushed pending k)))
    \<and> (pending = [] \<longrightarrow> (\<exists>e''. StorageEngine_Open io mt' fs' cfg = Some (fs', Value e'')
         \<and> (\<forall>k. StorageEngine_Get srt io fs' e'' k = Some (Value (engine_read flushed [] k)))))"
proof (cases "kLevel0CompactionTrigger \<le> length (cm_files (se_compaction_manager e))")
  case True
  let ?ck = "CheckpointManager_new (cfg_data_dir cfg)"
  obtain fs' cm' f where r: "CompactionLoop_round srt io mt fs e = Some (fs', e\<lparr>se_compaction_manager := cm'\<rparr>)"
    "compacted_files cfg fs' (cm_files cm') f" "compaction_of flushed f" "length (cm_files cm') \<le> length flushed"
    "fs' (wal_current_path cfg) = fs (wal_current_path cfg)"
    "fs' (ckm_checkpoint_path ?ck) = Some (encode_checkpoint \<lparr>cp_last_flushed_lsn = to_u64 (length (flushed @ pending)), cp_sstables = cm_files cm'\<rparr>)"
    using CompactionLoop_round_flushed [OF io srt cfg inv True, of mt] n ok by auto
  have f: "entry_answer (f k) = visible (last_write op_key op_value flushed k)" for k
  proof (cases "k = []")
    case True
    then have "f k = None" "last_write op_key op_value flushed k = None"
      using r(3) keys(2) by (auto simp: compaction_of_def last_write_None)
    then show ?thesis by (simp add: entry_answer_def)
  next
    case False
    with r(3) keys(1) show ?thesis by (simp add: compaction_of_def entry_answer_block_entry)
  qed
  have mem: "mem_inv B (e\<lparr>se_compaction_manager := cm'\<rparr>) pending" "se_immutable_memtable (e\<lparr>se_compaction_manager := cm'\<rparr>) = None"
    and log: "log_inv cfg fs e (flushed @ pending)"
    using inv by (simp_all add: engine_inv_def mem_inv_def)
  have "\<forall>k. StorageEngine_Get srt io fs' (e\<lparr>se_compaction_manager := cm'\<rparr>) k = Some (Value (engine_read flushed pending k))"
    using compacted_Get [OF io srt mem, of cfg fs' f] r(2) f by (simp add: engine_read_def cong: option.case_cong)
  moreover have "\<exists>e''. StorageEngine_Open io mt' fs' cfg = Some (fs', Value e'')
         \<and> (\<forall>k. StorageEngine_Get srt io fs' e'' k = Some (Value (engine_read flushed [] k)))" if p: "pending = []"
  proof -
    have "\<forall>m \<in> set (cm_files cm'). SSTableMeta_ok m \<and> 0 \<le> sm_level m \<and> sm_level m < kNumLevels"
      using r(2) by (simp add: compacted_files_def kNumLevels_def)
    then obtain e'' B' where o: "StorageEngine_Open io mt' fs' cfg = Some (fs', Value e'')" "se_immutable_memtable e'' = None"
        "mem_inv B' e'' []" "cm_files (se_compaction_manager e'') = cm_files cm'"
      using Open_checkpointed [where fs = fs' and cfg = cfg, OF io r(6), of mt'] r(4,5) log n ok p by (auto simp: log_inv_def)
    from compacted_Get [OF io srt o(3,2), of cfg fs' f] r(2) o(4) f have
      "\<forall>k. StorageEngine_Get srt io fs' e'' k = Some (Value (engine_read flushed [] k))" by (simp add: engine_read_def cong: option.case_cong)
    with o(1) show ?thesis by blast
  qed
  ultimately show ?thesis using r(1) by blast
next
  case False
  have "cat_inv cfg fs e flushed" using inv by (simp add: engine_inv_def)
  then have lev: "\<forall>m \<in> set (cm_files (se_compaction_manager e)). sm_level m = 0" by (rule cat_invE)
  have "CompactionLoop_round srt io mt fs e = Some (fs, e)"
    using lev False by (intro CompactionLoop_round_quiet) simp_all
  moreover have "\<forall>k. StorageEngine_Get srt io fs e k = Some (Value (engine_read flushed pending k))"
    using engine_Get_inv [OF io srt inv] n by simp
  moreover obtain e'' B' where o: "StorageEngine_Open io mt' fs cfg = Some (fs, Value e'')"
      "engine_inv cfg B' fs (e''\<lparr>se_next_sst_sequence := se_next_sst_sequence e\<rparr>) flushed pending"
    using Open_again [OF io inv ok n, of mt'] by blast
  moreover have "\<forall>k. StorageEngine_Get srt io fs e'' k = Some (Value (engine_read flushed pending k))"
    using engine_Get_inv [OF io srt o(2)] n by simp
  ultimately show ?thesis by auto
qed

subsection \<open>Properties\<close>

text \<open>C3. A compaction changes no answer when no key was written twice: after any session on a new directory, with
  puts and deletes of different, non-empty keys and any flushes, a round of the compaction thread succeeds and
  every lookup returns what it returned before. If all writes were flushed before the round and the process
  stops after it, opening the directory again succeeds and every lookup still returns that.\<close>

theorem Engine_compaction_keeps_reads:
  assumes "io_fine io" and "sorts srt" and "config_ok cfg" and "fresh_directory cfg fs"
    and "\<forall>x \<in> set (session_writes ss). entry_ok True (op_entry x)" and "length (session_writes ss) < 2 ^ 32"
    and "distinct (map op_key (session_writes ss))" and "[] \<notin> op_key ` set (session_writes ss)"
  shows "\<exists>fs0 e0 fs1 e1 fs2 e2. StorageEngine_Open io mt fs cfg = Some (fs0, Value e0)
    \<and> run_ops (session_step io mt) (fs0, e0) ss = Some (fs1, e1)
    \<and> CompactionLoop_round srt io mt fs1 e1 = Some (fs2, e2)
    \<and> (\<forall>k. \<exists>r. StorageEngine_Get srt io fs1 e1 k = Some (Value r) \<and> StorageEngine_Get srt io fs2 e2 k = Some (Value r))
    \<and> (Option.bind (se_active_memtable e1) MemTable_IsEmpty = Some True \<longrightarrow>
         (\<exists>e3. StorageEngine_Open io mt' fs2 cfg = Some (fs2, Value e3)
            \<and> (\<forall>k. StorageEngine_Get srt io fs2 e3 k = StorageEngine_Get srt io fs1 e1 k)))"
proof -
  obtain fs0 e0 fs1 e1 flushed pending where s: "StorageEngine_Open io mt fs cfg = Some (fs0, Value e0)"
      "run_ops (session_step io mt) (fs0, e0) ss = Some (fs1, e1)"
      "engine_inv cfg (cfg_memtable_size_bytes cfg) fs1 e1 flushed pending" "flushed @ pending = session_writes ss"
    using session_fresh [OF assms(1,3,4,5,6)] by blast
  have len: "length (flushed @ pending) < 2 ^ 32" and ok: "\<forall>x \<in> set (flushed @ pending). entry_ok True (op_entry x)"
    using assms(5,6) s(4) by simp_all
  have keys: "distinct (map op_key flushed)" "[] \<notin> op_key ` set flushed" using assms(7,8) by (auto simp: s(4) [symmetric])
  have before: "\<forall>k. StorageEngine_Get srt io fs1 e1 k = Some (Value (engine_read flushed pending k))"
    using engine_Get_inv [OF assms(1,2) s(3)] len by simp
  have "pending = []" if "Option.bind (se_active_memtable e1) MemTable_IsEmpty = Some True"
  proof -
    from s(3) obtain m es where m: "se_active_memtable e1 = Some m" "MemTable_wf m" "MemTable_entries m = Some es"
      "\<forall>k. map_of es k = last_write op_key op_value pending k" by (auto simp: engine_inv_def mem_inv_def)
    with that have "es = []"
      using SkipList_IsEmpty_ok [of "mem_table m"] by (simp add: MemTable_IsEmpty_def MemTable_wf_def MemTable_entries_SkipList)
    with m(4) last_write_None_all [of op_key op_value pending] show ?thesis by simp
  qed
  with CompactionLoop_round_reads [OF assms(1-3) s(3) len ok keys, of mt mt'] before s(1,2) show ?thesis by fastforce
qed

theorem Engine_compaction_keeps_reads_witness:
  "\<exists>fs0 e0 fs1 e1 fs2 e2. StorageEngine_Open io_ideal (\<lambda>_. 0) Map.empty StorageConfig_default = Some (fs0, Value e0)
    \<and> run_ops (session_step io_ideal (\<lambda>_. 0)) (fs0, e0)
        [Write_op (Put_op ''a'' [1]), Flush_op, Write_op (Put_op ''b'' [2]), Flush_op, Write_op (Put_op ''c'' [3]), Flush_op,
         Write_op (Delete_op ''d''), Flush_op, Write_op (Put_op ''e'' [4])] = Some (fs1, e1)
    \<and> CompactionLoop_round sort_by io_ideal (\<lambda>_. 0) fs1 e1 = Some (fs2, e2)
    \<and> (\<exists>r. StorageEngine_Get sort_by io_ideal fs1 e1 ''b'' = Some (Value r) \<and> StorageEngine_Get sort_by io_ideal fs2 e2 ''b'' = Some (Value r))"
proof -
  let ?ss = "[Write_op (Put_op ''a'' [1]), Flush_op, Write_op (Put_op ''b'' [2]), Flush_op, Write_op (Put_op ''c'' [3]), Flush_op,
         Write_op (Delete_op ''d''), Flush_op, Write_op (Put_op ''e'' [4])]"
  have "\<forall>x \<in> set (session_writes ?ss). entry_ok True (op_entry x)" "length (session_writes ?ss) < 2 ^ 32"
      "distinct (map op_key (session_writes ?ss))" "[] \<notin> op_key ` set (session_writes ?ss)"
    by (simp_all add: max_payload_def)
  from Engine_compaction_keeps_reads [OF io_fine_ideal sorts_sort_by config_ok_default fresh_directory_empty this, of "\<lambda>_. 0"]
  show ?thesis by blast
qed

end
