(* ===== verification/Engine_Anomalies.thy ===== *)
theory Engine_Anomalies
  imports Engine_Compaction
begin

text \<open>Sequences of calls after which the storage engine of \<^verbatim>\<open>src/storage/engine\<close> does not answer with the
  last acknowledged write: a delete of a flushed key, a directory that is opened again, a flush that fails, a
  compaction while writes are in memory, and a write during a flush. Each is proved for all keys and values, on the
  whole path from opening an empty directory to the read.\<close>

subsection \<open>Single steps of a session\<close>

text \<open>Writes that a log record can hold and that do not fill an empty memtable.\<close>

definition small_op :: "StorageConfig \<Rightarrow> table_op \<Rightarrow> bool" where
  "small_op cfg x \<longleftrightarrow> entry_ok True (op_entry x)
     \<and> 6000 + length (op_key x) + length (slv_data (op_value x)) \<le> cfg_memtable_size_bytes cfg"

lemma write_small:
  assumes "io_fine io" "config_ok cfg" "small_op cfg x" "engine_inv cfg (cfg_memtable_size_bytes cfg) fs e flushed []"
    "Suc (length flushed) < 2 ^ 32"
  shows "\<exists>fs' e'. session_step io mt (fs, e) (Write_op x) = Some (fs', e')
    \<and> engine_inv cfg (cfg_memtable_size_bytes cfg) fs' e' flushed [x]
    \<and> cm_files (se_compaction_manager e') = cm_files (se_compaction_manager e)"
proof -
  from engine_write_inv [OF assms(1,2) _ assms(4), of x mt] assms(3,5) obtain fs' e' flushed' where
    "engine_write io mt fs e x = Some (fs', e', Status_Ok)" "engine_inv cfg (cfg_memtable_size_bytes cfg) fs' e' flushed' [x]"
    "flushed' @ [x] = flushed @ [x]" "cm_files (se_compaction_manager e') = cm_files (se_compaction_manager e)"
    by (auto simp: small_op_def)
  then show ?thesis by auto
qed

lemma flush_step:
  assumes "io_fine io" "config_ok cfg" "engine_inv cfg (cfg_memtable_size_bytes cfg) fs e flushed pending"
    "length (flushed @ pending) < 2 ^ 32"
  shows "\<exists>fs' e'. session_step io mt (fs, e) Flush_op = Some (fs', e')
    \<and> engine_inv cfg (cfg_memtable_size_bytes cfg) fs' e' (flushed @ pending) []
    \<and> length (cm_files (se_compaction_manager e')) = length (cm_files (se_compaction_manager e)) + (if pending = [] then 0 else 1)"
proof -
  have "cfg_memtable_size_bytes cfg \<le> 2 ^ 28" using assms(2) by (simp add: config_ok_def)
  from FlushMemTable_inv [OF assms(1-3) this assms(4)] obtain fs' e' where f: "FlushMemTable io fs e = Some (fs', e', Status_Ok)"
    "engine_inv cfg 0 fs' e' (flushed @ pending) []"
    "length (cm_files (se_compaction_manager e')) = length (cm_files (se_compaction_manager e)) + (if pending = [] then 0 else 1)" by blast
  from f(2) have "engine_inv cfg (cfg_memtable_size_bytes cfg) fs' e' (flushed @ pending) []" by (rule engine_inv_mono) simp
  with f show ?thesis by simp
qed

subsection \<open>A deleted key\<close>

text \<open>C31. A delete does not hide a flushed value: after a key is put, flushed and deleted, with every
  call reporting success, a lookup of the key returns the value that was deleted. The lookup in the
  memtable reports a tombstone as nothing found, and the search goes on to the files.\<close>

theorem Engine_deleted_key_resurrects:
  assumes "io_fine io" and "sorts srt" and "config_ok cfg" and "fresh_directory cfg fs"
    and "small_op cfg (Put_op k v)" and "small_op cfg (Delete_op k)"
  shows "\<exists>fs0 e0 fs1 e1. StorageEngine_Open io mt fs cfg = Some (fs0, Value e0)
    \<and> run_ops (session_step io mt) (fs0, e0) [Write_op (Put_op k v), Flush_op, Write_op (Delete_op k)] = Some (fs1, e1)
    \<and> StorageEngine_Get srt io fs1 e1 k = Some (Value (Some v))"
proof -
  obtain fs0 e0 where o: "StorageEngine_Open io mt fs cfg = Some (fs0, Value e0)"
      "engine_inv cfg (cfg_memtable_size_bytes cfg) fs0 e0 [] []"
    using Open_fresh [OF assms(1,4)] by blast
  obtain fs1 e1 where 1: "session_step io mt (fs0, e0) (Write_op (Put_op k v)) = Some (fs1, e1)"
      "engine_inv cfg (cfg_memtable_size_bytes cfg) fs1 e1 [] [Put_op k v]"
    using write_small [OF assms(1,3,5) o(2), of mt] by auto
  obtain fs2 e2 where 2: "session_step io mt (fs1, e1) Flush_op = Some (fs2, e2)"
      "engine_inv cfg (cfg_memtable_size_bytes cfg) fs2 e2 [Put_op k v] []"
    using flush_step [OF assms(1,3) 1(2), of mt] by auto
  obtain fs3 e3 where 3: "session_step io mt (fs2, e2) (Write_op (Delete_op k)) = Some (fs3, e3)"
      "engine_inv cfg (cfg_memtable_size_bytes cfg) fs3 e3 [Put_op k v] [Delete_op k]"
    using write_small [OF assms(1,3,6) 2(2), of mt] by auto
  have "engine_read [Put_op k v] [Delete_op k] k = Some v" by (simp add: engine_read_def last_write_def)
  with engine_Get_inv [OF assms(1,2) 3(2), of k] o(1) 1(1) 2(1) 3(1) show ?thesis by (auto simp del: session_step.simps)
qed

theorem Engine_deleted_key_resurrects_witness:
  "\<exists>fs0 e0 fs1 e1. StorageEngine_Open io_ideal (\<lambda>_. 0) Map.empty StorageConfig_default = Some (fs0, Value e0)
    \<and> run_ops (session_step io_ideal (\<lambda>_. 0)) (fs0, e0) [Write_op (Put_op ''a'' [1]), Flush_op, Write_op (Delete_op ''a'')] = Some (fs1, e1)
    \<and> StorageEngine_Get sort_by io_ideal fs1 e1 ''a'' = Some (Value (Some [1]))"
  by (rule Engine_deleted_key_resurrects [OF io_fine_ideal sorts_sort_by config_ok_default fresh_directory_empty])
    (simp_all add: small_op_def max_payload_def StorageConfig_default_def)

subsection \<open>Steps of an engine whose numbering is not in order\<close>

lemma search_files_none:
  assumes io: "io_fine io" and "\<forall>m \<in> set metas. \<exists>es. table_file fs (sm_filepath m) es \<and> List.find (\<lambda>e. be_key e = k) es = None"
  shows "search_files io fs k metas = Some (Value None)"
  using assms(2)
proof (induction metas)
  case (Cons m metas)
  then obtain es where es: "table_file fs (sm_filepath m) es" "List.find (\<lambda>e. be_key e = k) es = None" by auto
  from table_file_read [OF es(1), of io] io es(2) Cons show ?case by auto
qed simp

lemma Get_none:
  assumes io: "io_fine io" and srt: "sorts srt"
    and m: "se_active_memtable e = Some m" "MemTable_wf m" "MemTable_entries m = Some es" "map_of es k = None" "se_immutable_memtable e = None"
    and files: "\<forall>m \<in> set (cm_files (se_compaction_manager e)). \<exists>es. table_file fs (sm_filepath m) es \<and> List.find (\<lambda>e. be_key e = k) es = None"
  shows "StorageEngine_Get srt io fs e k = Some (Value None)"
proof -
  have "set (srt read_order xs) = set xs" for xs
    using sortsD(1) [OF srt strict_weak_read_order, of xs] by (metis mset_eq_setD)
  with files have "\<forall>m \<in> set (srt read_order (cm_files (se_compaction_manager e))).
      \<exists>es. table_file fs (sm_filepath m) es \<and> List.find (\<lambda>e. be_key e = k) es = None" by simp
  from search_files_none [OF io this] have "GetFromSSTables srt io fs e k = Some (Value None)"
    by (simp add: GetFromSSTables_def AllFiles_def)
  moreover have "MemTable_Get m k = Some None" using MemTable_Get_entries [OF m(2,3)] m(4) by simp
  ultimately show ?thesis using m by (simp add: StorageEngine_Get_def Get_memtables_def)
qed

text \<open>The part of the invariant that does not look at the files: an engine that runs on the log of
  \<open>ops\<close>, with the memtable \<open>m\<close> that has the entries \<open>es\<close>.\<close>

definition running :: "StorageConfig \<Rightarrow> fs \<Rightarrow> StorageEngine \<Rightarrow> table_op list \<Rightarrow> (key \<times> SkipListValue) list \<Rightarrow> bool" where
  "running cfg fs e ops es \<longleftrightarrow> se_config e = cfg \<and> se_immutable_memtable e = None \<and> log_inv cfg fs e ops
     \<and> se_checkpoint_manager e = CheckpointManager_new (cfg_data_dir cfg) \<and> cm_max_level (se_compaction_manager e) = kNumLevels
     \<and> (\<exists>m. se_active_memtable e = Some m \<and> MemTable_wf m \<and> MemTable_entries m = Some es)"

lemma engine_inv_running:
  assumes "engine_inv cfg B fs e flushed pending"
  shows "\<exists>es. running cfg fs e (flushed @ pending) es \<and> (\<forall>k. map_of es k = last_write op_key op_value pending k)"
  using assms by (auto simp: engine_inv_def running_def mem_inv_def checkpoint_inv_def cat_inv_def Let_def)

lemma running_write:
  assumes io: "io_fine io" and r: "running cfg fs e ops []" and x: "small_op cfg x"
  shows "\<exists>fs' e'. session_step io mt (fs, e) (Write_op x) = Some (fs', e') \<and> running cfg fs' e' (ops @ [x]) [(op_key x, op_value x)]
    \<and> (\<forall>q. q \<noteq> wal_current_path cfg \<longrightarrow> fs' q = fs q) \<and> se_compaction_manager e' = se_compaction_manager e
    \<and> se_next_sst_sequence e' = se_next_sst_sequence e \<and> se_shutdown e' = se_shutdown e"
proof -
  obtain m where m: "se_active_memtable e = Some m" "MemTable_wf m" "MemTable_entries m = Some []" and c: "se_config e = cfg" "log_inv cfg fs e ops"
    using r by (auto simp: running_def)
  from engine_write_run [OF io c m, of x mt] obtain wal m' where w: "MemTable_wf m'" "MemTable_entries m' = Some [(op_key x, op_value x)]"
    "engine_write io mt fs e x = (if MemTable_ApproximateMemoryUsage m' \<ge> cfg_memtable_size_bytes cfg
          then (case after_write fs e wal ops x m' of (fs, e) \<Rightarrow> FlushMemTable io fs e)
          else (case after_write fs e wal ops x m' of (fs, e) \<Rightarrow> Some (fs, e, Status_Ok)))"
    "log_inv cfg (fst (after_write fs e wal ops x m')) (snd (after_write fs e wal ops x m')) (ops @ [x])"
    by (auto simp: ordered_put_def)
  have "\<not> MemTable_ApproximateMemoryUsage m' \<ge> cfg_memtable_size_bytes cfg"
    using MemTable_usage_single [OF w(1,2)] x by (simp add: small_op_def)
  with w r show ?thesis by (auto simp: after_write_def running_def)
qed

text \<open>The memtable that the first section of a flush takes.\<close>

abbreviation swapped :: "StorageEngine \<Rightarrow> StorageEngine" where
  "swapped e \<equiv> e\<lparr>se_active_memtable := Some MemTable_new, se_immutable_memtable := None\<rparr>"

lemma running_swap:
  assumes "running cfg fs e ops es" "es \<noteq> []"
  shows "\<exists>m. MemTable_wf m \<and> MemTable_entries m = Some es \<and> Flush_swap e = Some (swapped e, Some m) \<and> running cfg fs (swapped e) ops []"
proof -
  obtain m where m: "se_active_memtable e = Some m" "MemTable_wf m" "MemTable_entries m = Some es"
    using assms(1) by (auto simp: running_def)
  have "MemTable_IsEmpty m = Some False"
    using SkipList_IsEmpty_ok [of "mem_table m"] m assms(2) by (simp add: MemTable_IsEmpty_def MemTable_wf_def MemTable_entries_SkipList)
  with m assms(1) MemTable_new_ok show ?thesis by (simp add: Flush_swap_def running_def log_inv_def)
qed

lemma running_flush:
  assumes io: "io_fine io" and cfg: "config_ok cfg" and r: "running cfg fs e ops [(op_key x, op_value x)]" and x: "small_op cfg x"
  shows "\<exists>fs' e' meta. session_step io mt (fs, e) Flush_op = Some (fs', e') \<and> running cfg fs' e' ops []
    \<and> se_compaction_manager e' = (se_compaction_manager e)\<lparr>cm_files := cm_files (se_compaction_manager e) @ [meta]\<rparr>
    \<and> se_next_sst_sequence e' = se_next_sst_sequence e + 1 \<and> se_shutdown e' = se_shutdown e
    \<and> meta_describes fs' 0 meta [block_entry_of (op_key x, op_value x)] \<and> SSTableMeta_ok meta
    \<and> sm_filepath meta = sst_path cfg (se_next_sst_sequence e)
    \<and> fs' (ckm_checkpoint_path (CheckpointManager_new (cfg_data_dir cfg))) = Some (encode_checkpoint
        \<lparr>cp_last_flushed_lsn = to_u64 (length ops), cp_sstables = cm_files (se_compaction_manager e) @ [meta]\<rparr>)
    \<and> (\<forall>n. n \<noteq> se_next_sst_sequence e \<longrightarrow> fs' (sst_path cfg n) = fs (sst_path cfg n))
    \<and> fs' (wal_current_path cfg) = fs (wal_current_path cfg)"
proof -
  let ?e = "swapped e"
  let ?ck = "CheckpointManager_new (cfg_data_dir cfg)" and ?be = "[block_entry_of (op_key x, op_value x)]"
  obtain m where m: "MemTable_wf m" "MemTable_entries m = Some [(op_key x, op_value x)]" "Flush_swap e = Some (?e, Some m)"
    using running_swap [OF r] by blast
  obtain wal where wal: "se_wal e = Some wal" "wal_next_seq wal = to_u64 (length ops + 1)" using r by (auto simp: running_def log_inv_def)
  have "EncodedSize (block_entry_of (op_key x, op_value x)) \<le> 2 ^ 28"
    using x cfg by (simp add: small_op_def config_ok_def EncodedSize_def block_entry_of_def)
  moreover have "0 < cm_max_level (se_compaction_manager ?e)" "se_checkpoint_manager ?e = ?ck" "se_wal ?e = Some wal"
    using r wal by (simp_all add: running_def kNumLevels_def)
  ultimately obtain fs' meta where f: "Flush_write io fs ?e m = Some (fs', ?e\<lparr>se_immutable_memtable := None,
      se_compaction_manager := (se_compaction_manager e)\<lparr>cm_files := cm_files (se_compaction_manager e) @ [meta]\<rparr>,
      se_memtable_flushes := se_memtable_flushes e + 1, se_next_sst_sequence := se_next_sst_sequence e + 1\<rparr>, Status_Ok)"
    "table_file fs' (sst_path cfg (se_next_sst_sequence e)) ?be" "sm_filepath meta = sst_path cfg (se_next_sst_sequence e)" "sm_level meta = 0"
    "sm_smallest_key meta = be_key (hd ?be)" "sm_largest_key meta = be_key (last ?be)"
    "fs' (ckm_checkpoint_path ?ck) = Some (encode_checkpoint
         \<lparr>cp_last_flushed_lsn = WAL_current_sequence_number wal, cp_sstables = cm_files (se_compaction_manager e) @ [meta]\<rparr>)"
    "\<forall>q. q \<noteq> sst_path cfg (se_next_sst_sequence e) \<longrightarrow> q \<noteq> ckm_checkpoint_path ?ck \<longrightarrow> q \<noteq> ckm_temp_path ?ck \<longrightarrow> fs' q = fs q"
    using Flush_write_fine [OF io _ m(1,2), of ?e wal "cfg_data_dir cfg" fs] r by (auto simp: running_def)
  have "SSTableMeta_ok meta"
    using cfg length_sst_path [of cfg] by (intro SSTableMeta_ok_file [OF f(2)]) (simp_all add: f config_ok_def kNumLevels_def)
  moreover have "WAL_current_sequence_number wal = to_u64 (length ops)"
    by (simp add: WAL_current_sequence_number_def wal(2) to_u64_minus_1)
  ultimately show ?thesis
    using m(3) f r MemTable_new_ok
    by (auto simp: FlushMemTable_def running_def meta_describes_def log_inv_def)
qed

lemma running_Get_none:
  assumes io: "io_fine io" and srt: "sorts srt" and r: "running cfg fs e ops es" "map_of es k = None"
    and files: "\<forall>m \<in> set (cm_files (se_compaction_manager e)). \<exists>es. table_file fs (sm_filepath m) es \<and> List.find (\<lambda>e. be_key e = k) es = None"
  shows "StorageEngine_Get srt io fs e k = Some (Value None)"
  using r files by (auto simp: running_def intro: Get_none [OF io srt])

text \<open>The engine that an empty directory opens to.\<close>

lemma running_fresh:
  assumes io: "io_fine io" and fresh: "fresh_directory cfg fs"
  shows "\<exists>fs0 e0. StorageEngine_Open io mt fs cfg = Some (fs0, Value e0) \<and> running cfg fs0 e0 [] [] \<and> se_next_sst_sequence e0 = 1 \<and> \<not> se_shutdown e0
    \<and> se_compaction_manager e0 = CompactionManager_new (cfg_sst_dir cfg) kNumLevels"
  using Open_fresh_fine [OF assms, of mt] by (auto simp: running_def CompactionManager_new_def)

lemma reopen_checkpointed:
  assumes io: "io_fine io" and srt: "sorts srt"
    and cp: "fs (ckm_checkpoint_path (CheckpointManager_new (cfg_data_dir cfg)))
        = Some (encode_checkpoint \<lparr>cp_last_flushed_lsn = to_u64 (length ops), cp_sstables = metas\<rparr>)"
      "length metas < 2 ^ 32" "\<forall>m \<in> set metas. SSTableMeta_ok m \<and> 0 \<le> sm_level m \<and> sm_level m < kNumLevels"
    and log: "fs (wal_current_path cfg) = Some (concat (map SerializeEntry (stamp 1 (map op_entry ops))))"
      "\<forall>x \<in> set ops. entry_ok True (op_entry x)" "length ops < 2 ^ 32"
    and files: "\<forall>m \<in> set metas. \<exists>es. table_file fs (sm_filepath m) es \<and> List.find (\<lambda>e. be_key e = k) es = None"
  shows "\<exists>e. StorageEngine_Open io mt fs cfg = Some (fs, Value e) \<and> StorageEngine_Get srt io fs e k = Some (Value None)"
proof -
  obtain e B where o: "StorageEngine_Open io mt fs cfg = Some (fs, Value e)" "se_immutable_memtable e = None" "mem_inv B e []"
      "cm_files (se_compaction_manager e) = metas"
    using Open_checkpointed [where fs = fs and cfg = cfg, OF io cp log, of mt] by blast
  then obtain m es where "se_active_memtable e = Some m" "MemTable_wf m" "MemTable_entries m = Some es" "map_of es k = None"
    by (auto simp: mem_inv_def)
  from Get_none [OF io srt this o(2)] files o(1,4) show ?thesis by auto
qed

subsection \<open>A directory that is opened again\<close>

text \<open>C32. Opening a directory again loses files: table numbers start at 1 in every process, so the first
  flush after a restart overwrites the table of the first flush before it. A key that was put, flushed and
  readable is gone after the restart and the flush of another key, with every call reporting success.\<close>

theorem Engine_reopen_overwrites_table:
  assumes "io_fine io" and "sorts srt" and "config_ok cfg" and "fresh_directory cfg fs"
    and "small_op cfg (Put_op k v)" and "small_op cfg (Put_op k' v')" and "k \<noteq> k'"
  shows "\<exists>fs0 e0 fs1 e1 e2 fs3 e3. StorageEngine_Open io mt fs cfg = Some (fs0, Value e0)
    \<and> run_ops (session_step io mt) (fs0, e0) [Write_op (Put_op k v), Flush_op] = Some (fs1, e1)
    \<and> StorageEngine_Get srt io fs1 e1 k = Some (Value (Some v))
    \<and> StorageEngine_Open io mt' fs1 cfg = Some (fs1, Value e2)
    \<and> run_ops (session_step io mt') (fs1, e2) [Write_op (Put_op k' v'), Flush_op] = Some (fs3, e3)
    \<and> StorageEngine_Get srt io fs3 e3 k = Some (Value None)"
proof -
  let ?T = "cfg_memtable_size_bytes cfg"
  obtain fs0 e0 where o: "StorageEngine_Open io mt fs cfg = Some (fs0, Value e0)" "engine_inv cfg ?T fs0 e0 [] []"
    using Open_fresh [OF assms(1,4)] by blast
  obtain fsa ea where a: "session_step io mt (fs0, e0) (Write_op (Put_op k v)) = Some (fsa, ea)" "engine_inv cfg ?T fsa ea [] [Put_op k v]"
    using write_small [OF assms(1,3,5) o(2), of mt] by auto
  obtain fs1 e1 where 1: "session_step io mt (fsa, ea) Flush_op = Some (fs1, e1)" "engine_inv cfg ?T fs1 e1 [Put_op k v] []"
    using flush_step [OF assms(1,3) a(2), of mt] by auto
  have get: "StorageEngine_Get srt io fs1 e1 k = Some (Value (Some v))"
    using engine_Get_inv [OF assms(1,2) 1(2), of k] by (simp add: engine_read_def last_write_def)
  have "\<forall>x \<in> set ([Put_op k v] @ []). entry_ok True (op_entry x)" using assms(5) by (simp add: small_op_def)
  from Open_again [OF assms(1) 1(2) this, of mt'] obtain e2 B where 2: "StorageEngine_Open io mt' fs1 cfg = Some (fs1, Value e2)"
    "se_next_sst_sequence e2 = 1" and inv: "engine_inv cfg B fs1 (e2\<lparr>se_next_sst_sequence := se_next_sst_sequence e1\<rparr>) [Put_op k v] []" by auto
  from engine_inv_running [OF inv] map_of_all_None have run: "running cfg fs1 e2 [Put_op k v] []"
    by (auto simp: running_def log_inv_def)
  have paths: "\<forall>m \<in> set (cm_files (se_compaction_manager e2)). sm_filepath m = sst_path cfg 1"
  proof -
    let ?files = "cm_files (se_compaction_manager e2)"
    have "length ?files \<le> 1" "map sm_filepath ?files = map (\<lambda>i. sst_path cfg (to_u64 i)) [1 ..< Suc (length ?files)]"
      using inv by (auto simp: engine_inv_def cat_inv_def Let_def simp del: upt_Suc)
    then show ?thesis by (cases ?files) (auto simp: to_u64_def)
  qed
  obtain fsb eb where b: "session_step io mt' (fs1, e2) (Write_op (Put_op k' v')) = Some (fsb, eb)"
      "running cfg fsb eb ([Put_op k v] @ [Put_op k' v']) [(op_key (Put_op k' v'), op_value (Put_op k' v'))]"
      "se_compaction_manager eb = se_compaction_manager e2" "se_next_sst_sequence eb = 1"
    using running_write [OF assms(1) run assms(6), of mt'] 2(2) by auto
  obtain fs3 e3 meta where 3: "session_step io mt' (fsb, eb) Flush_op = Some (fs3, e3)"
      "running cfg fs3 e3 ([Put_op k v] @ [Put_op k' v']) []"
      "cm_files (se_compaction_manager e3) = cm_files (se_compaction_manager e2) @ [meta]"
      "meta_describes fs3 0 meta [block_entry_of (k', op_value (Put_op k' v'))]" "sm_filepath meta = sst_path cfg 1"
    using running_flush [OF assms(1,3) b(2) assms(6), of mt'] b(3,4) by auto
  have "StorageEngine_Get srt io fs3 e3 k = Some (Value None)"
  proof (rule running_Get_none [OF assms(1,2) 3(2)])
    have "table_file fs3 (sst_path cfg 1) [block_entry_of (k', op_value (Put_op k' v'))]" using 3(4,5) by (simp add: meta_describes_def)
    moreover have "List.find (\<lambda>e. be_key e = k) [block_entry_of (k', op_value (Put_op k' v'))] = None"
      using assms(7) by (simp add: block_entry_of_def)
    ultimately show "\<forall>m \<in> set (cm_files (se_compaction_manager e3)). \<exists>es. table_file fs3 (sm_filepath m) es \<and> List.find (\<lambda>e. be_key e = k) es = None"
      using paths 3(3,5) by auto
  qed simp
  with o(1) a(1) 1(1) get 2(1) b(1) 3(1) show ?thesis by (auto simp del: session_step.simps)
qed

theorem Engine_reopen_overwrites_table_witness:
  "\<exists>fs0 e0 fs1 e1 e2 fs3 e3. StorageEngine_Open io_ideal (\<lambda>_. 0) Map.empty StorageConfig_default = Some (fs0, Value e0)
    \<and> run_ops (session_step io_ideal (\<lambda>_. 0)) (fs0, e0) [Write_op (Put_op ''a'' [1]), Flush_op] = Some (fs1, e1)
    \<and> StorageEngine_Get sort_by io_ideal fs1 e1 ''a'' = Some (Value (Some [1]))
    \<and> StorageEngine_Open io_ideal (\<lambda>_. 0) fs1 StorageConfig_default = Some (fs1, Value e2)
    \<and> run_ops (session_step io_ideal (\<lambda>_. 0)) (fs1, e2) [Write_op (Put_op ''b'' [2]), Flush_op] = Some (fs3, e3)
    \<and> StorageEngine_Get sort_by io_ideal fs3 e3 ''a'' = Some (Value None)"
  by (rule Engine_reopen_overwrites_table [OF io_fine_ideal sorts_sort_by config_ok_default fresh_directory_empty])
    (simp_all add: small_op_def max_payload_def StorageConfig_default_def)

subsection \<open>A flush that fails\<close>

lemma failed_flush:
  assumes r: "running cfg fs e ops es" "es \<noteq> []" and io: "\<not> can_create io (sst_path cfg (se_next_sst_sequence e))"
  shows "\<exists>e' st. FlushMemTable io fs e = Some (fs, e', st) \<and> \<not> Status_IsOk st \<and> running cfg fs e' ops []
    \<and> se_compaction_manager e' = se_compaction_manager e \<and> se_next_sst_sequence e' = se_next_sst_sequence e + 1"
proof -
  obtain m where m: "MemTable_entries m = Some es" "Flush_swap e = Some (swapped e, Some m)" using running_swap [OF r] by blast
  obtain it where it: "MemTable_Begin m = Some it" using m(1) by (auto simp: MemTable_entries_def split: bind_splits)
  obtain wal where wal: "se_wal e = Some wal" using r(1) by (auto simp: running_def log_inv_def)
  have cfg: "se_config e = cfg" using r(1) by (simp add: running_def)
  let ?e = "e\<lparr>se_active_memtable := Some MemTable_new, se_immutable_memtable := None, se_next_sst_sequence := se_next_sst_sequence e + 1\<rparr>"
  have "FlushMemTable io fs e
      = Some (fs, ?e, mk_Status kStorageIoError (''Cannot create SSTable: '' @ sst_path cfg (se_next_sst_sequence e)))"
    using m(2) it wal io
    by (simp add: FlushMemTable_def Flush_write_def SSTableWriter_Write_def open_trunc_def cfg Let_def)
  moreover have "running cfg fs ?e ops []" using r(1) MemTable_new_ok by (simp add: running_def log_inv_def)
  ultimately show ?thesis by auto
qed

text \<open>C33. A flush that fails loses acknowledged writes: the memtable is given up before its table is
  written. When the table of a flush cannot be created, the flush reports the error, but the key that was
  put is no longer found; and once another key has been put and flushed with success, the checkpoint
  covers the lost record, so that it stays lost when the directory is opened again.\<close>

theorem Engine_failed_flush_loses_write:
  assumes "io_fine io" and "sorts srt" and "config_ok cfg" and "fresh_directory cfg fs"
    and "small_op cfg (Put_op k v)" and "small_op cfg (Put_op k' v')" and "k \<noteq> k'"
    and "\<not> can_create bad (sst_path cfg 1)"
  shows "\<exists>fs0 e0 fs1 e1 e2 st fs3 e3 e4. StorageEngine_Open io mt fs cfg = Some (fs0, Value e0)
    \<and> run_ops (session_step io mt) (fs0, e0) [Write_op (Put_op k v)] = Some (fs1, e1)
    \<and> FlushMemTable bad fs1 e1 = Some (fs1, e2, st) \<and> \<not> Status_IsOk st
    \<and> StorageEngine_Get srt io fs1 e2 k = Some (Value None)
    \<and> run_ops (session_step io mt) (fs1, e2) [Write_op (Put_op k' v'), Flush_op] = Some (fs3, e3)
    \<and> StorageEngine_Open io mt' fs3 cfg = Some (fs3, Value e4)
    \<and> StorageEngine_Get srt io fs3 e4 k = Some (Value None)"
proof -
  obtain fs0 e0 where o: "StorageEngine_Open io mt fs cfg = Some (fs0, Value e0)" "running cfg fs0 e0 [] []"
      "se_next_sst_sequence e0 = 1" "se_compaction_manager e0 = CompactionManager_new (cfg_sst_dir cfg) kNumLevels"
    using running_fresh [OF assms(1,4)] by blast
  obtain fs1 e1 where 1: "session_step io mt (fs0, e0) (Write_op (Put_op k v)) = Some (fs1, e1)"
      "running cfg fs1 e1 [Put_op k v] [(k, op_value (Put_op k v))]"
      "se_compaction_manager e1 = CompactionManager_new (cfg_sst_dir cfg) kNumLevels" "se_next_sst_sequence e1 = 1"
    using running_write [OF assms(1) o(2) assms(5), of mt] o(3,4) by auto
  have "\<not> can_create bad (sst_path cfg (se_next_sst_sequence e1))" using 1(4) assms(8) by simp
  from failed_flush [OF 1(2) _ this] obtain e2 st where 2: "FlushMemTable bad fs1 e1 = Some (fs1, e2, st)" "\<not> Status_IsOk st"
      "running cfg fs1 e2 [Put_op k v] []" "se_compaction_manager e2 = CompactionManager_new (cfg_sst_dir cfg) kNumLevels"
    using 1(3) by auto
  have get: "StorageEngine_Get srt io fs1 e2 k = Some (Value None)"
    using running_Get_none [OF assms(1,2) 2(3)] 2(4) by (simp add: CompactionManager_new_def)
  obtain fsb eb where b: "session_step io mt (fs1, e2) (Write_op (Put_op k' v')) = Some (fsb, eb)"
      "running cfg fsb eb ([Put_op k v] @ [Put_op k' v']) [(op_key (Put_op k' v'), op_value (Put_op k' v'))]"
      "se_compaction_manager eb = CompactionManager_new (cfg_sst_dir cfg) kNumLevels"
    using running_write [OF assms(1) 2(3) assms(6), of mt] 2(4) by auto
  let ?ops = "[Put_op k v] @ [Put_op k' v']"
  obtain fs3 e3 meta where 3: "session_step io mt (fsb, eb) Flush_op = Some (fs3, e3)" "running cfg fs3 e3 ?ops []"
      "meta_describes fs3 0 meta [block_entry_of (k', op_value (Put_op k' v'))]" "SSTableMeta_ok meta"
      "fs3 (ckm_checkpoint_path (CheckpointManager_new (cfg_data_dir cfg)))
        = Some (encode_checkpoint \<lparr>cp_last_flushed_lsn = to_u64 (length ?ops), cp_sstables = [meta]\<rparr>)"
    using running_flush [OF assms(1,3) b(2) assms(6), of mt] b(3) by (auto simp: CompactionManager_new_def)
  have log: "fs3 (wal_current_path cfg) = Some (concat (map SerializeEntry (stamp 1 (map op_entry ?ops))))"
    using 3(2) by (simp add: running_def log_inv_def)
  have "\<exists>e. StorageEngine_Open io mt' fs3 cfg = Some (fs3, Value e) \<and> StorageEngine_Get srt io fs3 e k = Some (Value None)"
  proof (rule reopen_checkpointed [OF assms(1,2) 3(5) _ _ log])
    show "\<forall>x \<in> set ?ops. entry_ok True (op_entry x)" using assms(5,6) by (simp add: small_op_def)
    show "\<forall>m \<in> set [meta]. \<exists>es. table_file fs3 (sm_filepath m) es \<and> List.find (\<lambda>e. be_key e = k) es = None"
      using 3(3) assms(7) by (auto simp: meta_describes_def block_entry_of_def intro!: exI [of _ "[block_entry_of (k', op_value (Put_op k' v'))]"])
  qed (use 3(3,4) in \<open>simp_all add: meta_describes_def kNumLevels_def\<close>)
  with o(1) 1(1) 2(1,2) get b(1) 3(1) show ?thesis by (auto simp del: session_step.simps)
qed

theorem Engine_failed_flush_loses_write_witness:
  "\<exists>fs0 e0 fs1 e1 e2 st fs3 e3 e4. StorageEngine_Open io_ideal (\<lambda>_. 0) Map.empty StorageConfig_default = Some (fs0, Value e0)
    \<and> run_ops (session_step io_ideal (\<lambda>_. 0)) (fs0, e0) [Write_op (Put_op ''a'' [1])] = Some (fs1, e1)
    \<and> FlushMemTable (io_ideal\<lparr>can_create := \<lambda>_. False\<rparr>) fs1 e1 = Some (fs1, e2, st) \<and> \<not> Status_IsOk st
    \<and> StorageEngine_Get sort_by io_ideal fs1 e2 ''a'' = Some (Value None)
    \<and> run_ops (session_step io_ideal (\<lambda>_. 0)) (fs1, e2) [Write_op (Put_op ''b'' [2]), Flush_op] = Some (fs3, e3)
    \<and> StorageEngine_Open io_ideal (\<lambda>_. 0) fs3 StorageConfig_default = Some (fs3, Value e4)
    \<and> StorageEngine_Get sort_by io_ideal fs3 e4 ''a'' = Some (Value None)"
  by (rule Engine_failed_flush_loses_write [OF io_fine_ideal sorts_sort_by config_ok_default fresh_directory_empty])
    (simp_all add: small_op_def max_payload_def StorageConfig_default_def)

subsection \<open>A compaction while writes are in memory\<close>

text \<open>Writes that are flushed one by one, each to a file of its own.\<close>

lemma flushed_writes:
  assumes io: "io_fine io" and cfg: "config_ok cfg"
  shows "engine_inv cfg (cfg_memtable_size_bytes cfg) fs e flushed [] \<Longrightarrow> \<forall>x \<in> set xs. small_op cfg x \<Longrightarrow>
    length flushed + length xs < 2 ^ 32 \<Longrightarrow>
    \<exists>fs' e'. run_ops (session_step io mt) (fs, e) (concat (map (\<lambda>x. [Write_op x, Flush_op]) xs)) = Some (fs', e')
      \<and> engine_inv cfg (cfg_memtable_size_bytes cfg) fs' e' (flushed @ xs) []
      \<and> length (cm_files (se_compaction_manager e')) = length (cm_files (se_compaction_manager e)) + length xs"
proof (induction xs arbitrary: fs e flushed)
  case (Cons x xs)
  obtain fs1 e1 where 1: "session_step io mt (fs, e) (Write_op x) = Some (fs1, e1)"
      "engine_inv cfg (cfg_memtable_size_bytes cfg) fs1 e1 flushed [x]" "cm_files (se_compaction_manager e1) = cm_files (se_compaction_manager e)"
    using write_small [OF io cfg _ Cons.prems(1), of x mt] Cons.prems(2,3) by auto
  obtain fs2 e2 where 2: "session_step io mt (fs1, e1) Flush_op = Some (fs2, e2)"
      "engine_inv cfg (cfg_memtable_size_bytes cfg) fs2 e2 (flushed @ [x]) []"
      "length (cm_files (se_compaction_manager e2)) = Suc (length (cm_files (se_compaction_manager e1)))"
    using flush_step [OF io cfg 1(2), of mt] Cons.prems(3) by auto
  from Cons.IH [OF 2(2)] Cons.prems(2,3) 1(1,3) 2(1,3) show ?case by (auto simp del: session_step.simps)
qed simp

text \<open>C34. A compaction can lose acknowledged writes: the checkpoint that the compaction thread writes carries
  the number of the last log record, also when that record is only in the memtable. After at least four
  writes, each flushed, and a put of another key, a round of the compaction thread leaves that key readable;
  when the process then stops, the directory opens without an error and the key is gone.\<close>

theorem Engine_compaction_checkpoint_loses_write:
  assumes "io_fine io" and "sorts srt" and "config_ok cfg" and "fresh_directory cfg fs"
    and "small_op cfg (Put_op k v)" and "\<forall>x \<in> set xs. small_op cfg x \<and> op_key x \<noteq> k" and "4 \<le> length xs" and "length xs < 2 ^ 31"
  shows "\<exists>fs0 e0 fs1 e1 fs2 e2 e3. StorageEngine_Open io mt fs cfg = Some (fs0, Value e0)
    \<and> run_ops (session_step io mt) (fs0, e0) (concat (map (\<lambda>x. [Write_op x, Flush_op]) xs) @ [Write_op (Put_op k v)]) = Some (fs1, e1)
    \<and> CompactionLoop_round srt io mt fs1 e1 = Some (fs2, e2)
    \<and> StorageEngine_Get srt io fs2 e2 k = Some (Value (Some v))
    \<and> StorageEngine_Open io mt' fs2 cfg = Some (fs2, Value e3)
    \<and> StorageEngine_Get srt io fs2 e3 k = Some (Value None)"
proof -
  let ?T = "cfg_memtable_size_bytes cfg" and ?ops = "xs @ [Put_op k v]"
  have ok: "\<forall>x \<in> set ?ops. entry_ok True (op_entry x)" using assms(5,6) by (auto simp: small_op_def)
  obtain fs0 e0 where o: "StorageEngine_Open io mt fs cfg = Some (fs0, Value e0)" "engine_inv cfg ?T fs0 e0 [] []"
    using Open_fresh [OF assms(1,4)] by blast
  obtain fsa ea where a: "run_ops (session_step io mt) (fs0, e0) (concat (map (\<lambda>x. [Write_op x, Flush_op]) xs)) = Some (fsa, ea)"
      "engine_inv cfg ?T fsa ea xs []" "length xs \<le> length (cm_files (se_compaction_manager ea))"
    using flushed_writes [OF assms(1,3) o(2), of xs mt] assms(6,8) by auto
  obtain fs1 e1 where 1: "session_step io mt (fsa, ea) (Write_op (Put_op k v)) = Some (fs1, e1)"
      "engine_inv cfg ?T fs1 e1 xs [Put_op k v]" "cm_files (se_compaction_manager e1) = cm_files (se_compaction_manager ea)"
    using write_small [OF assms(1,3,5) a(2), of mt] assms(8) by auto
  have "kLevel0CompactionTrigger \<le> length (cm_files (se_compaction_manager e1))"
    using a(3) 1(3) assms(7) by (simp add: kLevel0CompactionTrigger_def)
  from CompactionLoop_round_flushed [OF assms(1-3) 1(2) this, of mt] assms(8) ok obtain fs2 cm' f
    where 2: "CompactionLoop_round srt io mt fs1 e1 = Some (fs2, e1\<lparr>se_compaction_manager := cm'\<rparr>)"
      "compacted_files cfg fs2 (cm_files cm') f" "compaction_of xs f" "length (cm_files cm') \<le> length xs"
      "fs2 (wal_current_path cfg) = fs1 (wal_current_path cfg)"
      "fs2 (ckm_checkpoint_path (CheckpointManager_new (cfg_data_dir cfg))) = Some (encode_checkpoint
        \<lparr>cp_last_flushed_lsn = to_u64 (length ?ops), cp_sstables = cm_files cm'\<rparr>)" by auto
  have mem: "mem_inv ?T (e1\<lparr>se_compaction_manager := cm'\<rparr>) [Put_op k v]" "se_immutable_memtable (e1\<lparr>se_compaction_manager := cm'\<rparr>) = None"
    and log: "log_inv cfg fs1 e1 ?ops" using 1(2) by (simp_all add: engine_inv_def mem_inv_def)
  have "StorageEngine_Get srt io fs2 (e1\<lparr>se_compaction_manager := cm'\<rparr>) k = Some (Value (Some v))"
    using compacted_Get [OF assms(1,2) mem, of cfg fs2 f k] 2(2) by (simp add: last_write_def)
  moreover obtain e3 B where "StorageEngine_Open io mt' fs2 cfg = Some (fs2, Value e3)" "se_immutable_memtable e3 = None"
      "mem_inv B e3 []" "cm_files (se_compaction_manager e3) = cm_files cm'"
    using Open_checkpointed [where fs = fs2 and cfg = cfg, OF assms(1) 2(6), of mt'] 2(2,4,5) log ok assms(8)
    by (auto simp: log_inv_def compacted_files_def kNumLevels_def)
  moreover have "k \<notin> op_key ` set xs" using assms(6) by auto
  then have "f k = None" using 2(3) by (simp add: compaction_of_def)
  ultimately show ?thesis
    using compacted_Get [OF assms(1,2), of B e3 "[]" cfg fs2 f k] 2(1,2) o(1) a(1) 1(1)
    by (auto simp: run_ops_append entry_answer_def simp del: session_step.simps)
qed

theorem Engine_compaction_checkpoint_loses_write_witness:
  "\<exists>fs0 e0 fs1 e1 fs2 e2 e3. StorageEngine_Open io_ideal (\<lambda>_. 0) Map.empty StorageConfig_default = Some (fs0, Value e0)
    \<and> run_ops (session_step io_ideal (\<lambda>_. 0)) (fs0, e0)
        (concat (map (\<lambda>x. [Write_op x, Flush_op]) [Put_op ''a'' [1], Put_op ''b'' [2], Delete_op ''a'', Put_op ''c'' []]) @ [Write_op (Put_op ''k'' [7])])
        = Some (fs1, e1)
    \<and> CompactionLoop_round sort_by io_ideal (\<lambda>_. 0) fs1 e1 = Some (fs2, e2)
    \<and> StorageEngine_Get sort_by io_ideal fs2 e2 ''k'' = Some (Value (Some [7]))
    \<and> StorageEngine_Open io_ideal (\<lambda>_. 0) fs2 StorageConfig_default = Some (fs2, Value e3)
    \<and> StorageEngine_Get sort_by io_ideal fs2 e3 ''k'' = Some (Value None)"
  by (rule Engine_compaction_checkpoint_loses_write [OF io_fine_ideal sorts_sort_by config_ok_default fresh_directory_empty])
    (simp_all add: small_op_def max_payload_def StorageConfig_default_def)

subsection \<open>A write during a flush\<close>

text \<open>C35. A write that runs during a flush can be lost: the flush releases the memtable lock before it reads the
  number of the last log record. A put that another thread completes in between goes to the new memtable, is
  acknowledged and can be read after the flush; but the checkpoint of the flush covers its record, so that
  after a crash the directory opens without an error and without the key.\<close>

theorem Engine_flush_race_loses_write:
  assumes "io_fine io" and "sorts srt" and "config_ok cfg" and "fresh_directory cfg fs"
    and "small_op cfg (Put_op k v)" and "small_op cfg (Put_op k0 v0)" and "k \<noteq> k0"
  shows "\<exists>fs0 e0 fs1 e1 e2 m fs3 e3 st fs4 e4 e5. StorageEngine_Open io mt fs cfg = Some (fs0, Value e0)
    \<and> run_ops (session_step io mt) (fs0, e0) [Write_op (Put_op k0 v0)] = Some (fs1, e1)
    \<and> Flush_swap e1 = Some (e2, Some m)
    \<and> StorageEngine_Put io mt fs1 e2 k v = Some (fs3, e3, st) \<and> Status_IsOk st
    \<and> Flush_write io fs3 e3 m = Some (fs4, e4, Status_Ok)
    \<and> StorageEngine_Get srt io fs4 e4 k = Some (Value (Some v))
    \<and> StorageEngine_Open io mt' fs4 cfg = Some (fs4, Value e5)
    \<and> StorageEngine_Get srt io fs4 e5 k = Some (Value None)"
proof -
  let ?ck = "CheckpointManager_new (cfg_data_dir cfg)" and ?be = "[block_entry_of (k0, op_value (Put_op k0 v0))]"
  obtain fs0 e0 where o: "StorageEngine_Open io mt fs cfg = Some (fs0, Value e0)" "running cfg fs0 e0 [] []"
      "se_next_sst_sequence e0 = 1" "se_compaction_manager e0 = CompactionManager_new (cfg_sst_dir cfg) kNumLevels"
    using running_fresh [OF assms(1,4)] by blast
  obtain fs1 e1 where 1: "session_step io mt (fs0, e0) (Write_op (Put_op k0 v0)) = Some (fs1, e1)"
      "running cfg fs1 e1 [Put_op k0 v0] [(k0, op_value (Put_op k0 v0))]"
      "se_compaction_manager e1 = CompactionManager_new (cfg_sst_dir cfg) kNumLevels"
    using running_write [OF assms(1) o(2) assms(6), of mt] o(3,4) by auto
  let ?e2 = "swapped e1"
  from running_swap [OF 1(2)] obtain m where m: "MemTable_wf m" "MemTable_entries m = Some [(k0, op_value (Put_op k0 v0))]"
    and sw: "Flush_swap e1 = Some (?e2, Some m)" and run: "running cfg fs1 ?e2 [Put_op k0 v0] []" by blast
  from running_write [OF assms(1) run assms(5), of mt] 1(3) obtain fs3 e3
    where 3: "session_step io mt (fs1, ?e2) (Write_op (Put_op k v)) = Some (fs3, e3)"
      "running cfg fs3 e3 ([Put_op k0 v0] @ [Put_op k v]) [(k, op_value (Put_op k v))]"
      "se_compaction_manager e3 = CompactionManager_new (cfg_sst_dir cfg) kNumLevels" by auto
  let ?ops = "[Put_op k0 v0] @ [Put_op k v]"
  obtain st where put: "StorageEngine_Put io mt fs1 ?e2 k v = Some (fs3, e3, st)" "Status_IsOk st"
    using 3(1) by (auto simp: engine_write_def split: bind_splits if_splits)
  obtain wal where wal: "se_wal e3 = Some wal" "wal_next_seq wal = to_u64 (length ?ops + 1)" using 3(2) by (auto simp: running_def log_inv_def)
  have "EncodedSize (block_entry_of (k0, op_value (Put_op k0 v0))) \<le> 2 ^ 28"
    using assms(3,6) by (simp add: small_op_def config_ok_def EncodedSize_def block_entry_of_def)
  with Flush_write_fine [OF assms(1) wal(1) m, of "cfg_data_dir cfg" fs3] 3(2,3) obtain fs4 meta
    where f: "Flush_write io fs3 e3 m = Some (fs4, e3\<lparr>se_immutable_memtable := None,
        se_compaction_manager := (se_compaction_manager e3)\<lparr>cm_files := [meta]\<rparr>, se_memtable_flushes := se_memtable_flushes e3 + 1,
        se_next_sst_sequence := se_next_sst_sequence e3 + 1\<rparr>, Status_Ok)"
      "table_file fs4 (sm_filepath meta) ?be" "sm_filepath meta = sst_path cfg (se_next_sst_sequence e3)" "sm_level meta = 0"
      "sm_smallest_key meta = be_key (hd ?be)" "sm_largest_key meta = be_key (last ?be)"
      "fs4 (ckm_checkpoint_path ?ck) = Some (encode_checkpoint \<lparr>cp_last_flushed_lsn = WAL_current_sequence_number wal, cp_sstables = [meta]\<rparr>)"
      "fs4 (wal_current_path cfg) = fs3 (wal_current_path cfg)"
    by (auto simp: running_def CompactionManager_new_def kNumLevels_def)
  have lsn: "WAL_current_sequence_number wal = to_u64 (length ?ops)"
    by (simp add: WAL_current_sequence_number_def wal(2) to_u64_minus_1)
  have ok: "SSTableMeta_ok meta"
    using assms(3) length_sst_path [of cfg] by (intro SSTableMeta_ok_file [OF f(2)]) (simp_all add: f config_ok_def kNumLevels_def)
  have log: "fs4 (wal_current_path cfg) = Some (concat (map SerializeEntry (stamp 1 (map op_entry ?ops))))"
    using 3(2) f(8) by (simp add: running_def log_inv_def)
  have "\<exists>e. StorageEngine_Open io mt' fs4 cfg = Some (fs4, Value e) \<and> StorageEngine_Get srt io fs4 e k = Some (Value None)"
  proof (rule reopen_checkpointed [OF assms(1,2) f(7) [unfolded lsn] _ _ log])
    show "\<forall>x \<in> set ?ops. entry_ok True (op_entry x)" using assms(5,6) by (simp add: small_op_def)
    show "\<forall>m \<in> set [meta]. \<exists>es. table_file fs4 (sm_filepath m) es \<and> List.find (\<lambda>e. be_key e = k) es = None"
      using f(2) assms(7) by (auto simp: block_entry_of_def)
  qed (use f(4) ok in \<open>simp_all add: kNumLevels_def\<close>)
  moreover have "StorageEngine_Get srt io fs4 (e3\<lparr>se_immutable_memtable := None,
        se_compaction_manager := (se_compaction_manager e3)\<lparr>cm_files := [meta]\<rparr>, se_memtable_flushes := se_memtable_flushes e3 + 1,
        se_next_sst_sequence := se_next_sst_sequence e3 + 1\<rparr>) k = Some (Value (Some v))"
    using 3(2) MemTable_Get_entries [where k = k] by (auto simp: running_def StorageEngine_Get_def Get_memtables_def)
  ultimately show ?thesis using o(1) 1(1) sw put f(1) by (auto simp del: session_step.simps)
qed

theorem Engine_flush_race_loses_write_witness:
  "\<exists>fs0 e0 fs1 e1 e2 m fs3 e3 st fs4 e4 e5. StorageEngine_Open io_ideal (\<lambda>_. 0) Map.empty StorageConfig_default = Some (fs0, Value e0)
    \<and> run_ops (session_step io_ideal (\<lambda>_. 0)) (fs0, e0) [Write_op (Put_op ''b'' [2])] = Some (fs1, e1)
    \<and> Flush_swap e1 = Some (e2, Some m)
    \<and> StorageEngine_Put io_ideal (\<lambda>_. 0) fs1 e2 ''a'' [1] = Some (fs3, e3, st) \<and> Status_IsOk st
    \<and> Flush_write io_ideal fs3 e3 m = Some (fs4, e4, Status_Ok)
    \<and> StorageEngine_Get sort_by io_ideal fs4 e4 ''a'' = Some (Value (Some [1]))
    \<and> StorageEngine_Open io_ideal (\<lambda>_. 0) fs4 StorageConfig_default = Some (fs4, Value e5)
    \<and> StorageEngine_Get sort_by io_ideal fs4 e5 ''a'' = Some (Value None)"
  by (rule Engine_flush_race_loses_write [OF io_fine_ideal sorts_sort_by config_ok_default fresh_directory_empty])
    (simp_all add: small_op_def max_payload_def StorageConfig_default_def)

end
