(* ===== verification/Thread_Pool.thy ===== *)
theory Thread_Pool
  imports Prelude "HOL-Library.Multiset"
begin

text \<open>The thread pool of \<^verbatim>\<open>src/common/thread_pool\<close>: the queue, the workers and the destructor as an
  interleaving of the sections between the locks. A worker sleeps on the condition variable, is woken by a
  notification or for no reason, takes a task under the lock and runs it outside. The notification that
  follows an insertion is a step of its own, since it is sent after the lock was released. A task never
  throws into the worker: it is a packaged task, which keeps the exception for its future.\<close>

subsection \<open>The pool\<close>

text \<open>Where a worker is in its loop: in front of the test under the lock, asleep in it, running a task, or
  behind the loop.\<close>

datatype 't worker = Idle | Blocked | Running 't | Returned

record 't ThreadPool =
  tp_workers :: "'t worker list"
  tp_tasks :: "'t list"
  tp_stop :: bool

definition ThreadPool_new :: "nat \<Rightarrow> 't ThreadPool" where
  "ThreadPool_new num_threads = \<lparr>tp_workers = replicate num_threads Idle, tp_tasks = [], tp_stop = False\<rparr>"

text \<open>The section of worker \<open>i\<close> under the lock: the wait with its predicate, the exit, the removal.\<close>

definition worker_check :: "'t ThreadPool \<Rightarrow> nat \<Rightarrow> 't ThreadPool" where
  "worker_check p i =
     (case tp_tasks p of
        [] \<Rightarrow> if tp_stop p then p\<lparr>tp_workers := (tp_workers p)[i := Returned]\<rparr>
              else p\<lparr>tp_workers := (tp_workers p)[i := Blocked]\<rparr>
      | task # tasks \<Rightarrow> p\<lparr>tp_workers := (tp_workers p)[i := Running task], tp_tasks := tasks\<rparr>)"

definition worker_finish :: "'t ThreadPool \<Rightarrow> nat \<Rightarrow> 't ThreadPool" where
  "worker_finish p i = p\<lparr>tp_workers := (tp_workers p)[i := Idle]\<rparr>"

text \<open>The left value is the exception.\<close>

definition Enqueue :: "'t ThreadPool \<Rightarrow> 't \<Rightarrow> string + 't ThreadPool" where
  "Enqueue p task =
     (if tp_stop p then Inl ''Enqueue on stopped ThreadPool''
      else Inr (p\<lparr>tp_tasks := tp_tasks p @ [task]\<rparr>))"

text \<open>The two sides of the condition variable, and a wakeup of worker \<open>i\<close>.\<close>

definition wake :: "'t worker \<Rightarrow> 't worker" where
  "wake w = (if w = Blocked then Idle else w)"

definition notify :: "'t ThreadPool \<Rightarrow> nat \<Rightarrow> 't ThreadPool" where
  "notify p i = p\<lparr>tp_workers := (tp_workers p)[i := wake (tp_workers p ! i)]\<rparr>"

definition notify_all :: "'t ThreadPool \<Rightarrow> 't ThreadPool" where
  "notify_all p = p\<lparr>tp_workers := map wake (tp_workers p)\<rparr>"

text \<open>The destructor: its section under the lock, and the condition under which its joins have returned.\<close>

definition ThreadPool_stop :: "'t ThreadPool \<Rightarrow> 't ThreadPool" where
  "ThreadPool_stop p = p\<lparr>tp_stop := True\<rparr>"

definition ThreadPool_joined :: "'t ThreadPool \<Rightarrow> bool" where
  "ThreadPool_joined p \<longleftrightarrow> list_all (\<lambda>w. w = Returned) (tp_workers p)"

subsection \<open>Interleavings\<close>

text \<open>The pool together with what its clients have done: notifications that are on their way, whether the
  destructor still has to send its own, and the tasks accepted, started and finished, in order.\<close>

record 't pool_system =
  ps_pool :: "'t ThreadPool"
  ps_notify :: nat
  ps_notify_all :: bool
  ps_accepted :: "'t list"
  ps_started :: "'t list"
  ps_finished :: "'t list"

definition pool_init :: "nat \<Rightarrow> 't pool_system" where
  "pool_init n = \<lparr>ps_pool = ThreadPool_new n, ps_notify = 0, ps_notify_all = False,
     ps_accepted = [], ps_started = [], ps_finished = []\<rparr>"

abbreviation worker_at :: "'t pool_system \<Rightarrow> nat \<Rightarrow> 't worker \<Rightarrow> bool" where
  "worker_at s i w \<equiv> i < length (tp_workers (ps_pool s)) \<and> tp_workers (ps_pool s) ! i = w"

inductive pool_step :: "'t pool_system \<Rightarrow> 't pool_system \<Rightarrow> bool" where
  enqueue: "Enqueue (ps_pool s) t = Inr p \<Longrightarrow>
     pool_step s (s\<lparr>ps_pool := p, ps_notify := Suc (ps_notify s), ps_accepted := ps_accepted s @ [t]\<rparr>)"
| notify_one: "ps_notify s = Suc n \<Longrightarrow> worker_at s i Blocked \<Longrightarrow>
     pool_step s (s\<lparr>ps_pool := notify (ps_pool s) i, ps_notify := n\<rparr>)"
| notify_nobody: "ps_notify s = Suc n \<Longrightarrow> Blocked \<notin> set (tp_workers (ps_pool s)) \<Longrightarrow> pool_step s (s\<lparr>ps_notify := n\<rparr>)"
| spurious: "worker_at s i Blocked \<Longrightarrow> pool_step s (s\<lparr>ps_pool := notify (ps_pool s) i\<rparr>)"
| check: "worker_at s i Idle \<Longrightarrow>
     pool_step s (s\<lparr>ps_pool := worker_check (ps_pool s) i, ps_started := ps_started s @ take 1 (tp_tasks (ps_pool s))\<rparr>)"
| finish: "worker_at s i (Running t) \<Longrightarrow>
     pool_step s (s\<lparr>ps_pool := worker_finish (ps_pool s) i, ps_finished := ps_finished s @ [t]\<rparr>)"
| stop: "\<not> tp_stop (ps_pool s) \<Longrightarrow> pool_step s (s\<lparr>ps_pool := ThreadPool_stop (ps_pool s), ps_notify_all := True\<rparr>)"
| stopped: "ps_notify_all s \<Longrightarrow> pool_step s (s\<lparr>ps_pool := notify_all (ps_pool s), ps_notify_all := False\<rparr>)"

inductive pool_reach :: "nat \<Rightarrow> 't pool_system \<Rightarrow> bool" for n where
  init: "pool_reach n (pool_init n)"
| step: "pool_reach n s \<Longrightarrow> pool_step s s' \<Longrightarrow> pool_reach n s'"

lemmas pool_defs = worker_check_def worker_finish_def Enqueue_def wake_def notify_def notify_all_def ThreadPool_stop_def

subsection \<open>Accounting\<close>

fun running_task :: "'t worker \<Rightarrow> 't list" where
  "running_task (Running t) = [t]"
| "running_task _ = []"

definition running_tasks :: "'t ThreadPool \<Rightarrow> 't list" where
  "running_tasks p = concat (map running_task (tp_workers p))"

lemma concat_map_update:
  assumes "i < length ws"
  shows "mset (concat (map f (ws[i := w]))) + mset (f (ws ! i)) = mset (concat (map f ws)) + mset (f w)"
  using assms
proof (induction ws arbitrary: i)
  case (Cons a ws)
  show ?case
  proof (cases i)
    case (Suc j)
    with Cons.IH [of j] Cons.prems show ?thesis by (simp add: ac_simps)
  qed simp
qed simp

lemma running_tasks_update:
  assumes "i < length (tp_workers p)" "tp_workers p ! i = v"
  shows "mset (running_tasks (p\<lparr>tp_workers := (tp_workers p)[i := w]\<rparr>)) + mset (running_task v)
    = mset (running_tasks p) + mset (running_task w)"
  using concat_map_update [OF assms(1), of running_task w] assms(2) by (simp add: running_tasks_def)

lemma running_task_wake [simp]: "running_task (wake w) = running_task w"
  by (cases w) (simp_all add: wake_def)

definition accounted :: "'t pool_system \<Rightarrow> bool" where
  "accounted s \<longleftrightarrow> ps_accepted s = ps_started s @ tp_tasks (ps_pool s)
     \<and> mset (ps_started s) = mset (ps_finished s) + mset (running_tasks (ps_pool s))"

lemma accounted_step:
  assumes "pool_step s s'" "accounted s"
  shows "accounted s'"
  using assms
proof (induction rule: pool_step.induct)
  case (check s i)
  then show ?case
    using running_tasks_update [of i "ps_pool s" Idle Returned] running_tasks_update [of i "ps_pool s" Idle Blocked]
      running_tasks_update [of i "ps_pool s" Idle "Running (hd (tp_tasks (ps_pool s)))"]
    by (cases "tp_tasks (ps_pool s)") (auto simp: accounted_def worker_check_def running_tasks_def)
next
  case (finish s i t)
  then show ?case
    using running_tasks_update [of i "ps_pool s" "Running t" Idle] by (auto simp: accounted_def worker_finish_def)
next
  case (notify_one s n i)
  then show ?case
    using running_tasks_update [of i "ps_pool s" Blocked Idle] by (auto simp: accounted_def notify_def wake_def)
next
  case (spurious s i)
  then show ?case
    using running_tasks_update [of i "ps_pool s" Blocked Idle] by (auto simp: accounted_def notify_def wake_def)
next
  case (stopped s)
  then show ?case by (simp add: accounted_def notify_all_def running_tasks_def comp_def)
qed (auto simp: accounted_def pool_defs running_tasks_def split: if_splits)

lemma accounted_reach: "pool_reach n s \<Longrightarrow> accounted s"
proof (induction rule: pool_reach.induct)
  case init
  show ?case by (simp add: accounted_def pool_init_def ThreadPool_new_def running_tasks_def)
qed (rule accounted_step)

subsection \<open>Wakeups\<close>

definition busy :: "'t worker \<Rightarrow> bool" where
  "busy w \<longleftrightarrow> w \<noteq> Blocked \<and> w \<noteq> Returned"

definition pool_inv :: "nat \<Rightarrow> 't pool_system \<Rightarrow> bool" where
  "pool_inv n s \<longleftrightarrow> length (tp_workers (ps_pool s)) = n
     \<and> (Returned \<in> set (tp_workers (ps_pool s)) \<longrightarrow> tp_stop (ps_pool s) \<and> tp_tasks (ps_pool s) = [])
     \<and> (ps_notify_all s \<longrightarrow> tp_stop (ps_pool s))
     \<and> (tp_stop (ps_pool s) \<and> \<not> ps_notify_all s \<longrightarrow> Blocked \<notin> set (tp_workers (ps_pool s)))
     \<and> (tp_tasks (ps_pool s) \<noteq> [] \<and> 0 < n \<longrightarrow> 0 < ps_notify s \<or> ps_notify_all s \<or> (\<exists>w \<in> set (tp_workers (ps_pool s)). busy w))"

lemma set_update_cases: "i < length ws \<Longrightarrow> w \<in> set (ws[i := v]) \<Longrightarrow> w = v \<or> w \<in> set ws"
  by (meson insertE set_update_subset_insert subsetD)

text \<open>A worker that gets up, or goes on.\<close>

lemma pool_inv_busy:
  assumes inv: "pool_inv n s" and i: "i < length (tp_workers (ps_pool s))" and v: "busy v"
    and s': "tp_workers (ps_pool s') = (tp_workers (ps_pool s))[i := v]" "tp_stop (ps_pool s') = tp_stop (ps_pool s)"
      "ps_notify_all s' = ps_notify_all s" "tp_tasks (ps_pool s) = [] \<Longrightarrow> tp_tasks (ps_pool s') = []"
  shows "pool_inv n s'"
proof -
  have "\<exists>w \<in> set (tp_workers (ps_pool s')). busy w" using set_update_memI [OF i, of v] v s'(1) by auto
  moreover have "w \<in> set (tp_workers (ps_pool s))" if "w \<in> set (tp_workers (ps_pool s'))" "\<not> busy w" for w
    using that set_update_cases [OF i, of w v] v s'(1) by auto
  ultimately show ?thesis using inv s' by (auto simp: pool_inv_def busy_def)
qed

lemma pool_inv_step:
  assumes "pool_step s s'" "pool_inv n s"
  shows "pool_inv n s'"
  using assms
proof (induction rule: pool_step.induct)
  case (enqueue s t p)
  then show ?case by (auto simp: pool_inv_def Enqueue_def split: if_splits)
next
  case (notify_nobody s m)
  then have "\<exists>w \<in> set (tp_workers (ps_pool s)). busy w" if "tp_tasks (ps_pool s) \<noteq> []" "0 < n"
    using that by (cases "tp_workers (ps_pool s)") (auto simp: pool_inv_def busy_def)
  with notify_nobody show ?case by (auto simp: pool_inv_def)
next
  case (check s i)
  then have i: "i < length (tp_workers (ps_pool s))" by simp
  show ?case
  proof (cases "tp_tasks (ps_pool s)")
    case Nil
    with check i show ?thesis by (auto simp: pool_inv_def worker_check_def dest!: set_update_cases [OF i])
  next
    case (Cons t ts)
    show ?thesis
      by (rule pool_inv_busy [OF check(2) i, of "Running t"]) (simp_all add: worker_check_def Cons busy_def)
  qed
next
  case (finish s i t)
  show ?case by (rule pool_inv_busy [OF finish(2), of i Idle]) (use finish(1) in \<open>simp_all add: worker_finish_def busy_def\<close>)
next
  case (notify_one s m i)
  show ?case by (rule pool_inv_busy [OF notify_one(3), of i Idle]) (use notify_one(2) in \<open>simp_all add: notify_def wake_def busy_def\<close>)
next
  case (spurious s i)
  show ?case by (rule pool_inv_busy [OF spurious(2), of i Idle]) (use spurious(1) in \<open>simp_all add: notify_def wake_def busy_def\<close>)
next
  case (stop s)
  then show ?case by (auto simp: pool_inv_def ThreadPool_stop_def)
next
  case (stopped s)
  then have "\<exists>w \<in> set (tp_workers (ps_pool s)). wake w \<noteq> Returned" if "tp_tasks (ps_pool s) \<noteq> []" "0 < n"
    using that by (cases "tp_workers (ps_pool s)") (auto simp: pool_inv_def wake_def)
  with stopped show ?case
    by (fastforce simp: pool_inv_def notify_all_def wake_def busy_def split: if_splits)
qed

lemma pool_inv_reach: "pool_reach n s \<Longrightarrow> pool_inv n s"
proof (induction rule: pool_reach.induct)
  case init
  show ?case by (simp add: pool_inv_def pool_init_def ThreadPool_new_def)
qed (rule pool_inv_step)

subsection \<open>Shutting down\<close>

text \<open>The work that is left once the workers know of the stop: a task is started and finished, a worker
  returns, a notification is sent.\<close>

primrec worker_work :: "'t worker \<Rightarrow> nat" where
  "worker_work Idle = 1"
| "worker_work Blocked = 2"
| "worker_work (Running t) = 2"
| "worker_work Returned = 0"

definition pool_work :: "'t pool_system \<Rightarrow> nat" where
  "pool_work s = ps_notify s + 2 * length (tp_tasks (ps_pool s)) + sum_list (map worker_work (tp_workers (ps_pool s)))"

lemma sum_list_update_worker:
  "i < length ws \<Longrightarrow> sum_list (map f (ws[i := w])) + f (ws ! i) = sum_list (map f ws) + (f w :: nat)"
proof (induction ws arbitrary: i)
  case (Cons a ws)
  show ?case
  proof (cases i)
    case (Suc j)
    with Cons.IH [of j] Cons.prems show ?thesis by simp
  qed simp
qed simp

definition draining :: "nat \<Rightarrow> 't pool_system \<Rightarrow> bool" where
  "draining n s \<longleftrightarrow> pool_inv n s \<and> accounted s \<and> tp_stop (ps_pool s) \<and> \<not> ps_notify_all s"

lemma draining_step:
  assumes "pool_step s s'" "draining n s"
  shows "draining n s' \<and> pool_work s' < pool_work s"
proof
  have inv: "pool_inv n s" "tp_stop (ps_pool s)" "\<not> ps_notify_all s" "Blocked \<notin> set (tp_workers (ps_pool s))"
    using assms(2) by (auto simp: draining_def pool_inv_def)
  have "tp_stop (ps_pool s') \<and> \<not> ps_notify_all s'"
    using assms(1) inv(2,3) by (induction rule: pool_step.induct) (auto simp: pool_defs split: list.splits if_splits)
  then show "draining n s'"
    using pool_inv_step [OF assms(1)] accounted_step [OF assms(1)] assms(2) by (simp add: draining_def)
  show "pool_work s' < pool_work s"
    using assms(1) inv
  proof (induction rule: pool_step.induct)
    case (check s i)
    then show ?case
      using sum_list_update_worker [of i "tp_workers (ps_pool s)" worker_work Returned]
        sum_list_update_worker [of i "tp_workers (ps_pool s)" worker_work "Running (hd (tp_tasks (ps_pool s)))"]
      by (cases "tp_tasks (ps_pool s)") (auto simp: pool_work_def worker_check_def simp del: map_update)
  next
    case (finish s i t)
    then show ?case
      using sum_list_update_worker [of i "tp_workers (ps_pool s)" worker_work Idle]
      by (simp add: pool_work_def worker_finish_def del: map_update)
  qed (auto simp: pool_work_def Enqueue_def in_set_conv_nth split: if_splits)
qed

lemma draining_steps: "(pool_step ^^ j) s s' \<Longrightarrow> draining n s \<Longrightarrow> draining n s' \<and> j + pool_work s' \<le> pool_work s"
proof (induction j arbitrary: s')
  case (Suc j)
  then obtain s1 where "(pool_step ^^ j) s s1" "pool_step s1 s'" by auto
  with Suc.IH [of s1] Suc.prems(2) draining_step [of s1 s' n] show ?case by auto
qed simp

lemma draining_end:
  assumes "draining n s" "0 < n" "\<nexists>s'. pool_step s s'"
  shows "ThreadPool_joined (ps_pool s) \<and> tp_tasks (ps_pool s) = [] \<and> mset (ps_finished s) = mset (ps_accepted s)"
proof -
  let ?ws = "tp_workers (ps_pool s)"
  have all: "w = Returned" if w: "w \<in> set ?ws" for w
  proof -
    obtain i where i: "i < length ?ws" "?ws ! i = w" using w by (auto simp: in_set_conv_nth)
    have "w \<noteq> Idle" using i assms(3) pool_step.check [of i s] by auto
    moreover have "w \<noteq> Running t" for t using i assms(3) pool_step.finish [of i s t] by auto
    moreover have "w \<noteq> Blocked" using w assms(1) by (auto simp: draining_def pool_inv_def)
    ultimately show ?thesis by (cases w) auto
  qed
  have "?ws \<noteq> []" using assms(1,2) by (auto simp: draining_def pool_inv_def)
  then have "Returned \<in> set ?ws" using all by (metis list.set_sel(1))
  then have "tp_tasks (ps_pool s) = []" using assms(1) by (auto simp: draining_def pool_inv_def)
  moreover have "running_tasks (ps_pool s) = []" using all by (fastforce simp: running_tasks_def)
  ultimately show ?thesis
    using all assms(1) by (auto simp: ThreadPool_joined_def list_all_iff draining_def accounted_def)
qed

subsection \<open>Properties\<close>

text \<open>C17. Every accepted task is run once, in order: in every interleaving of clients, workers and the
  destructor, the tasks started so far followed by the tasks in the queue are exactly the tasks accepted, in
  the order of their acceptance, and what was started is finished or is being run by one worker.\<close>

theorem ThreadPool_each_task_once:
  assumes "pool_reach n s"
  shows "ps_accepted s = ps_started s @ tp_tasks (ps_pool s)
    \<and> mset (ps_started s) = mset (ps_finished s) + mset (running_tasks (ps_pool s))"
  using accounted_reach [OF assms] by (simp add: accounted_def)

theorem ThreadPool_each_task_once_witness:
  "\<exists>s :: nat pool_system. pool_reach 1 s \<and> ps_accepted s = [7] \<and> ps_started s = [7] \<and> running_tasks (ps_pool s) = [7]
     \<and> mset [7] = mset (ps_finished s) + mset (running_tasks (ps_pool s))"
proof -
  let ?s0 = "pool_init 1 :: nat pool_system"
  let ?p = "(ThreadPool_new 1)\<lparr>tp_tasks := [7]\<rparr>"
  let ?s1 = "?s0\<lparr>ps_pool := ?p, ps_notify := 1, ps_accepted := [7]\<rparr>"
  let ?s2 = "?s1\<lparr>ps_pool := worker_check ?p 0, ps_started := [7]\<rparr>"
  have "pool_step ?s0 ?s1"
    using pool_step.enqueue [of ?s0 7 ?p] by (simp add: pool_init_def Enqueue_def ThreadPool_new_def)
  moreover have "pool_step ?s1 ?s2"
    using pool_step.check [of 0 ?s1] by (simp add: pool_init_def ThreadPool_new_def)
  ultimately have r: "pool_reach 1 ?s2" by (meson pool_reach.intros)
  from ThreadPool_each_task_once [OF this] r show ?thesis
    by (intro exI [of _ ?s2]) (simp add: running_tasks_def worker_check_def ThreadPool_new_def)
qed

text \<open>C16. No wakeup is lost: whenever a task is in the queue of a pool that has workers, a notification is
  still on its way, or some worker is awake and will look at the queue again. The workers never all sleep, or
  all return, in front of a task, although the notification is sent after the lock was released.\<close>

theorem ThreadPool_no_lost_wakeup:
  assumes "pool_reach n s" and "0 < n" and "tp_tasks (ps_pool s) \<noteq> []"
  shows "0 < ps_notify s \<or> ps_notify_all s \<or> (\<exists>w \<in> set (tp_workers (ps_pool s)). w = Idle \<or> (\<exists>t. w = Running t))"
proof -
  have "w = Idle \<or> (\<exists>t. w = Running t)" if "busy w" for w :: "'a worker" using that by (cases w) (simp_all add: busy_def)
  with pool_inv_reach [OF assms(1)] assms(2,3) show ?thesis by (fastforce simp: pool_inv_def)
qed

theorem ThreadPool_no_lost_wakeup_witness:
  "\<exists>s :: nat pool_system. tp_tasks (ps_pool s) = [7] \<and>
     (0 < ps_notify s \<or> ps_notify_all s \<or> (\<exists>w \<in> set (tp_workers (ps_pool s)). w = Idle \<or> (\<exists>t. w = Running t)))"
proof -
  let ?s0 = "pool_init 1 :: nat pool_system"
  let ?p = "(ThreadPool_new 1)\<lparr>tp_tasks := [7]\<rparr>"
  let ?s1 = "?s0\<lparr>ps_pool := ?p, ps_notify := 1, ps_accepted := [7]\<rparr>"
  have "pool_step ?s0 ?s1"
    using pool_step.enqueue [of ?s0 7 ?p] by (simp add: pool_init_def Enqueue_def ThreadPool_new_def)
  then have "pool_reach 1 ?s1" by (meson pool_reach.intros)
  from ThreadPool_no_lost_wakeup [OF this] show ?thesis by (intro exI [of _ ?s1]) simp
qed

text \<open>C15. The destructor of a pool with at least one worker returns and drops no task: once its stop was
  announced, every run of the pool ends
  after a bounded number of steps, and it cannot end before all workers have returned, the queue is empty and
  every accepted task is finished. Insertions from then on throw and change nothing.\<close>

theorem ThreadPool_shutdown_drains:
  assumes "pool_reach n s" and "0 < n" and "tp_stop (ps_pool s)" and "\<not> ps_notify_all s"
  shows "((pool_step ^^ j) s s' \<longrightarrow> j \<le> pool_work s)
    \<and> (pool_step\<^sup>*\<^sup>* s s' \<and> (\<nexists>s''. pool_step s' s'') \<longrightarrow>
        ThreadPool_joined (ps_pool s') \<and> tp_tasks (ps_pool s') = [] \<and> mset (ps_finished s') = mset (ps_accepted s'))
    \<and> Enqueue (ps_pool s) t = Inl ''Enqueue on stopped ThreadPool''"
proof -
  have d: "draining n s" using pool_inv_reach [OF assms(1)] accounted_reach [OF assms(1)] assms(3,4) by (simp add: draining_def)
  then have "(pool_step ^^ j) s s' \<Longrightarrow> j \<le> pool_work s" using draining_steps by fastforce
  moreover have "draining n s'" if "pool_step\<^sup>*\<^sup>* s s'" using that d draining_steps by (metis rtranclp_imp_relpowp)
  ultimately show ?thesis using draining_end [of n s'] assms(2,3) by (auto simp: Enqueue_def)
qed

theorem ThreadPool_shutdown_drains_witness:
  "\<exists>s s' :: nat pool_system. tp_stop (ps_pool s) \<and> tp_tasks (ps_pool s) = [7] \<and> pool_step\<^sup>*\<^sup>* s s'
     \<and> ThreadPool_joined (ps_pool s') \<and> tp_tasks (ps_pool s') = [] \<and> mset (ps_finished s') = {#7#}
     \<and> Enqueue (ps_pool s) 8 = Inl ''Enqueue on stopped ThreadPool''"
proof -
  let ?st = "\<lambda>ws ts stop n na st fin. \<lparr>ps_pool = \<lparr>tp_workers = ws, tp_tasks = ts, tp_stop = stop\<rparr>, ps_notify = n,
    ps_notify_all = na, ps_accepted = [7], ps_started = st, ps_finished = fin\<rparr> :: nat pool_system"
  let ?s = "?st [Idle] [7] True 0 False [] []" and ?s' = "?st [Returned] [] True 0 False [7] [7]"
  have "pool_step (pool_init 1) (?st [Idle] [7] False 1 False [] [])"
    using pool_step.enqueue [of "pool_init 1" 7] by (simp add: pool_init_def Enqueue_def ThreadPool_new_def)
  moreover have "pool_step (?st [Idle] [7] False 1 False [] []) (?st [Idle] [7] False 0 False [] [])"
    using pool_step.notify_nobody [of "?st [Idle] [7] False 1 False [] []" 0] by simp
  moreover have "pool_step (?st [Idle] [7] False 0 False [] []) (?st [Idle] [7] True 0 True [] [])"
    using pool_step.stop [of "?st [Idle] [7] False 0 False [] []"] by (simp add: ThreadPool_stop_def)
  moreover have "pool_step (?st [Idle] [7] True 0 True [] []) ?s"
    using pool_step.stopped [of "?st [Idle] [7] True 0 True [] []"] by (simp add: notify_all_def wake_def)
  ultimately have reach: "pool_reach 1 ?s" by (meson pool_reach.intros)
  have "pool_step ?s (?st [Running 7] [] True 0 False [7] [])"
    using pool_step.check [of 0 ?s] by (simp add: worker_check_def)
  moreover have "pool_step (?st [Running 7] [] True 0 False [7] []) (?st [Idle] [] True 0 False [7] [7])"
    using pool_step.finish [of 0 "?st [Running 7] [] True 0 False [7] []" 7] by (simp add: worker_finish_def)
  moreover have "pool_step (?st [Idle] [] True 0 False [7] [7]) ?s'"
    using pool_step.check [of 0 "?st [Idle] [] True 0 False [7] [7]"] by (simp add: worker_check_def)
  ultimately have run: "pool_step\<^sup>*\<^sup>* ?s ?s'" by (meson converse_rtranclp_into_rtranclp rtranclp.rtrancl_refl)
  have "\<nexists>s''. pool_step ?s' s''" by (auto elim: pool_step.cases simp: Enqueue_def)
  with ThreadPool_shutdown_drains [OF reach, of 0 ?s' 8] run show ?thesis
    by (intro exI [of _ ?s] exI [of _ ?s']) simp
qed

end
