(* ===== verification/Utils.thy ===== *)
theory Utils
  imports Decimal Crc32
begin

text \<open>The helpers of \<^verbatim>\<open>src/common/utils\<close>: the FNV-1a hash on 64-bit words, splitting and trimming of
  strings, and the two generators of identifiers, whose random draws are arguments.\<close>

unbundle bit_operations_syntax

subsection \<open>Hashing\<close>

definition kFnvPrime :: u64 where "kFnvPrime = 1099511628211"

definition kFnvOffsetBasis :: u64 where "kFnvOffsetBasis = 14695981039346656037"

definition fnv_step :: "u64 \<Rightarrow> byte \<Rightarrow> u64" where
  "fnv_step h b = (h XOR ucast b) * kFnvPrime"

definition FNV1a64_bytes :: "bytes \<Rightarrow> u64" where
  "FNV1a64_bytes data = foldl fnv_step kFnvOffsetBasis data"

definition FNV1a64 :: "string \<Rightarrow> u64" where
  "FNV1a64 data = FNV1a64_bytes (string_bytes data)"

text \<open>The prime is odd, so that a step can be undone.\<close>

lemma fnv_step_inject: "x * kFnvPrime = y * kFnvPrime \<longleftrightarrow> x = y"
proof
  assume eq: "x * kFnvPrime = y * kFnvPrime"
  have "kFnvPrime * 14886173955864302971 = 1" by (simp add: kFnvPrime_def)
  then have "z * kFnvPrime * 14886173955864302971 = z" for z by (simp add: mult.assoc)
  with eq show "x = y" by metis
qed simp

lemma foldl_fnv_inject: "foldl fnv_step g bs = foldl fnv_step h bs \<longleftrightarrow> g = h"
  by (induction bs arbitrary: g h) (simp_all add: fnv_step_def fnv_step_inject xor_right_cancel)

text \<open>Two inputs that differ in one byte have different hashes.\<close>

lemma FNV1a64_single_byte: "FNV1a64_bytes (pre @ a # post) = FNV1a64_bytes (pre @ b # post) \<longleftrightarrow> a = b"
  by (simp add: FNV1a64_bytes_def foldl_fnv_inject fnv_step_def fnv_step_inject xor_left_cancel ucast_byte_inject)

subsection \<open>Splitting\<close>

text \<open>\<^verbatim>\<open>std::getline\<close> on what is left of the stream: the token and the rest, nothing at the end of the stream.\<close>

definition getline :: "string \<Rightarrow> char \<Rightarrow> (string \<times> string) option" where
  "getline s delimiter =
     (if s = [] then None
      else Some (takeWhile (\<lambda>c. c \<noteq> delimiter) s, drop 1 (dropWhile (\<lambda>c. c \<noteq> delimiter) s)))"

lemma getline_shorter:
  assumes "getline s d = Some (token, rest)"
  shows "length rest < length s"
proof -
  have "s \<noteq> []" "rest = drop 1 (dropWhile (\<lambda>c. c \<noteq> d) s)" using assms by (auto simp: getline_def split: if_splits)
  moreover have "length (dropWhile (\<lambda>c. c \<noteq> d) s) \<le> length s" by (rule length_dropWhile_le)
  ultimately show ?thesis by (cases "dropWhile (\<lambda>c. c \<noteq> d) s") auto
qed

function Split_loop :: "string \<Rightarrow> char \<Rightarrow> string list \<Rightarrow> string list" where
  "Split_loop s delimiter tokens =
     (case getline s delimiter of
        None \<Rightarrow> tokens
      | Some (token, rest) \<Rightarrow> Split_loop rest delimiter (tokens @ [token]))"
  by auto

termination
  by (relation "measure (\<lambda>(s, _, _). length s)") (auto dest: getline_shorter)

definition Split :: "string \<Rightarrow> char \<Rightarrow> string list" where
  "Split str delimiter = Split_loop str delimiter []"

text \<open>The inverse: tokens with separators between them.\<close>

fun join_with :: "char \<Rightarrow> string list \<Rightarrow> string" where
  "join_with d [] = []"
| "join_with d [t] = t"
| "join_with d (t # u # ts) = t @ d # join_with d (u # ts)"

declare Split_loop.simps [simp del]

lemma Split_loop_append: "Split_loop s d (ts @ us) = ts @ Split_loop s d us"
proof (induction s d us arbitrary: ts rule: Split_loop.induct)
  case (1 s d us)
  then show ?case
    by (simp add: Split_loop.simps [of s d "ts @ us"] Split_loop.simps [of s d us] split: option.split)
qed

lemma Split_rec:
  "Split s d = (case getline s d of None \<Rightarrow> [] | Some (token, rest) \<Rightarrow> token # Split rest d)"
  using Split_loop_append [of _ d "[_]" "[]"] by (simp add: Split_def Split_loop.simps [of s d "[]"] split: option.split)

lemma Split_Nil [simp]: "Split [] d = []"
  by (simp add: Split_rec [of "[]"] getline_def)

lemma Split_last: "d \<notin> set t \<Longrightarrow> t \<noteq> [] \<Longrightarrow> Split t d = [t]"
proof -
  assume "d \<notin> set t" "t \<noteq> []"
  then have "\<forall>c \<in> set t. c \<noteq> d" by auto
  then have "getline t d = Some (t, [])"
    using \<open>t \<noteq> []\<close> by (simp add: getline_def takeWhile_eq_all_conv [THEN iffD2] dropWhile_eq_Nil_conv [THEN iffD2])
  then show ?thesis by (simp add: Split_rec [of t])
qed

lemma Split_token: "d \<notin> set t \<Longrightarrow> Split (t @ d # r) d = t # Split r d"
proof -
  assume "d \<notin> set t"
  then have "\<forall>c \<in> set t. c \<noteq> d" by auto
  then have "takeWhile (\<lambda>c. c \<noteq> d) (t @ d # r) = t" "dropWhile (\<lambda>c. c \<noteq> d) (t @ d # r) = d # r"
    by (simp_all add: takeWhile_append2 dropWhile_append2)
  then have "getline (t @ d # r) d = Some (t, r)" by (simp add: getline_def)
  then show ?thesis by (simp add: Split_rec [of "t @ d # r"])
qed

lemma Split_Nil_iff: "Split s d = [] \<longleftrightarrow> s = []"
  by (simp add: Split_rec [of s] getline_def)

lemma join_with_Cons: "ts \<noteq> [] \<Longrightarrow> join_with d (t # ts) = t @ d # join_with d ts"
  by (cases ts) simp_all

subsection \<open>Trimming\<close>

text \<open>\<^verbatim>\<open>std::isspace\<close> in the C locale.\<close>

definition isspace :: "char \<Rightarrow> bool" where
  "isspace c \<longleftrightarrow> c = CHR '' '' \<or> 9 \<le> (of_char c :: nat) \<and> (of_char c :: nat) \<le> 13"

definition Trim :: "string \<Rightarrow> string" where
  "Trim str =
     (let start = length (takeWhile isspace str);
          finish = length str - length (takeWhile isspace (rev str))
      in if start < finish then take (finish - start) (drop start str) else [])"

lemma Trim_spec: "Trim str = rev (dropWhile isspace (rev (dropWhile isspace str)))"
proof -
  let ?a = "takeWhile isspace str" and ?b = "dropWhile isspace str"
  have s: "str = ?a @ ?b" by simp
  show ?thesis
  proof (cases "?b = []")
    case True
    then have "\<forall>c \<in> set str. isspace c" by (simp add: dropWhile_eq_Nil_conv)
    then have "length (takeWhile isspace (rev str)) = length str" by (simp add: takeWhile_eq_all_conv [THEN iffD2])
    then show ?thesis by (simp add: Trim_def True Let_def)
  next
    case False
    then have hd: "\<not> isspace (hd ?b)" by (rule hd_dropWhile)
    have tw: "takeWhile isspace (rev str) = takeWhile isspace (rev ?b)"
    proof -
      have "rev str = rev ?b @ rev ?a" by (metis rev_append takeWhile_dropWhile_id)
      moreover have "\<exists>c \<in> set (rev ?b). \<not> isspace c" using False hd by (metis list.set_sel(1) set_rev)
      ultimately show ?thesis by (metis takeWhile_append1)
    qed
    have lt: "length (takeWhile isspace (rev ?b)) < length ?b"
    proof -
      have "dropWhile isspace (rev ?b) \<noteq> []" using False hd by (metis dropWhile_eq_Nil_conv list.set_sel(1) set_rev)
      then show ?thesis by (metis append_Nil2 le_neq_implies_less length_rev length_takeWhile_le takeWhile_dropWhile_id
            append_eq_conv_conj drop_all order_refl)
    qed
    have dr: "drop (length ?a) str = ?b" using s by (metis append_eq_conv_conj)
    have len: "length str = length ?a + length ?b" by (metis length_append takeWhile_dropWhile_id)
    have tk: "take (length ?b - length (takeWhile isspace (rev ?b))) ?b = rev (dropWhile isspace (rev ?b))"
      by (metis dropWhile_eq_drop length_rev rev_drop rev_rev_ident)
    have "length ?a < length str - length (takeWhile isspace (rev str))"
      "length str - length (takeWhile isspace (rev str)) - length ?a = length ?b - length (takeWhile isspace (rev ?b))"
      using tw lt len by simp_all
    then show ?thesis unfolding Trim_def Let_def by (simp only: if_True dr tk)
  qed
qed

subsection \<open>Identifiers\<close>

definition hex_digit :: "nat \<Rightarrow> char" where
  "hex_digit d = char_of (if d < 10 then 48 + d else 87 + d)"

text \<open>\<^verbatim>\<open>std::hex <<\<close> of an unsigned number.\<close>

fun to_string_hex :: "nat \<Rightarrow> string" where
  "to_string_hex n = (if n < 16 then [hex_digit n] else to_string_hex (n div 16) @ [hex_digit (n mod 16)])"

declare to_string_hex.simps [simp del]



definition UUID_ShortID :: "u32 \<Rightarrow> string" where
  "UUID_ShortID draw = pad_left 8 (CHR ''0'') (to_string_hex (unat draw))"


definition is_hex :: "char \<Rightarrow> bool" where
  "is_hex c \<longleftrightarrow> c \<in> set ''0123456789abcdef''"

lemma is_hex_hex_digit: "d < 16 \<Longrightarrow> is_hex (hex_digit d)"
proof -
  have "list_all (\<lambda>d. is_hex (hex_digit d)) [0 ..< 16]" by code_simp
  moreover assume "d < 16"
  then have "d \<in> set [0 ..< 16]" unfolding set_upt by simp
  ultimately show ?thesis unfolding list_all_iff by blast
qed


lemma length_to_string_hex: "n < 16 ^ Suc k \<Longrightarrow> 1 \<le> length (to_string_hex n) \<and> length (to_string_hex n) \<le> Suc k"
proof (induction k arbitrary: n)
  case 0
  then show ?case by (simp add: to_string_hex.simps [of n])
next
  case (Suc k)
  then have "n div 16 < 16 ^ Suc k" by (simp add: div_less_iff_less_mult)
  from Suc.IH [OF this] show ?case by (simp add: to_string_hex.simps [of n])
qed

lemma set_to_string_hex: "list_all is_hex (to_string_hex n)"
  by (induction n rule: to_string_hex.induct) (simp add: to_string_hex.simps [of n for n] is_hex_hex_digit)

subsection \<open>Properties\<close>

text \<open>Splitting loses nothing but a trailing separator: the tokens have no separator in them, and joined
  with separators they are the string, up to one separator at its end.\<close>

theorem Split_join:
  "list_all (\<lambda>token. d \<notin> set token) (Split str d)
   \<and> str = (if str \<noteq> [] \<and> last str = d then join_with d (Split str d) @ [d] else join_with d (Split str d))"
proof (induction str rule: length_induct)
  case (1 str)
  show ?case
  proof (cases "d \<in> set str")
    case True
    then obtain t r where str: "str = t @ d # r" and t: "d \<notin> set t" by (metis split_list_first)
    then have "list_all (\<lambda>token. d \<notin> set token) (Split r d)"
      "r = (if r \<noteq> [] \<and> last r = d then join_with d (Split r d) @ [d] else join_with d (Split r d))" using 1 by simp_all
    with t show ?thesis
      by (cases "r = []") (auto simp: str Split_token join_with_Cons Split_Nil_iff split: if_splits)
  next
    case False
    then show ?thesis by (cases "str = []") (auto simp: Split_last)
  qed
qed



text \<open>Trimming removes white space at the ends and nothing else.\<close>

lemma Trim_infix: "\<exists>pre post. str = pre @ Trim str @ post \<and> list_all isspace (pre @ post)
  \<and> (Trim str = [] \<or> \<not> isspace (hd (Trim str)) \<and> \<not> isspace (last (Trim str)))"
proof -
  let ?b = "dropWhile isspace str"
  let ?post = "rev (takeWhile isspace (rev ?b))"
  have "?b = Trim str @ ?post" by (metis Trim_spec rev_append rev_rev_ident takeWhile_dropWhile_id)
  then have "str = takeWhile isspace str @ Trim str @ ?post" by (metis takeWhile_dropWhile_id)
  moreover have "list_all isspace (takeWhile isspace str @ ?post)" by (auto simp: list_all_iff dest: set_takeWhileD)
  moreover have "\<not> isspace (hd (Trim str))" if "Trim str \<noteq> []"
  proof -
    have "?b \<noteq> []" using that by (metis Trim_spec dropWhile.simps(1) rev.simps(1))
    then have "\<not> isspace (hd ?b)" by (rule hd_dropWhile)
    with that \<open>?b = Trim str @ ?post\<close> show ?thesis by (metis hd_append2)
  qed
  moreover have "\<not> isspace (last (Trim str))" if "Trim str \<noteq> []"
    using that hd_dropWhile [of isspace "rev ?b"] by (simp add: Trim_spec last_rev)
  ultimately show ?thesis by blast
qed

text \<open>The short form has always eight hexadecimal digits.\<close>

lemma UUID_ShortID_format: "length (UUID_ShortID draw) = 8 \<and> list_all is_hex (UUID_ShortID draw)"
proof -
  have "unat draw < 16 ^ Suc 7" using unsigned_less [of draw] by simp
  moreover have "is_hex (CHR ''0'')" by (simp add: is_hex_def)
  ultimately show ?thesis
    using length_to_string_hex [of "unat draw" 7] set_to_string_hex [of "unat draw"]
    by (auto simp: UUID_ShortID_def pad_left_def list_all_iff)
qed

end
