(* ===== verification/Config.thy ===== *)
theory Config
  imports Status
begin

text \<open>The configuration of \<^verbatim>\<open>src/common/config\<close>: the structures and the loader. The YAML library is an
  argument, a record of the operations that the loader calls. Numbers and the role have no initial value in
  the structures, so a field of theirs is an option, \<^const>\<open>None\<close> while it is indeterminate.\<close>

subsection \<open>Structures\<close>

datatype NodeRole = kRouter | kShard | kMetadata | kStandalone

record NodeConfig =
  nc_node_id :: string
  nc_listen_address :: string
  nc_role :: "NodeRole option"

record common_StorageConfig =
  sc_data_dir :: string
  sc_memtable_size_mb :: "u64 option"
  sc_block_cache_mb :: "u64 option"

record RaftConfig =
  rc_election_timeout_ms :: "int option"
  rc_heartbeat_interval_ms :: "int option"
  rc_snapshot_threshold :: "int option"

record ClusterConfig =
  cl_peer_addresses :: "string list"

record ServerConfig =
  cf_node :: NodeConfig
  cf_storage :: common_StorageConfig
  cf_raft :: RaftConfig
  cf_cluster :: ClusterConfig

definition ServerConfig_new :: ServerConfig where
  "ServerConfig_new = \<lparr>cf_node = \<lparr>nc_node_id = [], nc_listen_address = [], nc_role = None\<rparr>,
     cf_storage = \<lparr>sc_data_dir = [], sc_memtable_size_mb = None, sc_block_cache_mb = None\<rparr>,
     cf_raft = \<lparr>rc_election_timeout_ms = None, rc_heartbeat_interval_ms = None, rc_snapshot_threshold = None\<rparr>,
     cf_cluster = \<lparr>cl_peer_addresses = []\<rparr>\<rparr>"

subsection \<open>Loading\<close>

text \<open>The operations of the library; the left values are the messages of its exceptions. The conversions with a
  default take it as their second argument.\<close>

record 'n yaml =
  yaml_LoadFile :: "string \<Rightarrow> string + 'n"
  yaml_key :: "'n \<Rightarrow> string \<Rightarrow> string + 'n"
  yaml_defined :: "'n \<Rightarrow> bool"
  yaml_string :: "'n \<Rightarrow> string \<Rightarrow> string + string"
  yaml_size :: "'n \<Rightarrow> u64 \<Rightarrow> string + u64"
  yaml_int :: "'n \<Rightarrow> int \<Rightarrow> string + int"
  yaml_items :: "'n \<Rightarrow> 'n list"
  yaml_as_string :: "'n \<Rightarrow> string + string"

primrec and_then :: "'e + 'a \<Rightarrow> ('a \<Rightarrow> 'e + 'b) \<Rightarrow> 'e + 'b" where
  "and_then (Inl e) f = Inl e"
| "and_then (Inr x) f = f x"

definition ParseRole :: "string \<Rightarrow> NodeRole" where
  "ParseRole role_str =
     (if role_str = ''router'' then kRouter
      else if role_str = ''shard'' then kShard
      else if role_str = ''metadata'' then kMetadata
      else kStandalone)"

text \<open>A field of a section, with its default.\<close>

definition yaml_field :: "'n yaml \<Rightarrow> ('n \<Rightarrow> 'a \<Rightarrow> string + 'a) \<Rightarrow> 'n \<Rightarrow> string \<Rightarrow> 'a \<Rightarrow> string + 'a" where
  "yaml_field y conv section name fallback = and_then (yaml_key y section name) (\<lambda>n. conv n fallback)"

definition parse_node :: "'n yaml \<Rightarrow> 'n \<Rightarrow> string + NodeConfig" where
  "parse_node y section =
     and_then (yaml_field y (yaml_string y) section ''node_id'' ''default-node'') (\<lambda>node_id.
     and_then (yaml_field y (yaml_string y) section ''listen_address'' ''0.0.0.0:50051'') (\<lambda>listen_address.
     and_then (yaml_field y (yaml_string y) section ''role'' ''standalone'') (\<lambda>role.
     Inr \<lparr>nc_node_id = node_id, nc_listen_address = listen_address, nc_role = Some (ParseRole role)\<rparr>)))"

definition parse_storage :: "'n yaml \<Rightarrow> 'n \<Rightarrow> common_StorageConfig \<Rightarrow> string + common_StorageConfig" where
  "parse_storage y section config =
     (if \<not> yaml_defined y section then Inr config
      else and_then (yaml_field y (yaml_string y) section ''data_dir'' ''/tmp/vectordb'') (\<lambda>data_dir.
           and_then (yaml_field y (yaml_size y) section ''memtable_size_mb'' 64) (\<lambda>memtable_size_mb.
           and_then (yaml_field y (yaml_size y) section ''block_cache_mb'' 256) (\<lambda>block_cache_mb.
           Inr \<lparr>sc_data_dir = data_dir, sc_memtable_size_mb = Some memtable_size_mb, sc_block_cache_mb = Some block_cache_mb\<rparr>))))"

definition parse_raft :: "'n yaml \<Rightarrow> 'n \<Rightarrow> RaftConfig \<Rightarrow> string + RaftConfig" where
  "parse_raft y section config =
     (if \<not> yaml_defined y section then Inr config
      else and_then (yaml_field y (yaml_int y) section ''election_timeout_ms'' 300) (\<lambda>election_timeout_ms.
           and_then (yaml_field y (yaml_int y) section ''heartbeat_interval_ms'' 50) (\<lambda>heartbeat_interval_ms.
           and_then (yaml_field y (yaml_int y) section ''snapshot_threshold'' 10000) (\<lambda>snapshot_threshold.
           Inr \<lparr>rc_election_timeout_ms = Some election_timeout_ms, rc_heartbeat_interval_ms = Some heartbeat_interval_ms,
                rc_snapshot_threshold = Some snapshot_threshold\<rparr>))))"

fun parse_peers :: "'n yaml \<Rightarrow> 'n list \<Rightarrow> string list \<Rightarrow> string + string list" where
  "parse_peers y [] peers = Inr peers"
| "parse_peers y (peer # rest) peers = and_then (yaml_as_string y peer) (\<lambda>address. parse_peers y rest (peers @ [address]))"

definition parse_cluster :: "'n yaml \<Rightarrow> 'n \<Rightarrow> ClusterConfig \<Rightarrow> string + ClusterConfig" where
  "parse_cluster y section config =
     (if \<not> yaml_defined y section then Inr config
      else and_then (yaml_key y section ''peers'') (\<lambda>peers.
           if \<not> yaml_defined y peers then Inr config
           else and_then (parse_peers y (yaml_items y peers) (cl_peer_addresses config)) (\<lambda>addresses.
                Inr \<lparr>cl_peer_addresses = addresses\<rparr>)))"

text \<open>The body of the try block; an exception is a left value.\<close>

definition parse_config :: "'n yaml \<Rightarrow> 'n \<Rightarrow> string + ServerConfig ErrorOr" where
  "parse_config y yaml =
     and_then (yaml_key y yaml ''node'') (\<lambda>node_section.
     if \<not> yaml_defined y node_section
     then Inr (Error (mk_Status kInvalidArgument ''Missing required 'node' section in config''))
     else and_then (parse_node y node_section) (\<lambda>node.
          and_then (yaml_key y yaml ''storage'') (\<lambda>storage_section.
          and_then (parse_storage y storage_section (cf_storage ServerConfig_new)) (\<lambda>storage.
          and_then (yaml_key y yaml ''raft'') (\<lambda>raft_section.
          and_then (parse_raft y raft_section (cf_raft ServerConfig_new)) (\<lambda>raft.
          and_then (yaml_key y yaml ''cluster'') (\<lambda>cluster_section.
          and_then (parse_cluster y cluster_section (cf_cluster ServerConfig_new)) (\<lambda>cluster.
          Inr (Value \<lparr>cf_node = node, cf_storage = storage, cf_raft = raft, cf_cluster = cluster\<rparr>)))))))))"

definition LoadFromFile :: "'n yaml \<Rightarrow> (string \<Rightarrow> bool) \<Rightarrow> string \<Rightarrow> ServerConfig ErrorOr" where
  "LoadFromFile y exists file_path =
     (if \<not> exists file_path then Error (mk_Status kNotFound (''Config file not found: '' @ file_path))
      else case and_then (yaml_LoadFile y file_path) (parse_config y) of
             Inl what \<Rightarrow> Error (mk_Status kInvalidArgument (''Failed to parse YAML config: '' @ what))
           | Inr result \<Rightarrow> result)"

subsection \<open>Lemmas\<close>

lemma and_then_Inr: "and_then r f = Inr z \<longleftrightarrow> (\<exists>x. r = Inr x \<and> f x = Inr z)"
  by (cases r) simp_all

lemma ParseRole_total: "ParseRole s = kStandalone \<longleftrightarrow> s \<notin> {''router'', ''shard'', ''metadata''}"
  by (auto simp: ParseRole_def)

text \<open>A configuration that is returned has its node section complete.\<close>

lemma LoadFromFile_role:
  assumes "LoadFromFile y exists p = Value c"
  shows "nc_role (cf_node c) \<noteq> None"
  using assms
  by (auto simp: LoadFromFile_def parse_config_def parse_node_def and_then_Inr split: if_splits sum.splits)

text \<open>A file without a storage or a raft section is accepted, and the numbers of these sections are never set.\<close>

lemma LoadFromFile_missing_sections:
  assumes "LoadFromFile y exists p = Value c" "yaml_LoadFile y p = Inr root"
  shows "(\<forall>n. yaml_key y root ''storage'' = Inr n \<longrightarrow> \<not> yaml_defined y n \<longrightarrow>
           sc_memtable_size_mb (cf_storage c) = None \<and> sc_block_cache_mb (cf_storage c) = None)
    \<and> (\<forall>n. yaml_key y root ''raft'' = Inr n \<longrightarrow> \<not> yaml_defined y n \<longrightarrow> cf_raft c = cf_raft ServerConfig_new)"
  using assms
  by (auto simp: LoadFromFile_def parse_config_def parse_storage_def parse_raft_def and_then_Inr ServerConfig_new_def
      split: if_splits sum.splits)

end
