(* ===== verification/Metrics.thy ===== *)
theory Metrics
  imports Prelude "HOL-Library.Monad_Syntax"
begin

text \<open>The metrics registry of \<^verbatim>\<open>src/common/metrics\<close>: the singleton with its caches of metric families. The
  objects of the metrics library are known by their identity. A registry is a number, new for each
  construction; a family belongs to the registry it was registered in and lives as long as that registry. The
  value \<^const>\<open>None\<close> of an operation stands for the use of a null pointer or of a destroyed object.\<close>

subsection \<open>State\<close>

type_synonym labels = "(string \<times> string) list"

text \<open>A family by its registry, name and help text; a metric by its family and labels.\<close>

record metric_family =
  fam_registry :: nat
  fam_name :: string
  fam_help :: string

type_synonym metric = "metric_family \<times> labels"

type_synonym families = "string \<rightharpoonup> metric_family"

record MetricsRegistry =
  mr_registry :: "nat option"
  mr_exposer :: "string option"
  mr_counter_families :: families
  mr_gauge_families :: families
  mr_histogram_families :: families
  mr_constructed :: nat

definition MetricsRegistry_start :: MetricsRegistry where
  "MetricsRegistry_start = \<lparr>mr_registry = None, mr_exposer = None, mr_counter_families = Map.empty,
     mr_gauge_families = Map.empty, mr_histogram_families = Map.empty, mr_constructed = 0\<rparr>"

subsection \<open>Operations\<close>

text \<open>\<open>serves\<close> tells on which addresses the library's server can be started; its constructor throws on the
  others. The result says whether the call returned.\<close>

definition Metrics_Initialize :: "(string \<Rightarrow> bool) \<Rightarrow> MetricsRegistry \<Rightarrow> string \<Rightarrow> MetricsRegistry \<times> bool" where
  "Metrics_Initialize serves s bind_address =
     (if mr_registry s = None
      then let s = s\<lparr>mr_registry := Some (mr_constructed s), mr_constructed := Suc (mr_constructed s)\<rparr>
           in if \<not> serves bind_address then (s, False) else (s\<lparr>mr_exposer := Some bind_address\<rparr>, True)
      else (s, True))"

definition Metrics_Shutdown :: "MetricsRegistry \<Rightarrow> MetricsRegistry" where
  "Metrics_Shutdown s = s\<lparr>mr_exposer := None, mr_registry := None\<rparr>"

text \<open>The part that the three operations share: the family from the cache, or registered in the registry that
  is there, and the call through its pointer.\<close>

definition find_family :: "MetricsRegistry \<Rightarrow> families \<Rightarrow> string \<Rightarrow> string \<Rightarrow> (families \<times> metric_family) option" where
  "find_family s fams name help =
     do { fams \<leftarrow> (case fams name of
                     Some _ \<Rightarrow> Some fams
                   | None \<Rightarrow> do { r \<leftarrow> mr_registry s;
                                  Some (fams(name \<mapsto> \<lparr>fam_registry = r, fam_name = name, fam_help = help\<rparr>)) });
          family \<leftarrow> fams name;
          if mr_registry s = Some (fam_registry family) then Some (fams, family) else None }"

definition AddCounter :: "MetricsRegistry \<Rightarrow> string \<Rightarrow> string \<Rightarrow> labels \<Rightarrow> (MetricsRegistry \<times> metric) option" where
  "AddCounter s name help labels =
     do { (fams, family) \<leftarrow> find_family s (mr_counter_families s) name help;
          Some (s\<lparr>mr_counter_families := fams\<rparr>, (family, labels)) }"

definition AddGauge :: "MetricsRegistry \<Rightarrow> string \<Rightarrow> string \<Rightarrow> labels \<Rightarrow> (MetricsRegistry \<times> metric) option" where
  "AddGauge s name help labels =
     do { (fams, family) \<leftarrow> find_family s (mr_gauge_families s) name help;
          Some (s\<lparr>mr_gauge_families := fams\<rparr>, (family, labels)) }"

text \<open>The bucket boundaries, 64-bit patterns, go to the metric when it is new.\<close>

definition AddHistogram ::
  "MetricsRegistry \<Rightarrow> string \<Rightarrow> string \<Rightarrow> labels \<Rightarrow> u64 list \<Rightarrow> (MetricsRegistry \<times> metric \<times> u64 list) option" where
  "AddHistogram s name help labels bucket_boundaries =
     do { (fams, family) \<leftarrow> find_family s (mr_histogram_families s) name help;
          Some (s\<lparr>mr_histogram_families := fams\<rparr>, (family, labels), bucket_boundaries) }"

subsection \<open>Lemmas\<close>

text \<open>While the registry lives, every cached family belongs to it.\<close>

definition families_live :: "MetricsRegistry \<Rightarrow> bool" where
  "families_live s \<longleftrightarrow> (\<forall>r. mr_registry s = Some r \<longrightarrow>
     (\<forall>fams \<in> {mr_counter_families s, mr_gauge_families s, mr_histogram_families s}. \<forall>f \<in> ran fams. fam_registry f = r))"

lemma find_family_live:
  assumes "mr_registry s = Some r" "\<forall>f \<in> ran fams. fam_registry f = r"
  shows "\<exists>fams' f. find_family s fams name help = Some (fams', f) \<and> fams' name = Some f \<and> fam_registry f = r
    \<and> (\<forall>g \<in> ran fams'. fam_registry g = r) \<and> (\<forall>g. fams name = Some g \<longrightarrow> f = g \<and> fams' = fams)"
  using assms by (cases "fams name") (auto simp: find_family_def ran_def)

lemma AddCounter_live:
  assumes "families_live s" "mr_registry s = Some r"
  shows "\<exists>s' f. AddCounter s name help ls = Some (s', (f, ls)) \<and> families_live s' \<and> mr_registry s' = Some r
    \<and> AddCounter s' name help' ls = Some (s', (f, ls))"
proof -
  have c: "\<forall>f \<in> ran (mr_counter_families s). fam_registry f = r" using assms by (auto simp: families_live_def)
  obtain fams f where f: "find_family s (mr_counter_families s) name help = Some (fams, f)" "fams name = Some f" "fam_registry f = r"
    "\<forall>g \<in> ran fams. fam_registry g = r" using find_family_live [OF assms(2) c] by blast
  let ?s = "s\<lparr>mr_counter_families := fams\<rparr>"
  have "families_live ?s" using assms f(4) by (auto simp: families_live_def)
  moreover have "AddCounter ?s name help' ls = Some (?s, (f, ls))" using assms(2) f(2,3) by (simp add: AddCounter_def find_family_def)
  ultimately show ?thesis using assms(2) f(1) by (auto simp: AddCounter_def)
qed

text \<open>Without a registry a new name is a null pointer.\<close>

lemma AddCounter_uninitialised: "AddCounter MetricsRegistry_start name help ls = None"
  by (simp add: AddCounter_def find_family_def MetricsRegistry_start_def)

text \<open>The caches outlive the registry: after a restart, a name that was used before leads to a family of the
  registry that is gone.\<close>

lemma AddCounter_after_restart:
  assumes "mr_registry s = None" "mr_counter_families s = Map.empty"
  shows "\<exists>s1 m. AddCounter (fst (Metrics_Initialize serves s a)) name help ls = Some (s1, m)
    \<and> AddCounter (fst (Metrics_Initialize serves' (Metrics_Shutdown s1) a')) name help ls = None"
  using assms by (simp add: AddCounter_def find_family_def Metrics_Initialize_def Metrics_Shutdown_def Let_def)

text \<open>A failed start leaves the registry behind: every later call returns at once without a server, until a
  shutdown.\<close>

lemma Metrics_Initialize_not_retried:
  assumes "mr_registry s = None" "mr_exposer s = None" "\<not> serves a" "Metrics_Initialize serves s a = (s1, ok)"
  shows "\<not> ok \<and> Metrics_Initialize serves' s1 a' = (s1, True) \<and> mr_exposer s1 = None"
  using assms by (auto simp: Metrics_Initialize_def Let_def)

end
