(* ===== verification/Logging.thy ===== *)
theory Logging
  imports Prelude
begin

text \<open>The logger of \<^verbatim>\<open>src/common/logging\<close>: two static variables and calls of the logging library. The library is
  foreign; the model records the calls that reach it, in order, and an argument \<open>throws\<close> says which call it
  answers with an exception, given the calls before it. An operation returns the state it leaves and whether it
  came to its end; the value \<^const>\<open>None\<close> stands for the use of a null pointer.\<close>

subsection \<open>State\<close>

datatype LogLevel = kTrace | kDebug | kInfo | kWarn | kError | kFatal

text \<open>The methods of the library's logger that the macros call.\<close>

datatype severity = Info | Warn | Err | Critical

datatype log_sink = Stdout_color_sink | Rotating_file_sink string nat nat

text \<open>A logger of the library is known by its number in the order of construction.\<close>

datatype spdlog_call =
    Init_thread_pool nat nat
  | Make_sink log_sink
  | Make_async_logger string "log_sink list"
  | Set_pattern nat string
  | Register_logger nat string
  | Set_default_logger nat
  | Set_level nat severity
  | Write_log nat severity string
  | Flush_logger nat
  | Spdlog_shutdown

fun makes_logger :: "spdlog_call \<Rightarrow> bool" where
  "makes_logger (Make_async_logger name sinks) = True"
| "makes_logger _ = False"

record Logger =
  lg_logger :: "nat option"
  lg_node_id :: string
  lg_calls :: "spdlog_call list"

definition Logger_start :: Logger where
  "Logger_start = \<lparr>lg_logger = None, lg_node_id = ''unknown'', lg_calls = []\<rparr>"

type_synonym library = "spdlog_call list \<Rightarrow> spdlog_call \<Rightarrow> bool"

definition call_library :: "library \<Rightarrow> spdlog_call \<Rightarrow> Logger \<Rightarrow> Logger \<times> bool" where
  "call_library throws c s = (if throws (lg_calls s) c then (s, False) else (s\<lparr>lg_calls := lg_calls s @ [c]\<rparr>, True))"

definition and_then :: "Logger \<times> bool \<Rightarrow> (Logger \<Rightarrow> Logger \<times> bool) \<Rightarrow> Logger \<times> bool" where
  "and_then r f = (case r of (s, ok) \<Rightarrow> if ok then f s else (s, False))"

subsection \<open>Operations\<close>

definition dquoted :: "string \<Rightarrow> string" where
  "dquoted s = CHR 0x22 # s @ [CHR 0x22]"

definition log_pattern :: "string \<Rightarrow> string" where
  "log_pattern node_id = ''{'' @ dquoted ''time'' @ '': '' @ dquoted ''%Y-%m-%dT%H:%M:%S.%f'' @ '', '' @ dquoted ''node_id'' @ '': ''
     @ dquoted node_id @ '', '' @ dquoted ''level'' @ '': '' @ dquoted ''%^%l%$'' @ '', '' @ dquoted ''data'' @ '': %v}''"

definition Logger_Initialize :: "library \<Rightarrow> Logger \<Rightarrow> string \<Rightarrow> string \<Rightarrow> Logger \<times> bool" where
  "Logger_Initialize throws s node_id log_file_path =
     (let s = s\<lparr>lg_node_id := node_id\<rparr>;
          file_sink = Rotating_file_sink log_file_path (1024 * 1024 * 100) 10 in
      and_then (call_library throws (Init_thread_pool 8192 1) s) (\<lambda>s.
      and_then (call_library throws (Make_sink Stdout_color_sink) s) (\<lambda>s.
      and_then (call_library throws (Make_sink file_sink) s) (\<lambda>s.
      let l = length (filter makes_logger (lg_calls s)) in
      and_then (call_library throws (Make_async_logger ''vectordb'' [Stdout_color_sink, file_sink]) s) (\<lambda>s.
      let s = s\<lparr>lg_logger := Some l\<rparr> in
      and_then (call_library throws (Set_pattern l (log_pattern (lg_node_id s))) s) (\<lambda>s.
      and_then (call_library throws (Register_logger l ''vectordb'') s) (\<lambda>s.
      and_then (call_library throws (Set_default_logger l) s) (\<lambda>s.
      call_library throws (Set_level l Info) s))))))))"

definition Logger_Shutdown :: "library \<Rightarrow> Logger \<Rightarrow> Logger \<times> bool" where
  "Logger_Shutdown throws s =
     and_then (case lg_logger s of Some l \<Rightarrow> call_library throws (Flush_logger l) s | None \<Rightarrow> (s, True))
       (call_library throws Spdlog_shutdown)"

text \<open>The text that the format strings of the macros produce.\<close>

definition log_line :: "string \<Rightarrow> string \<Rightarrow> string" where
  "log_line component msg = ''{'' @ dquoted ''component'' @ '': '' @ dquoted component @ '', '' @ dquoted ''msg'' @ '': '' @ dquoted msg @ ''}''"

definition write_log :: "library \<Rightarrow> Logger \<Rightarrow> severity \<Rightarrow> string \<Rightarrow> string \<Rightarrow> (Logger \<times> bool) option" where
  "write_log throws s sev component msg =
     map_option (\<lambda>l. call_library throws (Write_log l sev (log_line component msg)) s) (lg_logger s)"

definition LOG_INFO :: "library \<Rightarrow> Logger \<Rightarrow> string \<Rightarrow> string \<Rightarrow> (Logger \<times> bool) option" where
  "LOG_INFO throws s = write_log throws s Info"

definition LOG_WARN :: "library \<Rightarrow> Logger \<Rightarrow> string \<Rightarrow> string \<Rightarrow> (Logger \<times> bool) option" where
  "LOG_WARN throws s = write_log throws s Warn"

definition LOG_ERROR :: "library \<Rightarrow> Logger \<Rightarrow> string \<Rightarrow> string \<Rightarrow> (Logger \<times> bool) option" where
  "LOG_ERROR throws s = write_log throws s Err"

text \<open>A fatal message ends the process: the state is the one in which it is aborted.\<close>

definition LOG_FATAL :: "library \<Rightarrow> Logger \<Rightarrow> string \<Rightarrow> string \<Rightarrow> (Logger \<times> bool) option" where
  "LOG_FATAL throws s component msg =
     map_option (\<lambda>r. and_then r (Logger_Shutdown throws)) (write_log throws s Critical component msg)"

subsection \<open>Lemmas\<close>

lemmas logger_calls = call_library_def and_then_def

text \<open>Messages without quotes are told apart by their lines.\<close>

lemma quote_free_inject:
  assumes "CHR 0x22 \<notin> set a" and "CHR 0x22 \<notin> set b"
  shows "a @ CHR 0x22 # x = b @ CHR 0x22 # y \<longleftrightarrow> a = b \<and> x = y"
proof
  assume eq: "a @ CHR 0x22 # x = b @ CHR 0x22 # y"
  have tw: "takeWhile (\<lambda>c. c \<noteq> CHR 0x22) (c @ CHR 0x22 # z) = c" if "CHR 0x22 \<notin> set c" for c z
    using that by (induction c) auto
  from arg_cong [OF eq, of "takeWhile (\<lambda>c. c \<noteq> CHR 0x22)"] have "a = b" using tw assms by simp
  with eq show "a = b \<and> x = y" by simp
qed simp

lemma log_line_inject:
  assumes "CHR 0x22 \<notin> set c" and "CHR 0x22 \<notin> set c'"
  shows "log_line c m = log_line c' m' \<longleftrightarrow> c = c' \<and> m = m'"
  using quote_free_inject [OF assms] by (auto simp: log_line_def dquoted_def)

text \<open>Quotes are not escaped: a quote in a message moves the border between component and message.\<close>

lemma log_line_ambiguous:
  "log_line (c @ [CHR 0x22] @ '', '' @ dquoted ''msg'' @ '': '' @ [CHR 0x22] @ m) m'
   = log_line c (m @ [CHR 0x22] @ '', '' @ dquoted ''msg'' @ '': '' @ [CHR 0x22] @ m')"
  by (simp add: log_line_def dquoted_def)

lemma LOG_before_Initialize: "LOG_INFO throws Logger_start component msg = None"
  by (simp add: LOG_INFO_def write_log_def Logger_start_def)

text \<open>With a library that answers every call, initialising leaves a logger that the macros reach.\<close>

lemma Logger_Initialize_fine:
  assumes "\<And>cs c. \<not> throws cs c"
  shows "\<exists>s' l. Logger_Initialize throws s node_id path = (s', True) \<and> lg_logger s' = Some l \<and> lg_node_id s' = node_id
    \<and> Set_pattern l (log_pattern node_id) \<in> set (lg_calls s') \<and> last (lg_calls s') = Set_level l Info
    \<and> LOG_WARN throws s' component msg
        = Some (s'\<lparr>lg_calls := lg_calls s' @ [Write_log l Warn (log_line component msg)]\<rparr>, True)"
  using assms by (simp add: Logger_Initialize_def logger_calls LOG_WARN_def write_log_def Let_def)

text \<open>The pointer is not reset: a message after the shutdown goes to a logger whose library was shut down.\<close>

lemma LOG_after_Shutdown:
  assumes "\<And>cs c. \<not> throws cs c" and "lg_logger s = Some l" and "Logger_Shutdown throws s = (s', ok)"
  shows "LOG_INFO throws s' component msg
    = Some (s'\<lparr>lg_calls := lg_calls s @ [Flush_logger l, Spdlog_shutdown, Write_log l Info (log_line component msg)]\<rparr>, True)"
  using assms by (auto simp: Logger_Shutdown_def logger_calls LOG_INFO_def write_log_def)

text \<open>The library refuses a second logger of the same name. A second initialisation then ends with an exception,
  but the node and the logger have already been replaced.\<close>

definition unique_names :: library where
  "unique_names cs c \<longleftrightarrow> (\<exists>l l' name. c = Register_logger l name \<and> Register_logger l' name \<in> set cs)"

lemma Logger_Initialize_twice:
  assumes "Logger_Initialize unique_names Logger_start node_id path = (s, ok)"
  shows "ok \<and> (\<exists>s'. Logger_Initialize unique_names s node_id' path' = (s', False) \<and> lg_node_id s' = node_id'
    \<and> lg_logger s = Some 0 \<and> lg_logger s' = Some 1)"
  using assms by (auto simp: Logger_Initialize_def logger_calls unique_names_def Logger_start_def Let_def)

end
