(* ===== verification/Spec2Isabelle.thy ===== *)
theory Spec2Isabelle
  imports Status Wal Skip_List Mem_Table Recovery_Manager Block Bloom_Filter SSTable_Writer SSTable_Reader
    Leveled_Compaction Checkpoint_Manager Raft_State Hlc Block_Cache Compaction_Manager Storage_Engine Engine_Compaction
    Engine_Anomalies Thread_Pool Utils Config Metrics Logging
begin

text \<open>
  A verification library for the C++ code of the vector database: its log-structured storage engine
  (\<^verbatim>\<open>src/storage\<close>), the role machine of its consensus module (\<^verbatim>\<open>src/raft/core\<close>) and its common
  library (\<^verbatim>\<open>src/common\<close>). Paths are relative to the root of the repository.

  \<^bold>\<open>The program.\<close> A write goes to the write-ahead log and then to the memtable, a skip list. A full memtable
  is flushed to a sorted table file of level 0, the file is registered in the catalogue of the compaction
  manager, and a checkpoint records the catalogue and the number of the last log record that is in files. A
  lookup asks the memtables and then the files, from the newest of the lowest level on; a file is opened by
  its footer, asked through its Bloom filter, and searched by bisection in its index and in one block. A
  background thread merges files into the next level. Opening a directory loads the checkpoint and replays
  the records behind it into a new memtable.

  \<^bold>\<open>Conventions.\<close> A structure is a record, an enumeration a datatype, a 32- or 64-bit number that can wrap a
  word; a \<^verbatim>\<open>size_t\<close> that counts elements in memory is a natural number, with every cast to a narrower type
  written out. \<^verbatim>\<open>ErrorOr\<close> is the datatype of a value or an error status; a function that can run into
  undefined behaviour or an exception that nobody catches returns an option, and \<^const>\<open>None\<close> is that fault.
  Files are a map from paths to bytes, and the record \<^typ>\<open>io\<close> says what the operating system lets happen:
  which files open, how many bytes the disk takes, when a buffer is written out. The random heights of the
  skip list, the draws of the identifiers, \<^verbatim>\<open>std::sort\<close> (with its contract, \<^const>\<open>sorts\<close>), the reading of the
  clock, the YAML library, the failures of the logging library and of the metrics server are arguments. Code
  under a lock is one step; where a function has several locked sections, each is a definition of its own.

  \<^bold>\<open>Shared theories.\<close> \<^verbatim>\<open>Prelude\<close>: types, casts, facts on lists and words. \<^verbatim>\<open>Status\<close>:
  \<^verbatim>\<open>common/error\<close>. \<^verbatim>\<open>Binary_Serializer\<close>: \<^verbatim>\<open>common/serialization\<close>, with the locale of a field codec
  and that of a reader which refuses cut buffers, interpreted for each field type. \<^verbatim>\<open>Files\<close>: streams, the file
  system and power loss. \<^verbatim>\<open>Decimal\<close>: printed numbers.
  \<^verbatim>\<open>Ordered_Table\<close>: the locale between the in-memory tables and their users, interpreted for the skip list
  and the memtable.

  \<^bold>\<open>Storage.\<close>
  \<^item> \<^verbatim>\<open>Crc32\<close>, \<^verbatim>\<open>Wal\<close>: the log (\<^verbatim>\<open>storage/wal\<close>). Everything appended is read back; a file cut anywhere
    gives the complete records; a damaged byte is never accepted. The locale of a record log is interpreted
    for the scan of \<^verbatim>\<open>Open\<close> and for that of \<^verbatim>\<open>ReadAll\<close>.
  \<^item> \<^verbatim>\<open>Skip_List\<close>, \<^verbatim>\<open>Mem_Table\<close>: the pointer structure over an explicit store, refined to a sorted association
    list; its memory counter, exact over the nodes and links that are allocated; its destructor.
  \<^item> \<^verbatim>\<open>Recovery_Manager\<close>: replay rebuilds the memtable that was lost.
  \<^item> \<^verbatim>\<open>Block\<close>, \<^verbatim>\<open>Bloom_Filter\<close>, \<^verbatim>\<open>SSTable_Writer\<close>, \<^verbatim>\<open>SSTable_Reader\<close>: the table file (\<^verbatim>\<open>storage/sstable\<close>), whole
    write and read paths; a written table answers every lookup and scans back.
  \<^item> \<^verbatim>\<open>Block_Cache\<close>: the cache (\<^verbatim>\<open>storage/cache\<close>) refines a bounded recency list, under every interleaving.
  \<^item> \<^verbatim>\<open>Checkpoint_Manager\<close>: saving and loading (\<^verbatim>\<open>storage/checkpoint\<close>). The disks between the calls of a save
    are listed with the files that were never synced: the death of the process leaves the old or the new
    checkpoint, a power loss can cut the new one, because the code flushes and renames without a sync.
  \<^item> \<^verbatim>\<open>Leveled_Compaction\<close>, \<^verbatim>\<open>N_Way_Merge\<close>, \<^verbatim>\<open>Compaction_Manager\<close>: level budgets, the heap merge and the whole of
    a compaction (\<^verbatim>\<open>storage/compaction\<close>), equal to a reference merge.
  \<^item> \<^verbatim>\<open>Storage_Engine\<close>: the engine itself (\<^verbatim>\<open>storage/engine\<close>). The invariant \<^const>\<open>engine_inv\<close> says what log,
    memtable, catalogue, files and checkpoint hold after any sequence of writes and flushes, each file with the
    segment of the writes it was flushed from; reads and the recovery after a crash follow from it.
  \<^item> \<^verbatim>\<open>Engine_Compaction\<close>: the engine together with a round of its compaction thread: what the files, the
    checkpoint and the lookups are afterwards, and when no answer changes. Sessions of \<^verbatim>\<open>Storage_Engine\<close> have no
    such round in them, because with one the promises of the engine do not hold in general.
  \<^item> \<^verbatim>\<open>Engine_Anomalies\<close>: sequences of calls after which acknowledged writes are not read back.

  \<^bold>\<open>Common library and Raft.\<close>
  \<^item> \<^verbatim>\<open>Thread_Pool\<close>: workers, clients and destructor as a step relation; every task runs once and in order, no
    wakeup is lost, the destructor ends and drops nothing.
  \<^item> \<^verbatim>\<open>Hlc\<close>: the hybrid logical clock on packed 64-bit words, with the two clocks of \<^verbatim>\<open>common/clock\<close>. The
    interface \<^verbatim>\<open>Clock\<close> is a locale, interpreted for \<^verbatim>\<open>FakeClock\<close>; histories of timestamps are ordered.
  \<^item> \<^verbatim>\<open>Utils\<close>: hash, strings, identifiers. \<^verbatim>\<open>Config\<close>: the loader. \<^verbatim>\<open>Metrics\<close>: the registry singleton.
    \<^verbatim>\<open>Logging\<close>: the logger as the sequence of its library calls.
  \<^item> \<^verbatim>\<open>Raft_State\<close>: role, term and vote of a node, one vote per term also across restarts.

  \<^bold>\<open>Bounds.\<close> No definition has fuel: loops over pointers that could cycle are partial functions into options
  and are proved to return on well-formed structures, the others are recursive functions with a measure.
  Theorems on whole sessions assume fewer than \<^term>\<open>2 ^ 32\<close> writes, a memtable limit of at most
  \<^term>\<open>2 ^ 27\<close> bytes (the default is \<^term>\<open>2 ^ 26\<close>) and records below the limit of the log reader
  (\<^const>\<open>max_payload\<close>), so that no length field of a file wraps; the theorems at the edges of these ranges
  say what happens beyond them.

  \<^bold>\<open>Crashes.\<close> A crash of the log, of recovery and of the engine is the death of the process: what was handed to
  the operating system stays, what was in the buffer of a stream may be cut. Power loss, which also cuts what
  was never synced (\<^const>\<open>power_loss\<close>), is stated for the checkpoint.

  \<^bold>\<open>Not modelled.\<close> Exhaustion of memory: an allocation fails only by asking for more than a vector can hold.
  What the libraries for logging, metrics and YAML do with the calls they get, and what the
  operating system does with a request to sleep: these are arguments. In the engine, the creation of
  directories and messages on the error stream, which have no effect on the data. The futures of the thread
  pool, which belong to the standard library. The threads of the engine run under the locks whose sections
  are the steps of the model; data races on counters outside of them have no defined behaviour to model. The
  tests. The directories of elections, replication, membership and snapshots hold no code, and the files of
  \<^verbatim>\<open>proto\<close> and \<^verbatim>\<open>ml\<close> are empty, so that nothing of the distributed part but the role machine can be modelled.
\<close>

end
